(* ===== verification/Dfs_Prelude.thy ===== *)
theory Dfs_Prelude
  imports Main "HOL-Library.Word" "HOL-Library.Monad_Syntax" "HOL-Library.Multiset"
begin

text \<open>
  The prelude of the development: machine integer types, the return codes of
  \<^verbatim>\<open>src/src/core/dfs_types.h\<close>, the treatment of undefined behaviour, checked
  memory reads, and the lemmas on lists and options that the component theories share.

  Undefined behaviour. A C++ operation that has no defined result (a null dereference,
  an access outside of the object a pointer points into, a signed overflow, the use of
  freed memory) is the value \<^term>\<open>None\<close> of an \<^typ>\<open>'a option\<close>; a loop that never ends
  is \<^term>\<open>None\<close> as well. Every theorem that says that an operation returns
  \<^term>\<open>Some r\<close> is therefore also a statement of memory safety and termination.
  The error codes of the program itself (\<open>NGX_ERROR\<close>, \<open>NGX_AGAIN\<close>, \<dots>) are ordinary
  values of type \<^typ>\<open>int\<close>, as in the source.
\<close>

unbundle bit_operations_syntax

section \<open>Machine integers and addresses\<close>

type_synonym u8 = "8 word"
type_synonym u16 = "16 word"
type_synonym u32 = "32 word"
type_synonym u64 = "64 word"

text \<open>Conversion of a wider integer to a 32-bit \<^verbatim>\<open>int\<close>, which keeps the low 32 bits.\<close>

definition to_int32 :: "int \<Rightarrow> int" where
  "to_int32 x = sint (word_of_int x :: 32 word)"

lemma to_int32_id [simp]: "- (2 ^ 31) \<le> x \<Longrightarrow> x < 2 ^ 31 \<Longrightarrow> to_int32 x = x"
  by (simp add: to_int32_def sint_sbintrunc' signed_take_bit_int_eq_self)

lemma nat_int_diff [simp]: "nat (int a - int b) = a - b"
  by simp

text \<open>Signed arithmetic: a result outside of the range of the 32- or 64-bit type is undefined.\<close>

definition chk_int32 :: "int \<Rightarrow> int option" where
  "chk_int32 x = (if - (2 ^ 31) \<le> x \<and> x < 2 ^ 31 then Some x else None)"

definition chk_int64 :: "int \<Rightarrow> int option" where
  "chk_int64 x = (if - (2 ^ 63) \<le> x \<and> x < 2 ^ 63 then Some x else None)"

text \<open>Addresses of objects; \<open>0\<close> is \<^verbatim>\<open>nullptr\<close>.\<close>

type_synonym addr = nat

abbreviation nullptr :: addr where
  "nullptr \<equiv> 0"

section \<open>Return codes\<close>

definition NGX_OK :: int where "NGX_OK = 0"
definition NGX_ERROR :: int where "NGX_ERROR = -1"
definition NGX_AGAIN :: int where "NGX_AGAIN = -2"
definition NGX_BUSY :: int where "NGX_BUSY = -3"
definition NGX_BUFFER_FULL :: int where "NGX_BUFFER_FULL = -9"
definition NGX_CONN_CLOSED :: int where "NGX_CONN_CLOSED = -10"

named_theorems ngx_codes \<open>the numeric values of the return codes\<close>

declare NGX_OK_def [ngx_codes] NGX_ERROR_def [ngx_codes] NGX_AGAIN_def [ngx_codes]
  NGX_BUSY_def [ngx_codes] NGX_BUFFER_FULL_def [ngx_codes] NGX_CONN_CLOSED_def [ngx_codes]

lemma ngx_codes_distinct [simp]:
  "NGX_OK \<noteq> NGX_ERROR" "NGX_OK \<noteq> NGX_AGAIN" "NGX_OK \<noteq> NGX_BUSY"
  "NGX_ERROR \<noteq> NGX_AGAIN" "NGX_ERROR \<noteq> NGX_BUSY" "NGX_AGAIN \<noteq> NGX_BUSY"
  "NGX_ERROR \<noteq> NGX_OK" "NGX_AGAIN \<noteq> NGX_OK" "NGX_BUSY \<noteq> NGX_OK"
  "NGX_AGAIN \<noteq> NGX_ERROR" "NGX_BUSY \<noteq> NGX_ERROR" "NGX_BUSY \<noteq> NGX_AGAIN"
  by (simp_all add: ngx_codes)

section \<open>Checked reads of an array object\<close>

text \<open>\<open>rd xs i\<close> reads element \<open>i\<close> of the object \<open>xs\<close>; outside of it the behaviour is undefined.\<close>

definition rd :: "'a list \<Rightarrow> nat \<Rightarrow> 'a option" where
  "rd xs i = (if i < length xs then Some (xs ! i) else None)"

lemma rd_Some [simp]: "i < length xs \<Longrightarrow> rd xs i = Some (xs ! i)"
  by (simp add: rd_def)

lemma rd_None [simp]: "length xs \<le> i \<Longrightarrow> rd xs i = None"
  by (simp add: rd_def)

text \<open>\<open>rdn xs i n\<close> reads the \<open>n\<close> elements from index \<open>i\<close> on (the source of a \<^verbatim>\<open>memcpy\<close>).\<close>

definition rdn :: "'a list \<Rightarrow> nat \<Rightarrow> nat \<Rightarrow> 'a list option" where
  "rdn xs i n = (if i + n \<le> length xs then Some (take n (drop i xs)) else None)"

lemma rdn_Some [simp]: "i + n \<le> length xs \<Longrightarrow> rdn xs i n = Some (take n (drop i xs))"
  by (simp add: rdn_def)

text \<open>\<open>wrn xs i ys\<close> overwrites the elements from index \<open>i\<close> on (the target of a \<^verbatim>\<open>memcpy\<close>).\<close>

definition wrn :: "'a list \<Rightarrow> nat \<Rightarrow> 'a list \<Rightarrow> 'a list option" where
  "wrn xs i ys =
     (if i + length ys \<le> length xs
      then Some (take i xs @ ys @ drop (i + length ys) xs) else None)"

lemma length_wrn: "wrn xs i ys = Some zs \<Longrightarrow> length zs = length xs"
  by (auto simp: wrn_def split: if_splits)

lemma wrn_Some [simp]:
  "i + length ys \<le> length xs \<Longrightarrow> wrn xs i ys = Some (take i xs @ ys @ drop (i + length ys) xs)"
  by (simp add: wrn_def)

section \<open>Character arrays\<close>

text \<open>\<^verbatim>\<open>strlen\<close> of a character array; without a terminator it reads past the array.\<close>

definition strlen :: "u8 list \<Rightarrow> nat option" where
  "strlen cs = (if 0 \<in> set cs then Some (length (takeWhile (\<lambda>ch. ch \<noteq> 0) cs)) else None)"

text \<open>\<^verbatim>\<open>memcmp\<close> of two byte strings of the same length: the difference of the first bytes that differ.\<close>

fun memcmp :: "u8 list \<Rightarrow> u8 list \<Rightarrow> int" where
  "memcmp (a # as) (b # bs) = (if a = b then memcmp as bs else uint a - uint b)"
| "memcmp _ _ = 0"

lemma memcmp_eq_0: "length xs = length ys \<Longrightarrow> memcmp xs ys = 0 \<longleftrightarrow> xs = ys"
  by (induction xs ys rule: memcmp.induct) (auto simp: word_uint_eq_iff)

end
