(* ===== verification/Dfs_Queue.thy ===== *)
theory Dfs_Queue
  imports Dfs_Prelude "HOL-Library.Multiset"
begin

text \<open>
  The intrusive doubly linked queue of \<^verbatim>\<open>src/src/core/dfs_queue.h\<close> and
  \<^verbatim>\<open>dfs_queue.cpp\<close>: every queue of the program (tasks, posted events, free tasks) is
  a ring of \<open>queue_t\<close> nodes through a head node. The model is a heap of nodes with the
  pointer assignments of the macros in their order; the abstraction \<open>is_queue\<close> relates
  a head node to the list of the nodes on its ring.
\<close>

section \<open>Nodes and heap\<close>

record queue_s =
  prev :: addr
  "next" :: addr

type_synonym qheap = "addr \<Rightarrow> queue_s"

definition ld_prev :: "qheap \<Rightarrow> addr \<Rightarrow> addr option" where
  "ld_prev hp p = (if p = nullptr then None else Some (prev (hp p)))"

definition ld_next :: "qheap \<Rightarrow> addr \<Rightarrow> addr option" where
  "ld_next hp p = (if p = nullptr then None else Some (next (hp p)))"

definition st_prev :: "qheap \<Rightarrow> addr \<Rightarrow> addr \<Rightarrow> qheap option" where
  "st_prev hp p v = (if p = nullptr then None else Some (hp(p := (hp p)\<lparr>prev := v\<rparr>)))"

definition st_next :: "qheap \<Rightarrow> addr \<Rightarrow> addr \<Rightarrow> qheap option" where
  "st_next hp p v = (if p = nullptr then None else Some (hp(p := (hp p)\<lparr>next := v\<rparr>)))"

lemmas q_access = ld_prev_def ld_next_def st_prev_def st_next_def

section \<open>The macros of dfs_queue.h\<close>

definition queue_init :: "qheap \<Rightarrow> addr \<Rightarrow> qheap option" where
  "queue_init hp q = do {
     hp \<leftarrow> st_prev hp q q;
     st_next hp q q }"

definition queue_empty :: "qheap \<Rightarrow> addr \<Rightarrow> bool option" where
  "queue_empty hp h = do {
     p \<leftarrow> ld_prev hp h;
     Some (h = p) }"

definition queue_head :: "qheap \<Rightarrow> addr \<Rightarrow> addr option" where
  "queue_head hp h = ld_next hp h"

definition queue_tail :: "qheap \<Rightarrow> addr \<Rightarrow> addr option" where
  "queue_tail hp h = ld_prev hp h"

definition queue_next :: "qheap \<Rightarrow> addr \<Rightarrow> addr option" where
  "queue_next hp q = ld_next hp q"

definition queue_prev :: "qheap \<Rightarrow> addr \<Rightarrow> addr option" where
  "queue_prev hp q = ld_prev hp q"

definition queue_insert_head :: "qheap \<Rightarrow> addr \<Rightarrow> addr \<Rightarrow> qheap option" where
  "queue_insert_head hp h x = do {
     n \<leftarrow> ld_next hp h;
     hp \<leftarrow> st_next hp x n;
     n \<leftarrow> ld_next hp x;
     hp \<leftarrow> st_prev hp n x;
     hp \<leftarrow> st_prev hp x h;
     st_next hp h x }"

definition queue_insert_tail :: "qheap \<Rightarrow> addr \<Rightarrow> addr \<Rightarrow> qheap option" where
  "queue_insert_tail hp h x = do {
     p \<leftarrow> ld_prev hp h;
     hp \<leftarrow> st_prev hp x p;
     p \<leftarrow> ld_prev hp x;
     hp \<leftarrow> st_next hp p x;
     hp \<leftarrow> st_next hp x h;
     st_prev hp h x }"

definition queue_insert_before :: "qheap \<Rightarrow> addr \<Rightarrow> addr \<Rightarrow> qheap option" where
  "queue_insert_before hp listelm elm = do {
     p \<leftarrow> ld_prev hp listelm;
     hp \<leftarrow> st_prev hp elm p;
     hp \<leftarrow> st_next hp elm listelm;
     p \<leftarrow> ld_prev hp listelm;
     hp \<leftarrow> st_next hp p elm;
     st_prev hp listelm elm }"

definition queue_insert_after :: "qheap \<Rightarrow> addr \<Rightarrow> addr \<Rightarrow> qheap option" where
  "queue_insert_after hp listelm elm = do {
     n \<leftarrow> ld_next hp listelm;
     hp \<leftarrow> st_next hp elm n;
     hp \<leftarrow> st_prev hp elm listelm;
     n \<leftarrow> ld_next hp listelm;
     hp \<leftarrow> st_prev hp n elm;
     st_next hp listelm elm }"

definition queue_add_queue :: "qheap \<Rightarrow> addr \<Rightarrow> addr \<Rightarrow> qheap option" where
  "queue_add_queue hp h n = do {
     hprev \<leftarrow> ld_prev hp h;
     nnext \<leftarrow> ld_next hp n;
     hp \<leftarrow> st_next hp hprev nnext;
     nnext \<leftarrow> ld_next hp n;
     hprev \<leftarrow> ld_prev hp h;
     hp \<leftarrow> st_prev hp nnext hprev;
     nprev \<leftarrow> ld_prev hp n;
     hp \<leftarrow> st_prev hp h nprev;
     hprev \<leftarrow> ld_prev hp h;
     st_next hp hprev h }"

definition queue_remove :: "qheap \<Rightarrow> addr \<Rightarrow> qheap option" where
  "queue_remove hp x = do {
     n \<leftarrow> ld_next hp x;
     p \<leftarrow> ld_prev hp x;
     hp \<leftarrow> st_prev hp n p;
     p \<leftarrow> ld_prev hp x;
     n \<leftarrow> ld_next hp x;
     hp \<leftarrow> st_next hp p n;
     hp \<leftarrow> st_next hp x nullptr;
     n \<leftarrow> ld_next hp x;
     st_prev hp x n }"

definition queue_split :: "qheap \<Rightarrow> addr \<Rightarrow> addr \<Rightarrow> addr \<Rightarrow> qheap option" where
  "queue_split hp h q n = do {
     hprev \<leftarrow> ld_prev hp h;
     hp \<leftarrow> st_prev hp n hprev;
     nprev \<leftarrow> ld_prev hp n;
     hp \<leftarrow> st_next hp nprev n;
     hp \<leftarrow> st_next hp n q;
     qprev \<leftarrow> ld_prev hp q;
     hp \<leftarrow> st_prev hp h qprev;
     hprev \<leftarrow> ld_prev hp h;
     hp \<leftarrow> st_next hp hprev h;
     st_prev hp q n }"

section \<open>The routines of dfs_queue.cpp\<close>

partial_function (option) queue_middle_loop :: "qheap \<Rightarrow> addr \<Rightarrow> addr \<Rightarrow> addr \<Rightarrow> addr option" where
  "queue_middle_loop hp queue middle nxt = do {
     middle \<leftarrow> queue_next hp middle;
     nxt \<leftarrow> queue_next hp nxt;
     t \<leftarrow> queue_tail hp queue;
     if nxt = t then Some middle
     else do {
       nxt \<leftarrow> queue_next hp nxt;
       t \<leftarrow> queue_tail hp queue;
       if nxt = t then Some middle
       else queue_middle_loop hp queue middle nxt } }"

definition queue_middle :: "qheap \<Rightarrow> addr \<Rightarrow> addr option" where
  "queue_middle hp queue = do {
     middle \<leftarrow> queue_head hp queue;
     t \<leftarrow> queue_tail hp queue;
     if middle = t then Some middle
     else do {
       nxt \<leftarrow> queue_head hp queue;
       queue_middle_loop hp queue middle nxt } }"

text \<open>
  The comparison \<^verbatim>\<open>cmp\<close> of \<^verbatim>\<open>queue_sort\<close> is a callback on two nodes and a parameter
  of the model.
\<close>

partial_function (option) queue_sort_back ::
    "(addr \<Rightarrow> addr \<Rightarrow> int) \<Rightarrow> qheap \<Rightarrow> addr \<Rightarrow> addr \<Rightarrow> addr \<Rightarrow> addr option" where
  "queue_sort_back cmp hp queue prv q =
     (if cmp prv q \<le> 0 then Some prv
      else do {
        prv \<leftarrow> queue_prev hp prv;
        if prv \<noteq> queue then queue_sort_back cmp hp queue prv q else Some prv })"

partial_function (option) queue_sort_loop ::
    "(addr \<Rightarrow> addr \<Rightarrow> int) \<Rightarrow> qheap \<Rightarrow> addr \<Rightarrow> addr \<Rightarrow> qheap option" where
  "queue_sort_loop cmp hp queue q =
     (if q = queue then Some hp
      else do {
        prv \<leftarrow> queue_prev hp q;
        nxt \<leftarrow> queue_next hp q;
        hp \<leftarrow> queue_remove hp q;
        prv \<leftarrow> queue_sort_back cmp hp queue prv q;
        hp \<leftarrow> queue_insert_head hp prv q;
        queue_sort_loop cmp hp queue nxt })"

definition queue_sort :: "(addr \<Rightarrow> addr \<Rightarrow> int) \<Rightarrow> qheap \<Rightarrow> addr \<Rightarrow> qheap option" where
  "queue_sort cmp hp queue = do {
     q \<leftarrow> queue_head hp queue;
     t \<leftarrow> queue_tail hp queue;
     if q = t then Some hp
     else do {
       q \<leftarrow> queue_next hp q;
       queue_sort_loop cmp hp queue q } }"

section \<open>The abstraction: a head node and the list of nodes on its ring\<close>

fun links :: "qheap \<Rightarrow> addr list \<Rightarrow> bool" where
  "links hp (a # b # xs) \<longleftrightarrow> next (hp a) = b \<and> prev (hp b) = a \<and> links hp (b # xs)"
| "links hp _ \<longleftrightarrow> True"

definition is_queue :: "qheap \<Rightarrow> addr \<Rightarrow> addr list \<Rightarrow> bool" where
  "is_queue hp h xs \<longleftrightarrow> distinct (h # xs) \<and> nullptr \<notin> set (h # xs) \<and> links hp (h # xs @ [h])"

lemma links_append:
  "links hp (xs @ a # ys) \<longleftrightarrow> links hp (xs @ [a]) \<and> links hp (a # ys)"
proof (induction xs)
  case (Cons x xs)
  then show ?case by (cases xs) auto
qed simp

lemma is_queue_rotate:
  "is_queue hp h (xs @ p # ys) \<longleftrightarrow> is_queue hp p (ys @ h # xs)"
proof -
  have "links hp (h # (xs @ p # ys) @ [h]) \<longleftrightarrow> links hp (p # (ys @ h # xs) @ [p])"
    using links_append[of hp "h # xs" p "ys @ [h]"] links_append[of hp "p # ys" h "xs @ [p]"]
    by auto
  then show ?thesis unfolding is_queue_def by auto
qed

text \<open>A ring depends only on the links of its own nodes.\<close>

lemma links_frame:
  assumes "\<And>a. a \<in> set (butlast xs) \<Longrightarrow> next (hp' a) = next (hp a)"
    and "\<And>a. a \<in> set (tl xs) \<Longrightarrow> prev (hp' a) = prev (hp a)"
  shows "links hp' xs \<longleftrightarrow> links hp xs"
  using assms
proof (induction hp xs rule: links.induct)
  case (1 hp a b xs)
  from "1.prems" have "links hp' (b # xs) = links hp (b # xs)"
    by (intro "1.IH") (auto split: if_splits)
  with "1.prems" show ?case by (auto split: if_splits)
qed auto

lemma is_queue_Nil: "is_queue hp h [] \<longleftrightarrow> h \<noteq> nullptr \<and> next (hp h) = h \<and> prev (hp h) = h"
  by (auto simp: is_queue_def)


lemma links_Cons: "ys \<noteq> [] \<Longrightarrow> links hp (a # ys) \<longleftrightarrow> next (hp a) = hd ys \<and> prev (hp (hd ys)) = a \<and> links hp ys"
  by (cases ys) auto

lemma is_queueD:
  assumes "is_queue hp h xs"
  shows "h \<noteq> nullptr" "h \<notin> set xs" "distinct xs" "nullptr \<notin> set xs"
    "next (hp h) = hd (xs @ [h])" "prev (hp h) = last (h # xs)"
    "prev (hp (next (hp h))) = h" "next (hp (prev (hp h))) = h"
proof -
  have l: "links hp (h # xs @ [h])" and d: "distinct (h # xs)" "nullptr \<notin> set (h # xs)"
    using assms by (auto simp: is_queue_def)
  show "h \<noteq> nullptr" "h \<notin> set xs" "distinct xs" "nullptr \<notin> set xs" using d by auto
  show n: "next (hp h) = hd (xs @ [h])" and "prev (hp (next (hp h))) = h"
    using l by (cases xs; simp)+
  have "h # xs @ [h] = butlast (h # xs) @ last (h # xs) # [h]"
    using append_butlast_last_id[of "h # xs"] by (metis append_Cons append.assoc list.distinct(1) append_Nil)
  with l have "links hp [last (h # xs), h]"
    using links_append[of hp "butlast (h # xs)" "last (h # xs)" "[h]"] by simp
  then show "prev (hp h) = last (h # xs)" "next (hp (prev (hp h))) = h" by simp_all
qed

lemma ring_mem:
  assumes "is_queue hp h xs"
  shows "next (hp h) \<in> set (h # xs)" "prev (hp h) \<in> set (h # xs)"
    "next (hp h) \<noteq> nullptr" "prev (hp h) \<noteq> nullptr"
proof -
  show 1: "next (hp h) \<in> set (h # xs)" "prev (hp h) \<in> set (h # xs)"
    using is_queueD(5,6)[OF assms] by (cases xs; simp)+
  show "next (hp h) \<noteq> nullptr" "prev (hp h) \<noteq> nullptr"
    using 1 is_queueD(1,4)[OF assms] by (metis set_ConsD)+
qed

lemma queue_insert_head_eff:
  assumes "h \<noteq> nullptr" "x \<noteq> nullptr" "next (hp h) \<noteq> nullptr" "x \<noteq> h" "x \<noteq> next (hp h)"
  obtains hp' where "queue_insert_head hp h x = Some hp'"
    "\<And>p. next (hp' p) = (if p = h then x else if p = x then next (hp h) else next (hp p))"
    "\<And>p. prev (hp' p) = (if p = next (hp h) then x else if p = x then h else prev (hp p))"
    "\<And>p. p \<notin> {h, x, next (hp h)} \<Longrightarrow> hp' p = hp p"
proof -
  have "\<exists>hp'. queue_insert_head hp h x = Some hp' \<and>
    (\<forall>p. next (hp' p) = (if p = h then x else if p = x then next (hp h) else next (hp p))) \<and>
    (\<forall>p. prev (hp' p) = (if p = next (hp h) then x else if p = x then h else prev (hp p))) \<and>
    (\<forall>p. p \<notin> {h, x, next (hp h)} \<longrightarrow> hp' p = hp p)"
    using assms by (simp add: queue_insert_head_def q_access)
  with that show thesis by blast
qed

lemma is_queue_insert_head:
  assumes q: "is_queue hp h xs" and x: "x \<noteq> nullptr" "x \<notin> set (h # xs)"
  obtains hp' where "queue_insert_head hp h x = Some hp'" "is_queue hp' h (x # xs)"
     "\<And>p. p \<notin> set (h # x # xs) \<Longrightarrow> hp' p = hp p"
proof -
  note D = is_queueD[OF q] and R = ring_mem[OF q]
  from R x have ne: "x \<noteq> next (hp h)" by auto
  obtain hp' where 1: "queue_insert_head hp h x = Some hp'"
    and n: "\<And>p. next (hp' p) = (if p = h then x else if p = x then next (hp h) else next (hp p))"
    and p: "\<And>p. prev (hp' p) = (if p = next (hp h) then x else if p = x then h else prev (hp p))"
    and f: "\<And>p. p \<notin> {h, x, next (hp h)} \<Longrightarrow> hp' p = hp p"
    using queue_insert_head_eff[of h x hp] D(1) x R ne by auto
  have "links hp' (xs @ [h]) \<longleftrightarrow> links hp (xs @ [h])"
  proof (rule links_frame)
    fix a assume "a \<in> set (butlast (xs @ [h]))"
    then show "next (hp' a) = next (hp a)" using D(2) x by (auto simp: n)
  next
    fix a assume a: "a \<in> set (tl (xs @ [h]))"
    then have "a \<noteq> next (hp h)" "a \<noteq> x" using D(2,3,5) x by (cases xs; auto)+
    then show "prev (hp' a) = prev (hp a)" by (simp add: p)
  qed
  moreover have "links hp (xs @ [h])" using q by (cases xs) (auto simp: is_queue_def)
  ultimately have "links hp' (h # x # xs @ [h])"
    using D(5) ne x by (simp add: links_Cons n p)
  then have "is_queue hp' h (x # xs)" using q x by (auto simp: is_queue_def)
  moreover have "hp' p = hp p" if "p \<notin> set (h # x # xs)" for p
    using f[of p] R(1) that by auto
  ultimately show thesis using 1 that by blast
qed

lemma insert_tail_as_head:
  assumes "is_queue hp h xs" "x \<noteq> nullptr" "x \<notin> set (h # xs)"
  shows "queue_insert_tail hp h x = queue_insert_head hp (prev (hp h)) x"
  using assms is_queueD[OF assms(1)] ring_mem[OF assms(1)]
  by (simp add: queue_insert_tail_def queue_insert_head_def q_access fun_eq_iff) auto

lemma insert_before_as_tail:
  assumes "x \<noteq> h" "x \<noteq> prev (hp h)"
  shows "queue_insert_before hp h x = queue_insert_tail hp h x"
  using assms by (auto simp: queue_insert_tail_def queue_insert_before_def q_access fun_eq_iff)

lemma insert_after_as_head:
  assumes "x \<noteq> h" "x \<noteq> next (hp h)"
  shows "queue_insert_after hp h x = queue_insert_head hp h x"
  using assms by (auto simp: queue_insert_head_def queue_insert_after_def q_access fun_eq_iff)

lemma is_queue_insert_at:
  assumes q: "is_queue hp h (xs @ p # ys)" and x: "x \<noteq> nullptr" "x \<notin> set (h # xs @ p # ys)"
  obtains hp' where "queue_insert_head hp p x = Some hp'" "is_queue hp' h (xs @ p # x # ys)"
     "\<And>a. a \<notin> set (h # xs @ p # x # ys) \<Longrightarrow> hp' a = hp a"
proof -
  have "is_queue hp p (ys @ h # xs)" using q is_queue_rotate by blast
  then obtain hp' where 1: "queue_insert_head hp p x = Some hp'" "is_queue hp' p (x # ys @ h # xs)"
    "\<And>a. a \<notin> set (p # x # ys @ h # xs) \<Longrightarrow> hp' a = hp a"
    using is_queue_insert_head[of hp p "ys @ h # xs" x] x by auto
  moreover have "is_queue hp' h (xs @ p # x # ys)"
    using 1(2) is_queue_rotate[of hp' h xs p "x # ys"] by simp
  ultimately show thesis using that by fastforce
qed

lemma is_queue_insert_tail:
  assumes q: "is_queue hp h xs" and x: "x \<noteq> nullptr" "x \<notin> set (h # xs)"
  obtains hp' where "queue_insert_tail hp h x = Some hp'" "is_queue hp' h (xs @ [x])"
     "\<And>a. a \<notin> set (h # x # xs) \<Longrightarrow> hp' a = hp a"
proof (cases xs rule: rev_cases)
  case Nil
  with q x show thesis
    using is_queue_insert_head[OF q x] insert_tail_as_head[OF q x] is_queueD(6)[OF q] that
    by auto
next
  case (snoc ws p)
  with q x obtain hp' where "queue_insert_head hp p x = Some hp'" "is_queue hp' h (ws @ p # x # [])"
     "\<And>a. a \<notin> set (h # ws @ p # x # []) \<Longrightarrow> hp' a = hp a"
    using is_queue_insert_at[of hp h ws p "[]" x] by auto
  with snoc show thesis
    using insert_tail_as_head[OF q x] is_queueD(6)[OF q] that by fastforce
qed

lemma is_queue_insert_before:
  assumes q: "is_queue hp h (xs @ p # ys)" and x: "x \<noteq> nullptr" "x \<notin> set (h # xs @ p # ys)"
  obtains hp' where "queue_insert_before hp p x = Some hp'" "is_queue hp' h (xs @ x # p # ys)"
proof -
  have qp: "is_queue hp p (ys @ h # xs)" using q is_queue_rotate by blast
  then obtain hp' where 1: "queue_insert_tail hp p x = Some hp'" "is_queue hp' p ((ys @ h # xs) @ [x])"
    using is_queue_insert_tail[of hp p "ys @ h # xs" x] x by auto
  have "queue_insert_before hp p x = queue_insert_tail hp p x"
    using ring_mem(2)[OF qp] x by (intro insert_before_as_tail) auto
  with 1 show thesis
    using that is_queue_rotate[of hp' h "xs @ [x]" p ys] by auto
qed

lemma queue_remove_eff:
  assumes "p \<noteq> nullptr" "x \<noteq> nullptr" "n \<noteq> nullptr" "next (hp p) = x" "prev (hp x) = p"
    "next (hp x) = n" "prev (hp n) = x" "x \<noteq> p" "x \<noteq> n"
  obtains hp' where "queue_remove hp x = Some hp'"
    "\<And>a. next (hp' a) = (if a = x then nullptr else if a = p then n else next (hp a))"
    "\<And>a. prev (hp' a) = (if a = x then nullptr else if a = n then p else prev (hp a))"
    "\<And>a. a \<notin> {p, x, n} \<Longrightarrow> hp' a = hp a"
proof -
  have "\<exists>hp'. queue_remove hp x = Some hp' \<and>
    (\<forall>a. next (hp' a) = (if a = x then nullptr else if a = p then n else next (hp a))) \<and>
    (\<forall>a. prev (hp' a) = (if a = x then nullptr else if a = n then p else prev (hp a))) \<and>
    (\<forall>a. a \<notin> {p, x, n} \<longrightarrow> hp' a = hp a)"
    using assms by (simp add: queue_remove_def q_access)
  with that show thesis by blast
qed

lemma is_queue_remove_head:
  assumes q: "is_queue hp h (x # xs)"
  obtains hp' where "queue_remove hp x = Some hp'" "is_queue hp' h xs"
     "hp' x = \<lparr>prev = nullptr, next = nullptr\<rparr>"
     "\<And>a. a \<notin> set (h # x # xs) \<Longrightarrow> hp' a = hp a"
proof -
  note D = is_queueD[OF q]
  have qx: "is_queue hp x (xs @ [h])" using q is_queue_rotate[of hp h "[]" x xs] by simp
  note X = is_queueD[OF qx] and R = ring_mem[OF qx]
  define n where "n = next (hp x)"
  have nin: "n \<in> set (xs @ [h])" using X(5) by (cases xs) (auto simp: n_def)
  have nx: "n \<noteq> x" "n \<noteq> nullptr" using nin X(2) R(3) by (auto simp: n_def)
  obtain hp' where 1: "queue_remove hp x = Some hp'"
    and n: "\<And>a. next (hp' a) = (if a = x then nullptr else if a = h then n else next (hp a))"
    and p: "\<And>a. prev (hp' a) = (if a = x then nullptr else if a = n then h else prev (hp a))"
    and f: "\<And>a. a \<notin> {h, x, n} \<Longrightarrow> hp' a = hp a"
  proof (rule queue_remove_eff)
    show "h \<noteq> nullptr" "x \<noteq> nullptr" by (rule D X)+
    show "next (hp h) = x" "prev (hp x) = h" using D(5,7) by simp_all
    show "next (hp x) = n" "prev (hp n) = x" using X(7) by (simp_all add: n_def)
    show "x \<noteq> h" using D(2) by auto
  qed (use nx in blast)+
  have "links hp' (xs @ [h]) \<longleftrightarrow> links hp (xs @ [h])"
  proof (rule links_frame)
    fix a assume "a \<in> set (butlast (xs @ [h]))"
    then show "next (hp' a) = next (hp a)" using D(2,3) by (auto simp: n)
  next
    fix a assume a: "a \<in> set (tl (xs @ [h]))"
    then have "a \<noteq> n" "a \<noteq> x" using X(2,3,5) by (cases xs; auto simp: n_def)+
    then show "prev (hp' a) = prev (hp a)" by (simp add: p)
  qed
  moreover have "links hp (xs @ [h])" using q by (cases xs) (auto simp: is_queue_def)
  ultimately have "links hp' (h # xs @ [h])"
    using X(5) D nx by (cases xs) (auto simp: links_Cons n p n_def)
  then have "is_queue hp' h xs" using D by (auto simp: is_queue_def)
  moreover have "hp' x = \<lparr>prev = nullptr, next = nullptr\<rparr>"
    using n[of x] p[of x] by (simp add: queue_s.equality)
  moreover have "hp' a = hp a" if "a \<notin> set (h # x # xs)" for a
    using f[of a] nin that by auto
  ultimately show thesis using 1 that by blast
qed

lemma is_queue_remove:
  assumes q: "is_queue hp h (xs @ x # ys)"
  obtains hp' where "queue_remove hp x = Some hp'" "is_queue hp' h (xs @ ys)"
     "hp' x = \<lparr>prev = nullptr, next = nullptr\<rparr>"
     "\<And>a. a \<notin> set (h # xs @ x # ys) \<Longrightarrow> hp' a = hp a"
proof (cases xs rule: rev_cases)
  case Nil
  with q show thesis using is_queue_remove_head[of hp h x ys] that by auto
next
  case (snoc ws p)
  with q have "is_queue hp p (x # ys @ h # ws)"
    using is_queue_rotate[of hp h ws p "x # ys"] by simp
  then obtain hp' where "queue_remove hp x = Some hp'" "is_queue hp' p (ys @ h # ws)"
     "hp' x = \<lparr>prev = nullptr, next = nullptr\<rparr>"
     "\<And>a. a \<notin> set (p # x # ys @ h # ws) \<Longrightarrow> hp' a = hp a"
    using is_queue_remove_head by blast
  with snoc show thesis
    using is_queue_rotate[of hp' h ws p ys] that[of hp'] by auto
qed

lemma links_snoc: "links hp (h # xs @ [b]) \<longleftrightarrow>
    links hp (h # xs) \<and> next (hp (last (h # xs))) = b \<and> prev (hp b) = last (h # xs)"
  by (induction xs arbitrary: h) auto

lemma is_queue_snoc: "is_queue hp h xs \<longleftrightarrow> distinct (h # xs) \<and> nullptr \<notin> set (h # xs) \<and>
    links hp (h # xs) \<and> next (hp (last (h # xs))) = h \<and> prev (hp h) = last (h # xs)"
  by (simp only: is_queue_def links_snoc)

lemma links_frame_Cons:
  assumes "\<And>a. a \<in> set (h # xs) \<Longrightarrow> a \<noteq> last (h # xs) \<Longrightarrow> next (hp' a) = next (hp a)"
    and "\<And>a. a \<in> set xs \<Longrightarrow> prev (hp' a) = prev (hp a)" and "distinct (h # xs)"
  shows "links hp' (h # xs) \<longleftrightarrow> links hp (h # xs)"
proof (rule links_frame)
  fix a assume a: "a \<in> set (butlast (h # xs))"
  have "h # xs = butlast (h # xs) @ [last (h # xs)]"
    by (rule append_butlast_last_id[symmetric]) simp
  with assms(3) have "last (h # xs) \<notin> set (butlast (h # xs))"
    by (metis distinct_append distinct.simps(2) disjoint_iff list.set_intros(1))
  with a show "next (hp' a) = next (hp a)" by (metis assms(1) in_set_butlastD)
qed (use assms(2) in simp)

lemma is_queue_split:
  assumes q: "is_queue hp h (xs @ q # ys)" and n: "n \<noteq> nullptr" "n \<notin> set (h # xs @ q # ys)"
  obtains hp' where "queue_split hp h q n = Some hp'" "is_queue hp' h xs" "is_queue hp' n (q # ys)"
proof -
  define m where "m = last (h # xs)"
  define l where "l = last (q # ys)"
  have L: "links hp (h # xs)" "next (hp m) = q" "prev (hp q) = m"
    "links hp (q # ys)" "next (hp l) = h" "prev (hp h) = l"
    using q links_append[of hp "h # xs" q "ys @ [h]"]
    by (auto simp: is_queue_def links_snoc m_def l_def)
  have d: "distinct (h # xs @ q # ys)" "nullptr \<notin> set (h # xs @ q # ys)"
    using q by (auto simp: is_queue_def)
  have mem: "m \<in> set (h # xs)" "l \<in> set (q # ys)" unfolding m_def l_def by (rule last_in_set, simp)+
  have nn: "m \<noteq> nullptr" "l \<noteq> nullptr" "h \<noteq> nullptr" "q \<noteq> nullptr"
    using mem d by (auto simp del: neq0_conv)
  have ne: "n \<noteq> m" "n \<noteq> l" "n \<noteq> h" "n \<noteq> q" "m \<noteq> l" "h \<noteq> q" "m \<noteq> q" "h \<noteq> l"
    using mem d n by auto
  have "\<exists>hp'. queue_split hp h q n = Some hp' \<and>
    (\<forall>a. next (hp' a) = (if a = l then n else if a = m then h else if a = n then q else next (hp a))) \<and>
    (\<forall>a. prev (hp' a) = (if a = n then l else if a = h then m else if a = q then n else prev (hp a)))"
    using nn ne n(1) L(2,3,5,6)
    by (cases "m = h"; cases "l = q") (simp_all add: queue_split_def q_access)
  then obtain hp' where 1: "queue_split hp h q n = Some hp'"
    and nx: "\<And>a. next (hp' a) = (if a = l then n else if a = m then h else if a = n then q else next (hp a))"
    and pv: "\<And>a. prev (hp' a) = (if a = n then l else if a = h then m else if a = q then n else prev (hp a))"
    by blast
  have "links hp' (h # xs) \<longleftrightarrow> links hp (h # xs)"
    using d n mem by (intro links_frame_Cons) (auto simp: nx pv m_def)
  then have "is_queue hp' h xs"
    using L d ne by (simp add: is_queue_snoc nx pv m_def[symmetric] del: last.simps)
  moreover have "links hp' (q # ys) \<longleftrightarrow> links hp (q # ys)"
    using d n mem by (intro links_frame_Cons) (auto simp: nx pv l_def)
  then have "is_queue hp' n (q # ys)"
    using L d n ne by (simp add: is_queue_snoc nx pv l_def[symmetric] links_Cons last_ConsR del: last.simps)
  ultimately show thesis using 1 that by blast
qed

lemma is_queue_add_queue:
  assumes q: "is_queue hp h xs" and n: "is_queue hp n ys" and ys: "ys \<noteq> []"
    and dj: "set (h # xs) \<inter> set (n # ys) = {}"
  obtains hp' where "queue_add_queue hp h n = Some hp'" "is_queue hp' h (xs @ ys)"
proof -
  define m where "m = last (h # xs)"
  define l where "l = last ys"
  obtain y zs where y: "ys = y # zs" using ys by (cases ys) auto
  have L: "links hp (h # xs)" "next (hp m) = h" "prev (hp h) = m"
    "links hp (y # zs)" "next (hp n) = y" "prev (hp y) = n" "next (hp l) = n" "prev (hp n) = l"
    using q n by (auto simp: is_queue_snoc m_def l_def y)
  have d: "distinct (h # xs @ n # y # zs)" "nullptr \<notin> set (h # xs @ n # y # zs)"
    using q n dj by (auto simp: is_queue_def y)
  have mem: "m \<in> set (h # xs)" "l \<in> set (y # zs)" unfolding m_def l_def y by (rule last_in_set, simp)+
  have nn: "m \<noteq> nullptr" "l \<noteq> nullptr" "h \<noteq> nullptr" "y \<noteq> nullptr" "n \<noteq> nullptr"
    using mem d by (auto simp del: neq0_conv)
  have ne: "n \<noteq> m" "n \<noteq> l" "n \<noteq> h" "n \<noteq> y" "m \<noteq> l" "m \<noteq> y" "h \<noteq> l" "h \<noteq> y"
    using mem d by auto
  have "\<exists>hp'. queue_add_queue hp h n = Some hp' \<and>
    (\<forall>a. next (hp' a) = (if a = m then y else if a = l then h else next (hp a))) \<and>
    (\<forall>a. prev (hp' a) = (if a = y then m else if a = h then l else prev (hp a)))"
    using nn ne L by (cases "h = m"; simp add: queue_add_queue_def q_access)
  then obtain hp' where 1: "queue_add_queue hp h n = Some hp'"
    and nx: "\<And>a. next (hp' a) = (if a = m then y else if a = l then h else next (hp a))"
    and pv: "\<And>a. prev (hp' a) = (if a = y then m else if a = h then l else prev (hp a))"
    by blast
  have "links hp' (h # xs) \<longleftrightarrow> links hp (h # xs)"
    using d mem by (intro links_frame_Cons) (auto simp: nx pv m_def)
  moreover have "links hp' (y # zs) \<longleftrightarrow> links hp (y # zs)"
    using d mem by (intro links_frame_Cons) (auto simp: nx pv l_def y)
  ultimately have "links hp' (h # (xs @ ys) @ [h])"
    using L ne links_append[of hp' "h # xs" y "zs @ [h]"]
    by (simp add: y links_snoc nx pv m_def[symmetric] l_def[unfolded y, symmetric] del: last.simps)
  then have "is_queue hp' h (xs @ ys)" using d by (auto simp: is_queue_def y)
  with 1 that show thesis by blast
qed

lemma links_nth:
  "links hp xs \<Longrightarrow> Suc i < length xs \<Longrightarrow> next (hp (xs ! i)) = xs ! Suc i \<and> prev (hp (xs ! Suc i)) = xs ! i"
proof (induction hp xs arbitrary: i rule: links.induct)
  case (1 hp a b xs)
  then show ?case by (cases i) auto
qed auto

lemma is_queue_next_nth:
  assumes "is_queue hp h xs" "Suc i < length xs"
  shows "next (hp (xs ! i)) = xs ! Suc i" "xs ! i \<noteq> nullptr"
proof -
  have "links hp (h # xs @ [h])" using assms by (simp add: is_queue_def)
  from links_nth[OF this, of "Suc i"] assms(2) show "next (hp (xs ! i)) = xs ! Suc i"
    by (simp add: nth_append)
  show "xs ! i \<noteq> nullptr" using is_queueD(4)[OF assms(1)] assms(2) by (metis Suc_lessD nth_mem)
qed

lemma queue_middle_loop_nth:
  assumes q: "is_queue hp h xs"
  shows "Suc (2 * i) < length xs \<Longrightarrow>
    queue_middle_loop hp h (xs ! i) (xs ! (2 * i)) = Some (xs ! (length xs div 2))"
proof (induction "length xs - 2 * i" arbitrary: i rule: less_induct)
  case less
  note D = is_queueD[OF q]
  have ne: "xs \<noteq> []" using less.prems by auto
  have tl: "prev (hp h) = xs ! (length xs - 1)" using D(6) ne by (simp add: last_conv_nth)
  have n1: "next (hp (xs ! i)) = xs ! Suc i" "xs ! i \<noteq> nullptr"
    using is_queue_next_nth[OF q, of i] less.prems by auto
  have n2: "next (hp (xs ! (2 * i))) = xs ! Suc (2 * i)" "xs ! (2 * i) \<noteq> nullptr"
    using is_queue_next_nth[OF q, of "2 * i"] less.prems by auto
  show ?case
  proof (cases "Suc (2 * i) = length xs - 1")
    case True
    then have "length xs div 2 = Suc i" using less.prems by arith
    with True D(1) tl n1 n2 show ?thesis
      by (subst queue_middle_loop.simps) (simp add: queue_next_def queue_tail_def q_access)
  next
    case False
    then have lt: "Suc (Suc (2 * i)) < length xs" using less.prems by arith
    have n3: "next (hp (xs ! Suc (2 * i))) = xs ! Suc (Suc (2 * i))" "xs ! Suc (2 * i) \<noteq> nullptr"
      using is_queue_next_nth[OF q, of "Suc (2 * i)"] lt by auto
    have ne1: "xs ! Suc (2 * i) \<noteq> xs ! (length xs - 1)"
      using D(3) False lt by (simp add: nth_eq_iff_index_eq)
    have ne2: "xs ! Suc (Suc (2 * i)) = xs ! (length xs - 1) \<longleftrightarrow> Suc (Suc (2 * i)) = length xs - 1"
      using D(3) lt by (simp add: nth_eq_iff_index_eq)
    have rec: "queue_middle_loop hp h (xs ! Suc i) (xs ! Suc (Suc (2 * i))) = Some (xs ! (length xs div 2))"
      if "Suc (Suc (2 * i)) \<noteq> length xs - 1"
      using less.hyps[of "Suc i"] lt that by simp
    have m: "length xs div 2 = Suc i" if "Suc (Suc (2 * i)) = length xs - 1" using that lt by arith
    show ?thesis using D(1) tl n1 n2 n3 ne1 ne2 rec m
      by (subst queue_middle_loop.simps) (simp add: queue_next_def queue_tail_def q_access)
  qed
qed

lemma is_queue_middle:
  assumes q: "is_queue hp h xs" and ne: "xs \<noteq> []"
  shows "queue_middle hp h = Some (xs ! (length xs div 2))"
proof -
  note D = is_queueD[OF q]
  have hd: "next (hp h) = xs ! 0" using D(5) ne by (cases xs) auto
  have tl: "prev (hp h) = xs ! (length xs - 1)" using D(6) ne by (simp add: last_conv_nth)
  show ?thesis
  proof (cases "length xs = 1")
    case True
    then show ?thesis using D(1) hd tl by (simp add: queue_middle_def queue_head_def queue_tail_def q_access)
  next
    case False
    then have "Suc (2 * 0) < length xs" using ne by (cases xs; cases "tl xs") auto
    moreover from this have "xs ! 0 \<noteq> xs ! (length xs - 1)"
      using nth_eq_iff_index_eq[OF D(3), of 0 "length xs - 1"] ne by force
    ultimately show ?thesis using D(1) hd tl queue_middle_loop_nth[OF q, of 0]
      by (simp add: queue_middle_def queue_head_def queue_tail_def q_access)
  qed
qed

section \<open>Sorting\<close>

text \<open>
  The list-level reference of the insertion sort: the sorted prefix is kept in reverse, and
  \<open>ins_back\<close> walks it from its end, as the \<^verbatim>\<open>do \<dots> while\<close> loop does.
\<close>

definition ins_back :: "(addr \<Rightarrow> addr \<Rightarrow> int) \<Rightarrow> addr list \<Rightarrow> addr \<Rightarrow> addr list" where
  "ins_back cmp ps q = takeWhile (\<lambda>p. cmp p q > 0) ps @ q # dropWhile (\<lambda>p. cmp p q > 0) ps"

definition queue_sort_list :: "(addr \<Rightarrow> addr \<Rightarrow> int) \<Rightarrow> addr list \<Rightarrow> addr list" where
  "queue_sort_list cmp xs = rev (foldl (ins_back cmp) [] xs)"

lemma is_queue_prev:
  assumes "is_queue hp h (xs @ x # ys)"
  shows "prev (hp x) = last (h # xs)" "next (hp x) = hd (ys @ [h])" "x \<noteq> nullptr"
proof -
  have q: "is_queue hp x (ys @ h # xs)" using assms is_queue_rotate by blast
  show "prev (hp x) = last (h # xs)" "next (hp x) = hd (ys @ [h])" "x \<noteq> nullptr"
    using is_queueD(1,5,6)[OF q] by (auto simp: hd_append)
qed

lemma queue_sort_back_eq:
  assumes q: "is_queue hp h (rev ps @ ys)" and ne: "ps \<noteq> []"
  shows "queue_sort_back cmp hp h (hd ps) x = Some (hd (dropWhile (\<lambda>p. cmp p x > 0) ps @ [h]))"
  using assms
proof (induction ps arbitrary: ys)
  case (Cons p ps)
  have q: "is_queue hp h (rev ps @ p # ys)" using Cons.prems by simp
  note P = is_queue_prev[OF q] and D = is_queueD[OF q]
  show ?case
  proof (cases "ps = []")
    case True
    then show ?thesis using P
      by (subst queue_sort_back.simps) (simp add: queue_prev_def q_access)
  next
    case False
    then have "last (h # rev ps) = hd ps" "hd ps \<noteq> h" using D(2) by (auto simp: last_rev)
    then show ?thesis using P Cons.IH[OF q False]
      by (subst queue_sort_back.simps) (simp add: queue_prev_def q_access)
  qed
qed simp

lemma queue_sort_loop_correct:
  assumes "is_queue hp h (rev ps @ ys)" and "ps \<noteq> []"
  shows "\<exists>hp'. queue_sort_loop cmp hp h (hd (ys @ [h])) = Some hp' \<and>
    is_queue hp' h (rev (foldl (ins_back cmp) ps ys)) \<and>
    (\<forall>a. a \<notin> set (h # ps @ ys) \<longrightarrow> hp' a = hp a)"
  using assms
proof (induction ys arbitrary: ps hp)
  case Nil
  then show ?case by (subst queue_sort_loop.simps) simp
next
  case (Cons q ys)
  let ?A = "takeWhile (\<lambda>p. cmp p q > 0) ps" and ?B = "dropWhile (\<lambda>p. cmp p q > 0) ps"
  have ps: "rev ps = rev ?B @ rev ?A" by (simp flip: rev_append)
  note P = is_queue_prev[OF Cons.prems(1)] and D = is_queueD[OF Cons.prems(1)]
  have prv: "prev (hp q) = hd ps" using P(1) Cons.prems(2) by (simp add: last_rev)
  obtain hp1 where r: "queue_remove hp q = Some hp1" "is_queue hp1 h (rev ps @ ys)"
     "\<And>a. a \<notin> set (h # rev ps @ q # ys) \<Longrightarrow> hp1 a = hp a"
    using is_queue_remove[OF Cons.prems(1)] by metis
  have b: "queue_sort_back cmp hp1 h (hd ps) q = Some (hd (?B @ [h]))"
    using r(2) Cons.prems(2) by (rule queue_sort_back_eq)
  have fresh: "q \<notin> set (h # rev ps @ ys)" using D by auto
  have "\<exists>hp2. queue_insert_head hp1 (hd (?B @ [h])) q = Some hp2 \<and>
      is_queue hp2 h (rev (ins_back cmp ps q) @ ys) \<and> (\<forall>a. a \<notin> set (h # rev ps @ q # ys) \<longrightarrow> hp2 a = hp1 a)"
  proof (cases ?B)
    case Nil
    then obtain hp2 where "queue_insert_head hp1 h q = Some hp2" "is_queue hp2 h (q # rev ps @ ys)"
       "\<And>a. a \<notin> set (h # q # rev ps @ ys) \<Longrightarrow> hp2 a = hp1 a"
      using is_queue_insert_head[OF r(2) P(3) fresh] by metis
    moreover have "?A = ps" using Nil by (metis append_Nil2 takeWhile_dropWhile_id)
    then have "rev (ins_back cmp ps q) = q # rev ps" unfolding ins_back_def Nil by simp
    ultimately show ?thesis unfolding Nil by auto
  next
    case (Cons p B)
    then have "rev ps @ ys = rev B @ p # (rev ?A @ ys)" using ps by simp
    then obtain hp2 where "queue_insert_head hp1 p q = Some hp2"
        "is_queue hp2 h (rev B @ p # q # rev ?A @ ys)"
       "\<And>a. a \<notin> set (h # rev B @ p # q # rev ?A @ ys) \<Longrightarrow> hp2 a = hp1 a"
      using is_queue_insert_at[of hp1 h "rev B" p "rev ?A @ ys" q] r(2) P(3) fresh by metis
    moreover have "set (h # rev B @ p # q # rev ?A @ ys) = set (h # rev ps @ q # ys)"
      using \<open>rev ps @ ys = rev B @ p # (rev ?A @ ys)\<close>
      by (metis (no_types, lifting) insert_commute list.simps(15) set_append Un_insert_right Un_insert_left)
    ultimately show ?thesis using Cons by (auto simp: ins_back_def)
  qed
  then obtain hp2 where i: "queue_insert_head hp1 (hd (?B @ [h])) q = Some hp2"
      "is_queue hp2 h (rev (ins_back cmp ps q) @ ys)"
      "\<And>a. a \<notin> set (h # rev ps @ q # ys) \<Longrightarrow> hp2 a = hp1 a" by blast
  have "ins_back cmp ps q \<noteq> []" by (simp add: ins_back_def)
  from Cons.IH[OF i(2) this] obtain hp' where
     rec: "queue_sort_loop cmp hp2 h (hd (ys @ [h])) = Some hp'"
      "is_queue hp' h (rev (foldl (ins_back cmp) (ins_back cmp ps q) ys))"
      "\<And>a. a \<notin> set (h # ins_back cmp ps q @ ys) \<Longrightarrow> hp' a = hp2 a" by blast
  have "set (ins_back cmp ps q) = insert q (set ps)"
    by (simp add: ins_back_def) (metis set_append takeWhile_dropWhile_id)
  then have f: "\<forall>a. a \<notin> set (h # ps @ q # ys) \<longrightarrow> hp' a = hp a" using rec(3) i(3) r(3) by auto
  have "q \<noteq> h" using D by auto
  then have "queue_sort_loop cmp hp h (hd ((q # ys) @ [h])) = Some hp'"
    using P prv r(1) b i(1) rec(1)
    by (subst queue_sort_loop.simps) (simp add: queue_prev_def queue_next_def q_access)
  with rec(2) f show ?case by auto
qed

lemma is_queue_sort:
  assumes q: "is_queue hp h xs"
  obtains hp' where "queue_sort cmp hp h = Some hp'" "is_queue hp' h (queue_sort_list cmp xs)"
    "\<And>a. a \<notin> set (h # xs) \<Longrightarrow> hp' a = hp a"
proof -
  note D = is_queueD[OF q]
  consider "xs = []" | x where "xs = [x]" | x y ys where "xs = x # y # ys"
    by (cases xs; cases "tl xs") auto
  then show thesis
  proof cases
    case 1
    then have "queue_sort cmp hp h = Some hp" using D
      by (simp add: queue_sort_def queue_head_def queue_tail_def q_access)
    with 1 q that show thesis by (simp add: queue_sort_list_def)
  next
    case 2
    then have "queue_sort cmp hp h = Some hp" using D
      by (simp add: queue_sort_def queue_head_def queue_tail_def q_access)
    with 2 q that show thesis by (simp add: queue_sort_list_def ins_back_def)
  next
    case (3 x y ys)
    with q have "is_queue hp h (rev [x] @ y # ys)" by simp
    from queue_sort_loop_correct[OF this, of cmp] obtain hp' where
      l: "queue_sort_loop cmp hp h y = Some hp'" "is_queue hp' h (rev (foldl (ins_back cmp) [x] (y # ys)))"
      "\<And>a. a \<notin> set (h # xs) \<Longrightarrow> hp' a = hp a"
      using 3 by auto
    have "next (hp x) = y" "x \<noteq> nullptr" using is_queue_next_nth[OF q, of 0] 3 by auto
    then have "queue_sort cmp hp h = Some hp'"
      using l(1) D 3 by (auto simp: queue_sort_def queue_head_def queue_tail_def queue_next_def q_access)
    moreover have "queue_sort_list cmp xs = rev (foldl (ins_back cmp) [x] (y # ys))"
      by (simp add: 3 queue_sort_list_def ins_back_def)
    ultimately show thesis using l that by simp
  qed
qed

lemma mset_ins_back: "mset (ins_back cmp ps q) = add_mset q (mset ps)"
  by (simp add: ins_back_def) (metis mset_append takeWhile_dropWhile_id)

lemma mset_sort_fold: "mset (foldl (ins_back cmp) ps xs) = mset ps + mset xs"
  by (induction xs arbitrary: ps) (auto simp: mset_ins_back)

lemma mset_queue_sort_list: "mset (queue_sort_list cmp xs) = mset xs"
  by (simp add: queue_sort_list_def mset_sort_fold)

lemma set_ins_back: "set (ins_back cmp ps q) = insert q (set ps)"
  by (metis mset_ins_back set_mset_add_mset_insert set_mset_mset)

text \<open>A comparison that behaves like a total preorder on the nodes in question.\<close>

definition cmp_order :: "(addr \<Rightarrow> addr \<Rightarrow> int) \<Rightarrow> addr set \<Rightarrow> bool" where
  "cmp_order cmp S \<longleftrightarrow> (\<forall>a\<in>S. \<forall>b\<in>S. cmp a b \<le> 0 \<or> cmp b a \<le> 0) \<and>
     (\<forall>a\<in>S. \<forall>b\<in>S. \<forall>c\<in>S. cmp a b \<le> 0 \<longrightarrow> cmp b c \<le> 0 \<longrightarrow> cmp a c \<le> 0)"

lemma cmp_total: "cmp_order cmp S \<Longrightarrow> a \<in> S \<Longrightarrow> b \<in> S \<Longrightarrow> cmp a b > 0 \<Longrightarrow> cmp b a \<le> 0"
  unfolding cmp_order_def by (meson linorder_not_less)

lemma cmp_trans:
  "cmp_order cmp S \<Longrightarrow> a \<in> S \<Longrightarrow> b \<in> S \<Longrightarrow> c \<in> S \<Longrightarrow> cmp a b \<le> 0 \<Longrightarrow> cmp b c \<le> 0 \<Longrightarrow> cmp a c \<le> 0"
  unfolding cmp_order_def by meson

lemma ins_back_simps [simp]:
  "ins_back cmp [] q = [q]"
  "ins_back cmp (p # ps) q = (if cmp p q > 0 then p # ins_back cmp ps q else q # p # ps)"
  by (simp_all add: ins_back_def)

lemma sorted_ins_back:
  assumes o: "cmp_order cmp S" and s: "sorted_wrt (\<lambda>a b. cmp b a \<le> 0) ps"
    and sub: "set ps \<subseteq> S" "q \<in> S"
  shows "sorted_wrt (\<lambda>a b. cmp b a \<le> 0) (ins_back cmp ps q)"
  using s sub
proof (induction ps)
  case (Cons p ps)
  then have "p \<in> S" by simp
  show ?case
  proof (cases "cmp p q > 0")
    case True
    then have "cmp q p \<le> 0" using cmp_total[OF o \<open>p \<in> S\<close> \<open>q \<in> S\<close>] by simp
    with True Cons show ?thesis by (simp add: set_ins_back)
  next
    case False
    then have "cmp r q \<le> 0" if "r \<in> set ps" for r
      using cmp_trans[OF o _ \<open>p \<in> S\<close> \<open>q \<in> S\<close>] Cons.prems that by auto
    with False Cons.prems show ?thesis by simp
  qed
qed simp

lemma sorted_sort_fold:
  assumes "cmp_order cmp S" "sorted_wrt (\<lambda>a b. cmp b a \<le> 0) ps" "set ps \<union> set xs \<subseteq> S"
  shows "sorted_wrt (\<lambda>a b. cmp b a \<le> 0) (foldl (ins_back cmp) ps xs)"
  using assms(2,3)
  by (induction xs arbitrary: ps) (auto simp: set_ins_back sorted_ins_back[OF assms(1)])

lemma filter_ins_back:
  assumes o: "cmp_order cmp S" and sub: "set ps \<subseteq> S" "q \<in> S" "k \<in> S"
  shows "filter (\<lambda>a. cmp a k \<le> 0 \<and> cmp k a \<le> 0) (ins_back cmp ps q) =
         filter (\<lambda>a. cmp a k \<le> 0 \<and> cmp k a \<le> 0) (q # ps)" (is "filter ?P _ = _")
proof -
  let ?A = "takeWhile (\<lambda>p. cmp p q > 0) ps"
  have "filter ?P ?A = []" if "?P q"
  proof -
    have "\<not> ?P a" if a: "a \<in> set ?A" for a
    proof
      assume "?P a"
      moreover have "a \<in> S" "cmp a q > 0" using a sub(1) set_takeWhileD[OF a] by auto
      ultimately show False using cmp_trans[OF o _ sub(3) sub(2), of a] \<open>?P q\<close> by auto
    qed
    then show ?thesis by (simp add: filter_empty_conv)
  qed
  then have "filter ?P (ins_back cmp ps q) = filter ?P [q] @ filter ?P ?A @ filter ?P (dropWhile (\<lambda>p. cmp p q > 0) ps)"
    by (auto simp: ins_back_def)
  moreover have "filter ?P ?A @ filter ?P (dropWhile (\<lambda>p. cmp p q > 0) ps) = filter ?P ps"
    by (metis filter_append takeWhile_dropWhile_id)
  ultimately show ?thesis by simp
qed

lemma filter_sort_fold:
  assumes o: "cmp_order cmp S" and "set ps \<union> set xs \<subseteq> S" "k \<in> S"
  shows "filter (\<lambda>a. cmp a k \<le> 0 \<and> cmp k a \<le> 0) (foldl (ins_back cmp) ps xs) =
         filter (\<lambda>a. cmp a k \<le> 0 \<and> cmp k a \<le> 0) (rev xs @ ps)"
  using assms(2,3)
  by (induction xs arbitrary: ps) (simp_all add: set_ins_back filter_ins_back[OF o])

lemma queue_sort_list_sorted:
  assumes "cmp_order cmp (set xs)"
  shows "sorted_wrt (\<lambda>a b. cmp a b \<le> 0) (queue_sort_list cmp xs)"
  using sorted_sort_fold[OF assms, of "[]" xs] by (simp add: queue_sort_list_def sorted_wrt_rev)

lemma queue_sort_list_stable:
  assumes "cmp_order cmp (set xs)" "k \<in> set xs"
  shows "filter (\<lambda>a. cmp a k \<le> 0 \<and> cmp k a \<le> 0) (queue_sort_list cmp xs) =
         filter (\<lambda>a. cmp a k \<le> 0 \<and> cmp k a \<le> 0) xs"
  using filter_sort_fold[OF assms(1), of "[]" xs k] assms(2)
  by (simp add: queue_sort_list_def flip: rev_filter)

section \<open>The queue interface\<close>

text \<open>
  What the clients of the queue (task queues, connections, posted events) rely on. The
  laws speak of the abstraction only; every operation also leaves the other queues of the
  heap alone.
\<close>

locale queue_ops =
  fixes repr :: "'h \<Rightarrow> addr \<Rightarrow> addr list \<Rightarrow> bool"
    and init :: "'h \<Rightarrow> addr \<Rightarrow> 'h option"
    and isempty :: "'h \<Rightarrow> addr \<Rightarrow> bool option"
    and first :: "'h \<Rightarrow> addr \<Rightarrow> addr option"
    and final :: "'h \<Rightarrow> addr \<Rightarrow> addr option"
    and ins_head :: "'h \<Rightarrow> addr \<Rightarrow> addr \<Rightarrow> 'h option"
    and ins_tail :: "'h \<Rightarrow> addr \<Rightarrow> addr \<Rightarrow> 'h option"
    and remove :: "'h \<Rightarrow> addr \<Rightarrow> 'h option"
  assumes repr_wf: "repr hp h xs \<Longrightarrow> distinct (h # xs) \<and> nullptr \<notin> set (h # xs)"
    and init: "h \<noteq> nullptr \<Longrightarrow> \<exists>hp'. init hp h = Some hp' \<and> repr hp' h [] \<and>
      (\<forall>g ys. repr hp g ys \<longrightarrow> h \<notin> set (g # ys) \<longrightarrow> repr hp' g ys)"
    and isempty: "repr hp h xs \<Longrightarrow> isempty hp h = Some (xs = [])"
    and first: "repr hp h xs \<Longrightarrow> first hp h = Some (hd (xs @ [h]))"
    and final: "repr hp h xs \<Longrightarrow> final hp h = Some (last (h # xs))"
    and ins_head: "repr hp h xs \<Longrightarrow> x \<noteq> nullptr \<Longrightarrow> x \<notin> set (h # xs) \<Longrightarrow>
      \<exists>hp'. ins_head hp h x = Some hp' \<and> repr hp' h (x # xs) \<and>
      (\<forall>g ys. repr hp g ys \<longrightarrow> set (g # ys) \<inter> set (h # x # xs) = {} \<longrightarrow> repr hp' g ys)"
    and ins_tail: "repr hp h xs \<Longrightarrow> x \<noteq> nullptr \<Longrightarrow> x \<notin> set (h # xs) \<Longrightarrow>
      \<exists>hp'. ins_tail hp h x = Some hp' \<and> repr hp' h (xs @ [x]) \<and>
      (\<forall>g ys. repr hp g ys \<longrightarrow> set (g # ys) \<inter> set (h # x # xs) = {} \<longrightarrow> repr hp' g ys)"
    and remove: "repr hp h (xs @ x # ys) \<Longrightarrow>
      \<exists>hp'. remove hp x = Some hp' \<and> repr hp' h (xs @ ys) \<and>
      (\<forall>g zs. repr hp g zs \<longrightarrow> set (g # zs) \<inter> set (h # xs @ x # ys) = {} \<longrightarrow> repr hp' g zs)"
begin

text \<open>Taking the first element off the queue.\<close>

definition take_first :: "'h \<Rightarrow> addr \<Rightarrow> (addr \<times> 'h) option" where
  "take_first hp h = do { x \<leftarrow> first hp h; hp \<leftarrow> remove hp x; Some (x, hp) }"

definition take_final :: "'h \<Rightarrow> addr \<Rightarrow> (addr \<times> 'h) option" where
  "take_final hp h = do { x \<leftarrow> final hp h; hp \<leftarrow> remove hp x; Some (x, hp) }"

lemma take_first_Cons:
  assumes "repr hp h (x # xs)"
  shows "\<exists>hp'. take_first hp h = Some (x, hp') \<and> repr hp' h xs \<and>
    (\<forall>g zs. repr hp g zs \<longrightarrow> set (g # zs) \<inter> set (h # x # xs) = {} \<longrightarrow> repr hp' g zs)"
  using remove[of hp h "[]" x xs] first[OF assms] assms by (auto simp: take_first_def)

lemma take_final_snoc:
  assumes "repr hp h (xs @ [x])"
  shows "\<exists>hp'. take_final hp h = Some (x, hp') \<and> repr hp' h xs \<and>
    (\<forall>g zs. repr hp g zs \<longrightarrow> set (g # zs) \<inter> set (h # xs @ [x]) = {} \<longrightarrow> repr hp' g zs)"
  using remove[of hp h xs x "[]"] final[OF assms] assms by (auto simp: take_final_def)

text \<open>Inserting a sequence of nodes at the head, one after the other, reverses it.\<close>

fun ins_all_head :: "'h \<Rightarrow> addr \<Rightarrow> addr list \<Rightarrow> 'h option" where
  "ins_all_head hp h [] = Some hp"
| "ins_all_head hp h (x # xs) = do { hp \<leftarrow> ins_head hp h x; ins_all_head hp h xs }"

lemma ins_all_head_repr:
  assumes "repr hp h ys" "distinct xs" "nullptr \<notin> set xs" "set xs \<inter> set (h # ys) = {}"
  shows "\<exists>hp'. ins_all_head hp h xs = Some hp' \<and> repr hp' h (rev xs @ ys)"
  using assms
proof (induction xs arbitrary: hp ys)
  case (Cons x xs)
  have "x \<noteq> nullptr" "x \<notin> set (h # ys)" using Cons.prems by (auto simp del: neq0_conv)
  from ins_head[OF Cons.prems(1) this] obtain hp1 where
    1: "ins_head hp h x = Some hp1" "repr hp1 h (x # ys)" by blast
  from Cons.IH[OF 1(2)] Cons.prems 1(1) show ?case by auto
qed simp

end

lemma is_queue_frame:
  assumes "is_queue hp g ys" "\<And>a. a \<in> set (g # ys) \<Longrightarrow> hp' a = hp a"
  shows "is_queue hp' g ys"
proof -
  have "links hp' (g # ys @ [g]) \<longleftrightarrow> links hp (g # ys @ [g])"
    using assms(2) by (intro links_frame) (auto dest!: in_set_butlastD)
  with assms(1) show ?thesis by (simp add: is_queue_def)
qed

lemma is_queue_others:
  assumes "\<And>p. p \<notin> S \<Longrightarrow> hp' p = hp p" "is_queue hp g ys" "set (g # ys) \<inter> S = {}"
  shows "is_queue hp' g ys"
  using assms by (intro is_queue_frame[OF assms(2)]) blast

interpretation q: queue_ops is_queue queue_init queue_empty queue_head queue_tail
  queue_insert_head queue_insert_tail queue_remove
proof
  fix hp h xs assume "is_queue hp h xs"
  then show "distinct (h # xs) \<and> nullptr \<notin> set (h # xs)" by (simp add: is_queue_def)
next
  fix h :: addr and hp assume "h \<noteq> nullptr"
  then show "\<exists>hp'. queue_init hp h = Some hp' \<and> is_queue hp' h [] \<and>
      (\<forall>g ys. is_queue hp g ys \<longrightarrow> h \<notin> set (g # ys) \<longrightarrow> is_queue hp' g ys)"
    by (auto simp: queue_init_def q_access is_queue_Nil intro: is_queue_frame)
next
  fix hp h xs assume q: "is_queue hp h xs"
  show "queue_empty hp h = Some (xs = [])"
    using is_queueD(1,2,6)[OF q] by (auto simp: queue_empty_def q_access)
  show "queue_head hp h = Some (hd (xs @ [h]))" "queue_tail hp h = Some (last (h # xs))"
    using is_queueD(1,5,6)[OF q] by (simp_all add: queue_head_def queue_tail_def q_access)
next
  fix hp h xs x assume "is_queue hp h xs" "x \<noteq> nullptr" "x \<notin> set (h # xs)"
  then show "\<exists>hp'. queue_insert_head hp h x = Some hp' \<and> is_queue hp' h (x # xs) \<and>
      (\<forall>g ys. is_queue hp g ys \<longrightarrow> set (g # ys) \<inter> set (h # x # xs) = {} \<longrightarrow> is_queue hp' g ys)"
    by (rule is_queue_insert_head) (blast intro: is_queue_others)
next
  fix hp h xs x assume "is_queue hp h xs" "x \<noteq> nullptr" "x \<notin> set (h # xs)"
  then show "\<exists>hp'. queue_insert_tail hp h x = Some hp' \<and> is_queue hp' h (xs @ [x]) \<and>
      (\<forall>g ys. is_queue hp g ys \<longrightarrow> set (g # ys) \<inter> set (h # x # xs) = {} \<longrightarrow> is_queue hp' g ys)"
    by (rule is_queue_insert_tail) (blast intro: is_queue_others)
next
  fix hp h xs x ys assume "is_queue hp h (xs @ x # ys)"
  then show "\<exists>hp'. queue_remove hp x = Some hp' \<and> is_queue hp' h (xs @ ys) \<and>
      (\<forall>g zs. is_queue hp g zs \<longrightarrow> set (g # zs) \<inter> set (h # xs @ x # ys) = {} \<longrightarrow> is_queue hp' g zs)"
    by (rule is_queue_remove) (blast intro: is_queue_others)
qed

section \<open>Properties\<close>

text \<open>C20: \<^verbatim>\<open>queue_sort\<close> terminates on every ring without an invalid access, and for a comparison
  that is a total preorder it leaves a ring of the same nodes, ordered, with nodes that compare
  equal in their old order; no node outside of the ring is touched.\<close>

theorem queue_sort_correct:
  assumes "is_queue hp h xs" "cmp_order cmp (set xs)"
  shows "\<exists>hp' ys. queue_sort cmp hp h = Some hp' \<and> is_queue hp' h ys \<and> mset ys = mset xs \<and>
    sorted_wrt (\<lambda>a b. cmp a b \<le> 0) ys \<and>
    (\<forall>k\<in>set xs. filter (\<lambda>a. cmp a k \<le> 0 \<and> cmp k a \<le> 0) ys = filter (\<lambda>a. cmp a k \<le> 0 \<and> cmp k a \<le> 0) xs) \<and>
    (\<forall>a. a \<notin> set (h # xs) \<longrightarrow> hp' a = hp a)"
proof -
  obtain hp' where "queue_sort cmp hp h = Some hp'" "is_queue hp' h (queue_sort_list cmp xs)"
    "\<And>a. a \<notin> set (h # xs) \<Longrightarrow> hp' a = hp a"
    using is_queue_sort[OF assms(1)] by blast
  then show ?thesis
    using mset_queue_sort_list queue_sort_list_sorted[OF assms(2)] queue_sort_list_stable[OF assms(2)]
    by blast
qed

definition ex_ring :: qheap where
  "ex_ring = (\<lambda>a. \<lparr>prev = 0, next = 0\<rparr>)(1 := \<lparr>prev = 4, next = 2\<rparr>, 2 := \<lparr>prev = 1, next = 3\<rparr>,
     3 := \<lparr>prev = 2, next = 4\<rparr>, 4 := \<lparr>prev = 3, next = 1\<rparr>)"

lemma is_queue_ex_ring: "is_queue ex_ring 1 [2, 3, 4]"
  by (simp add: is_queue_def ex_ring_def)

theorem queue_sort_correct_witness:
  "\<exists>hp' ys. queue_sort (\<lambda>a b. int b - int a) ex_ring 1 = Some hp' \<and> is_queue hp' 1 ys \<and>
    mset ys = {#2, 3, 4#} \<and> sorted_wrt (\<lambda>a b. int b - int a \<le> 0) ys"
proof -
  have "cmp_order (\<lambda>a b. int b - int a) (set [2, 3, 4])" by (auto simp: cmp_order_def)
  from queue_sort_correct[OF is_queue_ex_ring this] show ?thesis by auto
qed

text \<open>the two-pointer walk of \<^verbatim>\<open>queue_middle\<close> ends, and finds the node in the middle of the
  ring (the first of the second half when the length is even).\<close>

theorem queue_middle_correct:
  assumes "is_queue hp h xs" "xs \<noteq> []"
  shows "queue_middle hp h = Some (xs ! (length xs div 2))"
  using is_queue_middle[OF assms] .

theorem queue_middle_correct_witness: "queue_middle ex_ring 1 = Some 3"
  using queue_middle_correct[OF is_queue_ex_ring] by simp

text \<open>\<^verbatim>\<open>queue_split\<close> cuts a ring at a node into two rings, and \<^verbatim>\<open>queue_add_queue\<close> undoes it.\<close>

theorem queue_split_add_roundtrip:
  assumes "is_queue hp h (xs @ q # ys)" "n \<noteq> nullptr" "n \<notin> set (h # xs @ q # ys)"
  shows "\<exists>hp1 hp2. queue_split hp h q n = Some hp1 \<and> is_queue hp1 h xs \<and> is_queue hp1 n (q # ys) \<and>
    queue_add_queue hp1 h n = Some hp2 \<and> is_queue hp2 h (xs @ q # ys)"
proof -
  obtain hp1 where 1: "queue_split hp h q n = Some hp1" "is_queue hp1 h xs" "is_queue hp1 n (q # ys)"
    using is_queue_split[OF assms] by blast
  have "set (h # xs) \<inter> set (n # q # ys) = {}"
    using is_queueD(2,3)[OF assms(1)] assms(3) by auto
  from is_queue_add_queue[OF 1(2,3) _ this] 1 show ?thesis by blast
qed

theorem queue_split_add_roundtrip_witness:
  "\<exists>hp1 hp2. queue_split ex_ring 1 3 5 = Some hp1 \<and> is_queue hp1 1 [2] \<and> is_queue hp1 5 [3, 4] \<and>
    queue_add_queue hp1 1 5 = Some hp2 \<and> is_queue hp2 1 [2, 3, 4]"
  using queue_split_add_roundtrip[of ex_ring 1 "[2]" 3 "[4]" 5] is_queue_ex_ring by simp

end
