(* ===== verification/Dfs_Task.thy ===== *)
theory Dfs_Task
  imports Dfs_Prelude
begin

text \<open>
  The input and output buffers (\<^verbatim>\<open>src/src/core/dfs_buffer.h\<close>, \<^verbatim>\<open>dfs_buffer.cpp\<close>), the
  task record (\<^verbatim>\<open>src/src/common/dfs_task.h\<close>, \<^verbatim>\<open>dfs_task.cpp\<close>) and its wire codec
  (\<^verbatim>\<open>dfs_task_codec.cpp\<close>). A buffer is its byte object with the two offsets \<open>pos\<close> and
  \<open>last\<close>; the codec copies the object representation of \<open>task_t\<close> under the x86-64 ABI.
\<close>

unbundle bit_operations_syntax

section \<open>Buffers\<close>

text \<open>
  The object from \<^verbatim>\<open>start\<close> to \<^verbatim>\<open>end\<close> is \<open>b_mem\<close>; the pointers \<^verbatim>\<open>pos\<close> and \<^verbatim>\<open>last\<close> are
  offsets from \<^verbatim>\<open>start\<close>.
\<close>

record buffer_t =
  b_mem :: "u8 list"
  b_pos :: nat
  b_last :: nat
  b_file_pos :: int
  b_file_last :: int
  b_temporary :: bool
  b_memory :: bool
  b_in_file :: bool

abbreviation b_end :: "buffer_t \<Rightarrow> nat" where
  "b_end b \<equiv> length (b_mem b)"

definition buffer_size :: "buffer_t \<Rightarrow> int" where
  "buffer_size b = (if b_memory b then int (b_last b) - int (b_pos b) else b_file_last b - b_file_pos b)"

definition buffer_free_size :: "buffer_t \<Rightarrow> int" where
  "buffer_free_size b = int (b_end b) - int (b_last b)"

definition buffer_full :: "buffer_t \<Rightarrow> bool" where
  "buffer_full b \<longleftrightarrow> b_end b = b_pos b"

definition buffer_reset :: "buffer_t \<Rightarrow> buffer_t" where
  "buffer_reset b = b\<lparr>b_pos := 0, b_last := 0\<rparr>"

definition buffer_pull :: "buffer_t \<Rightarrow> nat \<Rightarrow> buffer_t" where
  "buffer_pull b s = b\<lparr>b_pos := b_pos b + s\<rparr>"

definition buffer_used :: "buffer_t \<Rightarrow> nat \<Rightarrow> buffer_t" where
  "buffer_used b s = b\<lparr>b_last := b_last b + s\<rparr>"

text \<open>
  \<^verbatim>\<open>buffer_create\<close> with its two allocations as parameters: the header with the arbitrary
  contents the allocator left in it, and the body. The result \<^term>\<open>None\<close> is the returned null
  pointer.
\<close>

definition buffer_create :: "bool \<Rightarrow> buffer_t option \<Rightarrow> (nat \<Rightarrow> u8 list option) \<Rightarrow> nat \<Rightarrow> buffer_t option" where
  "buffer_create pool hdr alloc sz =
     (if sz = 0 then None
      else do {
        b \<leftarrow> hdr;
        start \<leftarrow> alloc sz;
        Some (b\<lparr>b_mem := start, b_temporary := pool, b_pos := 0, b_last := 0,
          b_memory := True, b_in_file := False\<rparr>) })"

text \<open>
  \<^verbatim>\<open>buffer_shrink\<close>: the size goes through an \<^verbatim>\<open>int\<close>; a negative one becomes a huge
  \<^verbatim>\<open>size_t\<close> in \<^verbatim>\<open>memmove\<close>, which is undefined.
\<close>

definition buffer_shrink :: "buffer_t \<Rightarrow> buffer_t option" where
  "buffer_shrink buf =
     (if b_pos buf = 0 then Some buf
      else (let blen = to_int32 (buffer_size buf) in
        if blen = 0 then Some (buffer_reset buf)
        else if blen < 0 then None
        else do {
          d \<leftarrow> rdn (b_mem buf) (b_pos buf) (nat blen);
          m \<leftarrow> wrn (b_mem buf) 0 d;
          Some (buf\<lparr>b_mem := m, b_pos := 0, b_last := nat blen\<rparr>) }))"

text \<open>The well-formed buffers and the bytes that wait between \<open>pos\<close> and \<open>last\<close>.\<close>

definition buffer_wf :: "buffer_t \<Rightarrow> bool" where
  "buffer_wf b \<longleftrightarrow> b_memory b \<and> b_pos b \<le> b_last b \<and> b_last b \<le> b_end b \<and> b_end b < 2 ^ 31"

definition buffer_data :: "buffer_t \<Rightarrow> u8 list" where
  "buffer_data b = take (b_last b - b_pos b) (drop (b_pos b) (b_mem b))"

lemma length_buffer_data [simp]:
  "buffer_wf b \<Longrightarrow> length (buffer_data b) = b_last b - b_pos b"
  by (auto simp: buffer_wf_def buffer_data_def)

lemma buffer_size_wf: "buffer_wf b \<Longrightarrow> buffer_size b = int (length (buffer_data b))"
  by (auto simp: buffer_size_def buffer_wf_def buffer_data_def)

lemma buffer_shrink_wf:
  assumes "buffer_wf b"
  obtains b' where "buffer_shrink b = Some b'" "buffer_wf b'" "b_pos b' = 0"
    "buffer_data b' = buffer_data b" "b_end b' = b_end b"
proof (cases "b_pos b = 0")
  case True
  with that assms show thesis by (simp add: buffer_shrink_def)
next
  case False
  let ?n = "b_last b - b_pos b"
  have "buffer_size b = int ?n" using assms by (auto simp: buffer_size_def buffer_wf_def)
  then have sz: "to_int32 (buffer_size b) = int ?n" using assms by (auto simp: buffer_wf_def intro!: to_int32_id)
  show thesis
  proof (cases "?n = 0")
    case True
    then have "buffer_shrink b = Some (buffer_reset b)" using False sz by (simp add: buffer_shrink_def)
    with True assms that show thesis
      by (simp add: buffer_reset_def buffer_wf_def buffer_data_def)
  next
    case n: False
    define d where "d = take ?n (drop (b_pos b) (b_mem b))"
    define b' where "b' = b\<lparr>b_mem := d @ drop ?n (b_mem b), b_pos := 0, b_last := ?n\<rparr>"
    have len: "length d = ?n" using assms by (auto simp: d_def buffer_wf_def)
    have "buffer_shrink b = Some b'"
      using False n assms len
      by (auto simp: buffer_shrink_def Let_def sz buffer_wf_def b'_def d_def)
    moreover have "buffer_wf b'" "b_pos b' = 0" "buffer_data b' = buffer_data b" "b_end b' = b_end b"
      using assms len by (auto simp: b'_def buffer_wf_def buffer_data_def d_def)
    ultimately show thesis by (rule that)
  qed
qed

section \<open>Little-endian words\<close>

definition le16 :: "16 word \<Rightarrow> u8 list" where
  "le16 w = [ucast w, ucast (drop_bit 8 w)]"

definition le32 :: "32 word \<Rightarrow> u8 list" where
  "le32 w = [ucast w, ucast (drop_bit 8 w), ucast (drop_bit 16 w), ucast (drop_bit 24 w)]"

definition le64 :: "64 word \<Rightarrow> u8 list" where
  "le64 w = le32 (ucast w) @ le32 (ucast (drop_bit 32 w))"

definition de16 :: "u8 list \<Rightarrow> 16 word" where
  "de16 bs = ucast (bs ! 0) OR push_bit 8 (ucast (bs ! 1))"

definition de32 :: "u8 list \<Rightarrow> 32 word" where
  "de32 bs = ucast (bs ! 0) OR push_bit 8 (ucast (bs ! 1)) OR
     push_bit 16 (ucast (bs ! 2)) OR push_bit 24 (ucast (bs ! 3))"

definition de64 :: "u8 list \<Rightarrow> 64 word" where
  "de64 bs = ucast (de32 (take 4 bs)) OR push_bit 32 (ucast (de32 (drop 4 bs)))"

lemma length_le [simp]: "length (le16 h) = 2" "length (le32 w) = 4" "length (le64 d) = 8"
  by (simp_all add: le16_def le32_def le64_def)

lemma de16_le16 [simp]: "de16 (le16 w) = w"
  by (rule bit_word_eqI) (auto simp: de16_def le16_def bit_simps)

lemma de32_le32 [simp]: "de32 (le32 w) = w"
proof (rule bit_word_eqI)
  fix n assume "n < LENGTH(32)"
  then consider "n < 8" | "8 \<le> n" "n < 16" | "16 \<le> n" "n < 24" | "24 \<le> n" "n < 32"
    by force
  then show "bit (de32 (le32 w)) n \<longleftrightarrow> bit w n"
    by cases (auto simp: de32_def le32_def bit_simps)
qed

lemma de64_le64 [simp]: "de64 (le64 w) = w"
  by (rule bit_word_eqI) (auto simp: de64_def le64_def bit_simps)

section \<open>Tasks\<close>

definition TASK_ERROR :: int where "TASK_ERROR = -1"
definition TASK_EAGIN :: int where "TASK_EAGIN = -2"
definition TASK_OK :: int where "TASK_OK = 0"

declare TASK_ERROR_def [ngx_codes] TASK_EAGIN_def [ngx_codes] TASK_OK_def [ngx_codes]

text \<open>
  \<^verbatim>\<open>struct task_s\<close>. The field \<open>t_pad\<close> holds the ten padding bytes of the object (four after
  \<open>seq\<close>, two after \<open>permission\<close>, four after \<open>data_len\<close>), which \<^verbatim>\<open>memcpy\<close> transports as well.
\<close>

record task_t =
  t_cmd :: u32
  t_ret :: u32
  t_seq :: u32
  t_opq :: u64
  t_master_nodeid :: u32
  t_key :: "u8 list"
  t_user :: "u8 list"
  t_group :: "u8 list"
  t_permission :: u16
  t_data_len :: u32
  t_data :: u64
  t_pad :: "u8 list"

definition KEY_LEN :: nat where "KEY_LEN = 256"
definition OWNER_LEN :: nat where "OWNER_LEN = 16"
definition GROUP_LEN :: nat where "GROUP_LEN = 16"
definition sizeof_task :: nat where "sizeof_task = 336"

definition task_wf :: "task_t \<Rightarrow> bool" where
  "task_wf t \<longleftrightarrow> length (t_key t) = KEY_LEN \<and> length (t_user t) = OWNER_LEN \<and>
     length (t_group t) = GROUP_LEN \<and> length (t_pad t) = 10"

lemmas task_lens = KEY_LEN_def OWNER_LEN_def GROUP_LEN_def sizeof_task_def task_wf_def

text \<open>The object representation: offsets 0, 4, 8, 16, 24, 28, 284, 300, 316, 320, 328; size 336.\<close>

definition task_repr :: "task_t \<Rightarrow> u8 list" where
  "task_repr t = le32 (t_cmd t) @ le32 (t_ret t) @ le32 (t_seq t) @ take 4 (t_pad t) @
     le64 (t_opq t) @ le32 (t_master_nodeid t) @ t_key t @ t_user t @ t_group t @
     le16 (t_permission t) @ take 2 (drop 4 (t_pad t)) @ le32 (t_data_len t) @
     drop 6 (t_pad t) @ le64 (t_data t)"

definition task_of_repr :: "u8 list \<Rightarrow> task_t" where
  "task_of_repr bs = \<lparr>t_cmd = de32 (take 4 bs), t_ret = de32 (take 4 (drop 4 bs)),
     t_seq = de32 (take 4 (drop 8 bs)), t_opq = de64 (take 8 (drop 16 bs)),
     t_master_nodeid = de32 (take 4 (drop 24 bs)), t_key = take KEY_LEN (drop 28 bs),
     t_user = take OWNER_LEN (drop 284 bs), t_group = take GROUP_LEN (drop 300 bs),
     t_permission = de16 (take 2 (drop 316 bs)), t_data_len = de32 (take 4 (drop 320 bs)),
     t_data = de64 (take 8 (drop 328 bs)),
     t_pad = take 4 (drop 12 bs) @ take 2 (drop 318 bs) @ take 4 (drop 324 bs)\<rparr>"

lemma length_task_repr [simp]: "task_wf t \<Longrightarrow> length (task_repr t) = sizeof_task"
  by (simp add: task_repr_def task_lens)

lemma pad_split: "take 4 p @ take 2 (drop 4 p) @ drop 6 p = p"
proof -
  have "drop 6 p = drop 2 (drop 4 p)" by simp
  then show ?thesis by (simp only: append_take_drop_id)
qed

lemma task_of_repr_repr [simp]: "task_wf t \<Longrightarrow> task_of_repr (task_repr t) = t"
  by (cases t) (simp add: task_of_repr_def task_repr_def task_lens pad_split)

definition task_zero :: task_t where
  "task_zero = task_of_repr (replicate sizeof_task 0)"

definition task_new :: "bool \<Rightarrow> task_t option" where
  "task_new malloc_ok = (if malloc_ok then Some task_zero else None)"

definition task_clear :: "task_t \<Rightarrow> task_t" where
  "task_clear t = task_zero"

lemma task_wf_zero [simp]: "task_wf task_zero"
  by (simp add: task_zero_def task_of_repr_def task_lens)

section \<open>The wire format\<close>

text \<open>
  \<^verbatim>\<open>task_encode2str\<close>: \<open>mem p\<close> are the bytes from the address \<open>p\<close> to the end of the object there;
  \<open>buff\<close> and \<open>off\<close> are the target object and the offset of the pointer into it.
\<close>

definition task_encode2str ::
    "(u64 \<Rightarrow> u8 list option) \<Rightarrow> task_t \<Rightarrow> u8 list \<Rightarrow> nat \<Rightarrow> int \<Rightarrow> (int \<times> u8 list) option" where
  "task_encode2str mem task buff off len = do {
     need_size \<leftarrow> chk_int32 (4 + int sizeof_task + 4 + sint (t_data_len task));
     if len < need_size then Some (TASK_EAGIN, buff)
     else do {
       buff1 \<leftarrow> wrn buff off (le32 (word_of_int need_size));
       buff2 \<leftarrow> wrn buff1 (off + 4) (task_repr task);
       buff3 \<leftarrow> wrn buff2 (off + 4 + sizeof_task) (le32 (t_data_len task));
       if 0 < sint (t_data_len task) then do {
         obj \<leftarrow> mem (t_data task);
         d \<leftarrow> rdn obj 0 (nat (sint (t_data_len task)));
         buff4 \<leftarrow> wrn buff3 (off + 8 + sizeof_task) d;
         Some (need_size, buff4) }
       else Some (need_size, buff3) } }"

text \<open>\<open>base\<close> is the address of the object \<open>buff\<close>.\<close>

definition task_decodefstr ::
    "u64 \<Rightarrow> u8 list \<Rightarrow> nat \<Rightarrow> int \<Rightarrow> task_t \<Rightarrow> (int \<times> task_t) option" where
  "task_decodefstr base buff off len task = do {
     h \<leftarrow> rdn buff off 4;
     let need_size = sint (de32 h) in
     if len < need_size then Some (TASK_EAGIN, task)
     else do {
       r \<leftarrow> rdn buff (off + 4) sizeof_task;
       dl \<leftarrow> rdn buff (off + 4 + sizeof_task) 4;
       let t = task_of_repr r;
           t' = (if 0 < sint (de32 dl) then t\<lparr>t_data := base + of_nat (off + 8 + sizeof_task)\<rparr> else t) in
       Some (need_size, t'\<lparr>t_opq := t_opq task\<rparr>) } }"

definition task_decode :: "u64 \<Rightarrow> buffer_t \<Rightarrow> task_t \<Rightarrow> (int \<times> buffer_t \<times> task_t) option" where
  "task_decode base buff task =
     (if buffer_size buff \<le> 0 then Some (NGX_AGAIN, buff, task)
      else do {
        (ret, task') \<leftarrow> task_decodefstr base (b_mem buff) (b_pos buff) (to_int32 (buffer_size buff)) task;
        if ret \<le> 0 then Some (ret, buff, task')
        else Some (NGX_OK, buffer_pull buff (nat ret), task') })"

definition task_encode :: "(u64 \<Rightarrow> u8 list option) \<Rightarrow> task_t \<Rightarrow> buffer_t \<Rightarrow> (int \<times> buffer_t) option" where
  "task_encode mem task buff =
     (if buffer_free_size buff \<le> 0 then Some (NGX_AGAIN, buff)
      else do {
        (ret, m) \<leftarrow> task_encode2str mem task (b_mem buff) (b_last buff) (to_int32 (buffer_free_size buff));
        if ret \<le> 0 then Some (ret, buff\<lparr>b_mem := m\<rparr>)
        else Some (NGX_OK, buffer_used (buff\<lparr>b_mem := m\<rparr>) (nat ret)) })"

text \<open>
  The frame that stands for a task with its payload on the wire, and the task the receiver
  reconstructs: the payload pointer leads into the input buffer, the receiver's own \<open>opq\<close> is kept.
\<close>

definition frame :: "task_t \<Rightarrow> u8 list \<Rightarrow> u8 list" where
  "frame t payload = le32 (word_of_int (344 + sint (t_data_len t))) @ task_repr t @
     le32 (t_data_len t) @ payload"

definition received :: "u64 \<Rightarrow> u64 \<Rightarrow> task_t \<Rightarrow> task_t" where
  "received opq p t = (if 0 < sint (t_data_len t) then t\<lparr>t_data := p, t_opq := opq\<rparr> else t\<lparr>t_opq := opq\<rparr>)"

definition framable :: "task_t \<Rightarrow> u8 list \<Rightarrow> bool" where
  "framable t payload \<longleftrightarrow> task_wf t \<and> 0 \<le> sint (t_data_len t) \<and> sint (t_data_len t) < 2 ^ 31 - 344 \<and>
     int (length payload) = sint (t_data_len t)"

lemma length_frame [simp]: "framable t pl \<Longrightarrow> length (frame t pl) = 344 + length pl"
  by (auto simp: frame_def framable_def task_lens)

lemma sint_need:
  assumes "framable t pl"
  shows "sint (344 + t_data_len t) = 344 + int (length pl)"
proof -
  have "sint (344 + t_data_len t) = to_int32 (344 + sint (t_data_len t))"
    by (simp add: to_int32_def)
  also have "\<dots> = 344 + int (length pl)"
    using assms by (subst to_int32_id) (auto simp: framable_def)
  finally show ?thesis .
qed

lemma rdn_append [simp]: "length ys = n \<Longrightarrow> length xs = i \<Longrightarrow> rdn (xs @ ys @ zs) i n = Some ys"
  by (auto simp: rdn_def)

lemma wrn_append [simp]:
  "length ys' = length ys \<Longrightarrow> length xs = i \<Longrightarrow> wrn (xs @ ys @ zs) i ys' = Some (xs @ ys' @ zs)"
  by (auto simp: wrn_def)

lemma task_decodefstr_frame:
  assumes f: "framable t pl" and len: "344 + int (length pl) \<le> len"
  shows "task_decodefstr base (xs @ frame t pl @ zs) (length xs) len t0 =
    Some (344 + int (length pl), received (t_opq t0) (base + of_nat (length xs + 344)) t)"
proof -
  let ?h = "le32 (word_of_int (344 + sint (t_data_len t)))"
  have wf: "task_wf t" and L: "length (task_repr t) = 336"
    using f by (auto simp: framable_def task_lens)
  have 1: "rdn (xs @ frame t pl @ zs) (length xs) 4 = Some ?h"
    using rdn_append[of ?h 4 xs "length xs" "task_repr t @ le32 (t_data_len t) @ pl @ zs"]
    by (simp add: frame_def)
  have 2: "rdn (xs @ frame t pl @ zs) (length xs + 4) sizeof_task = Some (task_repr t)"
    using rdn_append[of "task_repr t" 336 "xs @ ?h" "length xs + 4" "le32 (t_data_len t) @ pl @ zs"] L
    by (simp add: frame_def sizeof_task_def)
  have 3: "rdn (xs @ frame t pl @ zs) (length xs + 4 + sizeof_task) 4 = Some (le32 (t_data_len t))"
    using rdn_append[of "le32 (t_data_len t)" 4 "xs @ ?h @ task_repr t" "length xs + 340" "pl @ zs"] L
    by (simp add: frame_def sizeof_task_def)
  show ?thesis
    using len wf unfolding task_decodefstr_def 1 2 3
    by (simp add: sint_need[OF f] received_def sizeof_task_def Let_def)
qed

lemma buffer_split:
  assumes "buffer_wf b"
  shows "b_mem b = take (b_pos b) (b_mem b) @ buffer_data b @ drop (b_last b) (b_mem b)"
proof -
  have "drop (b_last b) (b_mem b) = drop (b_last b - b_pos b) (drop (b_pos b) (b_mem b))"
    using assms by (simp add: buffer_wf_def)
  then show ?thesis by (simp only: buffer_data_def append_take_drop_id)
qed

lemma buffer_data_pull:
  "buffer_data b = xs @ ys \<Longrightarrow> buffer_wf b \<Longrightarrow> buffer_data (buffer_pull b (length xs)) = ys"
proof -
  assume d: "buffer_data b = xs @ ys" and wf: "buffer_wf b"
  have "buffer_data (buffer_pull b (length xs)) = drop (length xs) (buffer_data b)"
    by (simp add: buffer_data_def buffer_pull_def drop_take add.commute)
  then show ?thesis by (simp add: d)
qed

lemma buffer_wf_pull: "buffer_wf b \<Longrightarrow> n \<le> length (buffer_data b) \<Longrightarrow> buffer_wf (buffer_pull b n)"
  by (auto simp: buffer_wf_def buffer_pull_def buffer_data_def)

lemma task_decode_frame:
  assumes wf: "buffer_wf b" and f: "framable t pl" and d: "buffer_data b = frame t pl @ rest"
  shows "task_decode base b t0 = Some (NGX_OK, buffer_pull b (344 + length pl),
    received (t_opq t0) (base + of_nat (b_pos b + 344)) t)"
proof -
  let ?xs = "take (b_pos b) (b_mem b)" and ?zs = "rest @ drop (b_last b) (b_mem b)"
  have mem: "b_mem b = ?xs @ frame t pl @ ?zs" using buffer_split[OF wf] d by simp
  have lx: "length ?xs = b_pos b" using wf by (auto simp: buffer_wf_def)
  have sz: "buffer_size b = 344 + int (length pl) + int (length rest)"
    using f by (simp add: buffer_size_wf[OF wf] d del: length_buffer_data)
  have i32: "to_int32 (buffer_size b) = buffer_size b"
    using wf buffer_size_wf[OF wf] by (auto simp: buffer_wf_def)
  have "task_decodefstr base (b_mem b) (b_pos b) (buffer_size b) t0 =
      Some (344 + int (length pl), received (t_opq t0) (base + of_nat (b_pos b + 344)) t)"
    using task_decodefstr_frame[OF f, of "buffer_size b" base ?xs ?zs t0] sz
    by (simp only: mem[symmetric] lx)
  moreover have "\<not> buffer_size b \<le> 0" using sz by linarith
  ultimately show ?thesis by (simp add: task_decode_def i32 nat_add_distrib)
qed

lemma task_decode_partial:
  assumes wf: "buffer_wf b" and f: "framable t pl" and d: "frame t pl = buffer_data b @ miss"
    and miss: "miss \<noteq> []" and four: "4 \<le> length (buffer_data b) \<or> buffer_data b = []"
  shows "task_decode base b t0 = Some (NGX_AGAIN, b, t0)"
proof (cases "buffer_data b = []")
  case True
  then show ?thesis using buffer_size_wf[OF wf] by (simp add: task_decode_def)
next
  case False
  let ?h = "le32 (word_of_int (344 + sint (t_data_len t)))"
  have four: "4 \<le> length (buffer_data b)" using four False by blast
  have "take 4 (buffer_data b) = take 4 (frame t pl)" using d four by simp
  then have hd: "take 4 (buffer_data b) = ?h" by (simp add: frame_def)
  have "rdn (b_mem b) (b_pos b) 4 = Some (take 4 (drop (b_pos b) (b_mem b)))"
    using wf four by (auto simp: buffer_wf_def buffer_data_def)
  then have 1: "rdn (b_mem b) (b_pos b) 4 = Some ?h"
    using hd four by (simp add: buffer_data_def take_take min_absorb1)
  have "length (buffer_data b) < 344 + length pl"
    using f arg_cong[OF d, of length] miss by (simp del: length_buffer_data)
  moreover have "to_int32 (buffer_size b) = int (length (buffer_data b))"
    using wf buffer_size_wf[OF wf] by (auto simp: buffer_wf_def)
  ultimately show ?thesis
    using False by (simp add: task_decode_def task_decodefstr_def 1 sint_need[OF f] buffer_size_wf[OF wf] Let_def
        TASK_EAGIN_def NGX_AGAIN_def del: length_buffer_data)
qed

lemma buffer_free_wf: "buffer_wf b \<Longrightarrow> to_int32 (buffer_free_size b) = int (b_end b - b_last b)"
  by (auto simp: buffer_wf_def buffer_free_size_def of_nat_diff intro!: to_int32_id)

lemma task_encode2str_fits:
  assumes f: "framable t pl" and room: "344 + length pl \<le> length ys" "344 + int (length pl) \<le> len"
    and obj: "0 < length pl \<Longrightarrow> mem (t_data t) = Some (pl @ more')"
  shows "task_encode2str mem t (xs @ ys) (length xs) len =
    Some (344 + int (length pl), xs @ frame t pl @ drop (344 + length pl) ys)"
proof -
  let ?h = "le32 (344 + t_data_len t)"
  obtain y1 y2 y3 y4 y5 where ys: "ys = y1 @ y2 @ y3 @ y4 @ y5"
    and l: "length y1 = 4" "length y2 = 336" "length y3 = 4" "length y4 = length pl"
    and y5: "y5 = drop (344 + length pl) ys"
  proof
    show "ys = take 4 ys @ take 336 (drop 4 ys) @ take 4 (drop 340 ys) @
        take (length pl) (drop 344 ys) @ drop (344 + length pl) ys"
      using append_take_drop_id[of 4 ys] append_take_drop_id[of 336 "drop 4 ys"]
        append_take_drop_id[of 4 "drop 340 ys"] append_take_drop_id[of "length pl" "drop 344 ys"]
      by (simp add: add.commute)
  qed (use room in auto)
  have L: "length (task_repr t) = 336" using f by (auto simp: framable_def task_lens)
  have dl: "sint (t_data_len t) = int (length pl)" and "length pl < 2 ^ 31 - 344"
    using f by (auto simp: framable_def)
  then have need: "chk_int32 (4 + int sizeof_task + 4 + sint (t_data_len t)) = Some (344 + int (length pl))"
    by (simp add: chk_int32_def sizeof_task_def)
  have h: "(word_of_nat (length pl) :: u32) = t_data_len t"
    using arg_cong[OF dl, of "word_of_int :: int \<Rightarrow> u32"] by simp
  have 1: "wrn (xs @ ys) (length xs) ?h = Some (xs @ ?h @ y2 @ y3 @ y4 @ y5)"
    using l by (simp add: ys)
  have 2: "wrn (xs @ ?h @ y2 @ y3 @ y4 @ y5) (length xs + 4) (task_repr t) =
      Some (xs @ ?h @ task_repr t @ y3 @ y4 @ y5)"
    using wrn_append[of "task_repr t" y2 "xs @ ?h" "length xs + 4" "y3 @ y4 @ y5"] l L by simp
  have 3: "wrn (xs @ ?h @ task_repr t @ y3 @ y4 @ y5) (length xs + 4 + sizeof_task) (le32 (t_data_len t)) =
      Some (xs @ ?h @ task_repr t @ le32 (t_data_len t) @ y4 @ y5)"
    using wrn_append[of "le32 (t_data_len t)" y3 "xs @ ?h @ task_repr t" "length xs + 340" "y4 @ y5"] l L
    by (simp add: sizeof_task_def)
  have 4: "wrn (xs @ ?h @ task_repr t @ le32 (t_data_len t) @ y4 @ y5) (length xs + 8 + sizeof_task) pl =
      Some (xs @ ?h @ task_repr t @ le32 (t_data_len t) @ pl @ y5)"
    using wrn_append[of pl y4 "xs @ ?h @ task_repr t @ le32 (t_data_len t)" "length xs + 344" y5] l L
    by (simp add: sizeof_task_def)
  show ?thesis
  proof (cases "pl = []")
    case True
    then have "t_data_len t = 0" using arg_cong[OF dl, of "word_of_int :: int \<Rightarrow> u32"] by simp
    then show ?thesis using room l True 1 2 3 y5 unfolding task_encode2str_def need
      by (simp add: frame_def)
  next
    case False
    then have "rdn (pl @ more') 0 (length pl) = Some pl" by (simp add: rdn_def)
    then show ?thesis using room False obj unfolding task_encode2str_def need
      by (simp add: h 1 2 3 4 dl frame_def y5[symmetric])
  qed
qed

text \<open>The bytes that the pointer \<open>t_data t\<close> must lead to: at least the payload.\<close>

definition has_payload :: "(u64 \<Rightarrow> u8 list option) \<Rightarrow> task_t \<Rightarrow> u8 list \<Rightarrow> bool" where
  "has_payload mem t pl \<longleftrightarrow> pl = [] \<or> (case mem (t_data t) of None \<Rightarrow> False | Some obj \<Rightarrow> take (length pl) obj = pl)"

lemma has_payloadD: "has_payload mem t pl \<Longrightarrow> 0 < length pl \<Longrightarrow> \<exists>r. mem (t_data t) = Some (pl @ r)"
  unfolding has_payload_def by (auto split: option.splits) (metis append_take_drop_id)

lemma task_encode_frame:
  assumes wf: "buffer_wf b" and f: "framable t pl" and mem: "has_payload mem t pl"
    and room: "344 + length pl \<le> b_end b - b_last b"
  obtains b' where "task_encode mem t b = Some (NGX_OK, b')" "buffer_wf b'"
    "buffer_data b' = buffer_data b @ frame t pl" "b_pos b' = b_pos b" "b_end b' = b_end b"
proof -
  let ?xs = "take (b_last b) (b_mem b)" and ?ys = "drop (b_last b) (b_mem b)"
  obtain r where obj: "0 < length pl \<Longrightarrow> mem (t_data t) = Some (pl @ r)"
    using has_payloadD[OF mem] by blast
  have le: "b_last b \<le> b_end b" "b_pos b \<le> b_last b" using wf by (auto simp: buffer_wf_def)
  define m where "m = ?xs @ frame t pl @ drop (344 + length pl) ?ys"
  define b' where "b' = b\<lparr>b_mem := m, b_last := b_last b + (344 + length pl)\<rparr>"
  have enc: "task_encode2str mem t (b_mem b) (b_last b) (int (b_end b - b_last b)) = Some (344 + int (length pl), m)"
    using task_encode2str_fits[OF f, of ?ys "int (b_end b - b_last b)" mem r ?xs] room le obj
    by (simp add: m_def)
  have "\<not> buffer_free_size b \<le> 0" using room by (simp add: buffer_free_size_def)
  then have "task_encode mem t b = Some (NGX_OK, b')"
    by (simp add: task_encode_def buffer_free_wf[OF wf] enc buffer_used_def b'_def nat_add_distrib)
  moreover have lm: "length m = b_end b" using room le f by (simp add: m_def)
  then have "buffer_wf b'" using wf room by (auto simp: buffer_wf_def b'_def)
  moreover have "buffer_data b' = buffer_data b @ frame t pl"
    using le f by (simp add: buffer_data_def b'_def m_def drop_take)
  ultimately show thesis using that lm by (simp add: b'_def)
qed

lemma task_encode_again:
  assumes wf: "buffer_wf b" and f: "framable t pl" and room: "b_end b - b_last b < 344 + length pl"
  shows "task_encode mem t b = Some (NGX_AGAIN, b)"
proof -
  have "sint (t_data_len t) = int (length pl)" "length pl < 2 ^ 31 - 344"
    using f by (auto simp: framable_def)
  then show ?thesis
    using room by (simp add: task_encode_def task_encode2str_def buffer_free_wf[OF wf] chk_int32_def
        sizeof_task_def NGX_AGAIN_def TASK_EAGIN_def)
qed

section \<open>Properties\<close>

text \<open>C4: what \<^verbatim>\<open>task_encode\<close> appended to an empty buffer, \<^verbatim>\<open>task_decode\<close> reads back: every field of
  the task except the receiver's own \<open>opq\<close>, the payload bytes at the address that the decoded task
  points to, and nothing else is consumed.\<close>

theorem task_codec_roundtrip:
  assumes "buffer_wf b" "buffer_data b = []" "framable t pl" "has_payload mem t pl"
    "344 + length pl \<le> b_end b - b_last b"
  shows "\<exists>b' b''. task_encode mem t b = Some (NGX_OK, b') \<and>
    task_decode base b' t0 = Some (NGX_OK, b'', received (t_opq t0) (base + of_nat (b_pos b + 344)) t) \<and>
    take (length pl) (drop (b_pos b + 344) (b_mem b')) = pl \<and> buffer_data b'' = [] \<and> buffer_wf b''"
proof -
  obtain b' where enc: "task_encode mem t b = Some (NGX_OK, b')" and wf: "buffer_wf b'"
    and d: "buffer_data b' = frame t pl @ []" and pos: "b_pos b' = b_pos b"
    using task_encode_frame[of b t pl mem] assms by (metis append_Nil append_Nil2)
  have dec: "task_decode base b' t0 = Some (NGX_OK, buffer_pull b' (length (frame t pl)),
      received (t_opq t0) (base + of_nat (b_pos b + 344)) t)"
    using task_decode_frame[OF wf assms(3) d] assms(3) pos by simp
  have "b_mem b' = (take (b_pos b) (b_mem b') @ take 344 (frame t pl)) @ pl @ drop (b_last b') (b_mem b')"
    using buffer_split[OF wf] d pos assms(3) by (simp add: frame_def framable_def task_lens)
  moreover have "length (take (b_pos b) (b_mem b') @ take 344 (frame t pl)) = b_pos b + 344"
    using wf pos assms(3) by (auto simp: buffer_wf_def)
  ultimately have "take (length pl) (drop (b_pos b + 344) (b_mem b')) = pl"
    by (metis append_eq_conv_conj)
  moreover have "buffer_wf (buffer_pull b' (length (frame t pl)))"
    using buffer_wf_pull[OF wf] d by (simp del: length_buffer_data length_frame)
  ultimately show ?thesis using enc dec buffer_data_pull[OF d wf] by blast
qed

definition ex_buffer :: "u8 list \<Rightarrow> nat \<Rightarrow> buffer_t" where
  "ex_buffer m n = \<lparr>b_mem = m, b_pos = 0, b_last = n, b_file_pos = 0, b_file_last = 0,
     b_temporary = False, b_memory = True, b_in_file = False\<rparr>"

definition ex_task :: task_t where
  "ex_task = task_zero\<lparr>t_cmd := 1, t_seq := 7, t_data_len := 2, t_data := 4096\<rparr>"

lemma framable_ex_task: "framable ex_task [65, 66]"
proof -
  have "task_wf ex_task" using task_wf_zero by (simp add: ex_task_def task_wf_def)
  then show ?thesis by (simp add: framable_def ex_task_def)
qed

theorem task_codec_roundtrip_witness:
  "\<exists>b' b''. task_encode (\<lambda>p. if p = 4096 then Some [65, 66, 67] else None) ex_task (ex_buffer (replicate 400 0) 0) = Some (NGX_OK, b') \<and>
    task_decode 8192 b' task_zero = Some (NGX_OK, b'', received 0 8536 ex_task) \<and>
    take 2 (drop 344 (b_mem b')) = [65, 66] \<and> buffer_data b'' = [] \<and> buffer_wf b''"
proof -
  have "t_opq task_zero = 0" by (simp add: task_zero_def task_of_repr_def sizeof_task_def de64_def de32_def numeral_nat)
  moreover have "has_payload (\<lambda>p. if p = 4096 then Some [65, 66, 67] else None) ex_task [65, 66]"
    by (simp add: has_payload_def ex_task_def)
  ultimately show ?thesis
    using task_codec_roundtrip[OF _ _ framable_ex_task, of "ex_buffer (replicate 400 0) 0"
        "\<lambda>p. if p = 4096 then Some [65, 66, 67] else None" 8192 task_zero]
    by (simp add: ex_buffer_def buffer_wf_def buffer_data_def flip: numeral_2_eq_2)
qed

text \<open>A length word that is cut: with one to three pending bytes the decoder completes the word from the stale
  bytes behind \<open>last\<close>. If all four are zero, it takes the stale bytes for a task.\<close>

lemma task_decode_cut_length_word:
  assumes "buffer_wf b" "length (buffer_data b) \<in> {1, 2, 3}" "rdn (b_mem b) (b_pos b) 4 = Some [0, 0, 0, 0]"
    "b_pos b + 348 \<le> b_end b"
  shows "\<exists>t'. task_decode base b t0 = Some (NGX_OK, b, t')"
proof -
  have s: "0 < buffer_size b" "to_int32 (buffer_size b) = buffer_size b"
    using assms(1,2) by (auto simp: buffer_wf_def buffer_size_def)
  have "sint (de32 [0, 0, 0, 0]) = 0" by (simp add: de32_def)
  then show ?thesis using s assms(3,4)
    by (auto simp: task_decode_def task_decodefstr_def sizeof_task_def NGX_OK_def Let_def)
qed

text \<open>C21: an incomplete frame of which either nothing or at least the whole length word (four bytes) is in the buffer:
  \<^verbatim>\<open>task_decode\<close> answers \<^verbatim>\<open>NGX_AGAIN\<close> and leaves the buffer and the task alone, whatever stale bytes follow
  \<open>last\<close>. With one to three pending bytes this is not so: the decoder then takes stale bytes for the rest of the
  length word (\<open>task_decode_cut_length_word\<close>).\<close>

theorem task_decode_incomplete:
  assumes "buffer_wf b" "framable t pl" "frame t pl = buffer_data b @ miss" "miss \<noteq> []"
    "4 \<le> length (buffer_data b) \<or> buffer_data b = []"
  shows "task_decode base b t0 = Some (NGX_AGAIN, b, t0)"
  using task_decode_partial[OF assms(1-5)] .

theorem task_decode_incomplete_witness:
  "task_decode 0 (ex_buffer (take 5 (frame ex_task [65, 66]) @ [1, 2, 3]) 5) task_zero =
    Some (NGX_AGAIN, ex_buffer (take 5 (frame ex_task [65, 66]) @ [1, 2, 3]) 5, task_zero)"
proof -
  have L: "length (frame ex_task [65, 66]) = 346" by (simp add: framable_ex_task)
  have d: "buffer_data (ex_buffer (take 5 (frame ex_task [65, 66]) @ [1, 2, 3]) 5) = take 5 (frame ex_task [65, 66])"
    using L by (simp add: ex_buffer_def buffer_data_def)
  have "drop 5 (frame ex_task [65, 66]) \<noteq> []" using L by simp
  moreover have "buffer_wf (ex_buffer (take 5 (frame ex_task [65, 66]) @ [1, 2, 3]) 5)"
    using L by (simp add: ex_buffer_def buffer_wf_def)
  ultimately show ?thesis
    using task_decode_incomplete[OF _ framable_ex_task, of
        "ex_buffer (take 5 (frame ex_task [65, 66]) @ [1, 2, 3]) 5" "drop 5 (frame ex_task [65, 66])" 0 task_zero] L
    by (simp add: d del: length_buffer_data)
qed

text \<open>a length word of zero. The decoder accepts it: it answers \<^verbatim>\<open>NGX_OK\<close> with a task made of
  the following bytes and consumes nothing, so that the same bytes are decoded again by the
  next call.\<close>

theorem task_decode_zero_length:
  assumes "buffer_wf b" "buffer_data b = [0, 0, 0, 0] @ r @ x" "length r = 340"
  shows "\<exists>t'. task_decode base b t0 = Some (NGX_OK, b, t')"
proof -
  have mem: "b_mem b = take (b_pos b) (b_mem b) @ [0, 0, 0, 0] @ r @ x @ drop (b_last b) (b_mem b)"
    using buffer_split[OF assms(1)] assms(2) by simp
  have p: "length (take (b_pos b) (b_mem b)) = b_pos b" using assms(1) by (auto simp: buffer_wf_def)
  have 1: "rdn (b_mem b) (b_pos b) 4 = Some [0, 0, 0, 0]"
    by (subst mem) (rule rdn_append, simp, rule p)
  have len: "344 \<le> b_last b - b_pos b"
    using arg_cong[OF assms(2), of length] assms(1,3) by simp
  then have "b_pos b + 344 \<le> b_end b" "0 < buffer_size b"
    using assms(1) by (auto simp: buffer_wf_def buffer_size_def)
  moreover have "sint (de32 [0, 0, 0, 0]) = 0" by (simp add: de32_def)
  moreover have "to_int32 (buffer_size b) = buffer_size b"
    using assms(1) len by (auto simp: buffer_wf_def buffer_size_def)
  ultimately show ?thesis
    by (simp add: task_decode_def task_decodefstr_def 1 sizeof_task_def NGX_OK_def Let_def)
qed

theorem task_decode_zero_length_witness:
  "\<exists>t'. task_decode 0 (ex_buffer (replicate 400 0) 400) task_zero = Some (NGX_OK, ex_buffer (replicate 400 0) 400, t')"
proof (rule task_decode_zero_length)
  show "buffer_wf (ex_buffer (replicate 400 0) 400)" by (simp add: ex_buffer_def buffer_wf_def)
  have "replicate 400 0 = replicate 4 (0::u8) @ replicate 340 0 @ replicate 56 0"
    by (simp only: replicate_add[symmetric]) simp
  then show "buffer_data (ex_buffer (replicate 400 0) 400) = [0, 0, 0, 0] @ replicate 340 0 @ replicate 56 0"
    by (simp add: ex_buffer_def buffer_data_def numeral_nat)
qed simp

text \<open>C22: a negative \<open>data_len\<close> is not rejected by the encoder. When the free space is just what the
  (too small) computed size asks for, the 344 bytes of the fixed part are written past the end of
  the buffer: the behaviour is undefined.\<close>

theorem task_encode_negative_length:
  assumes "buffer_wf b" "task_wf t" "-344 < sint (t_data_len t)" "sint (t_data_len t) < 0"
    "int (b_end b - b_last b) = 344 + sint (t_data_len t)"
  shows "task_encode mem t b = None"
proof -
  let ?n = "344 + sint (t_data_len t)"
  have "chk_int32 (4 + int sizeof_task + 4 + sint (t_data_len t)) = Some ?n"
    using assms by (simp add: chk_int32_def sizeof_task_def)
  moreover have "length (le32 (t_data_len t)) = 4" by simp
  moreover have "b_end b < b_last b + 344" using assms by linarith
  ultimately have "task_encode2str mem t (b_mem b) (b_last b) (int (b_end b - b_last b)) = None"
    using assms(5) length_task_repr[OF assms(2)]
    by (auto simp: task_encode2str_def sizeof_task_def bind_eq_None_conv wrn_def dest: length_wrn
        split: if_splits)
  moreover have "0 < buffer_free_size b" using assms by (simp add: buffer_free_size_def)
  ultimately show ?thesis by (simp add: task_encode_def buffer_free_wf[OF assms(1)])
qed

theorem task_encode_negative_length_witness:
  "task_encode (\<lambda>p. None) (task_zero\<lparr>t_data_len := -4\<rparr>) (ex_buffer (replicate 340 0) 0) = None"
  by (rule task_encode_negative_length)
    (use task_wf_zero in \<open>simp_all add: ex_buffer_def buffer_wf_def task_wf_def\<close>)

text \<open>\<^verbatim>\<open>buffer_shrink\<close> moves the unread bytes to the start of the buffer and loses none of them;
  the whole object behind them is free again.\<close>

theorem buffer_shrink_keeps_data:
  assumes "buffer_wf b"
  shows "\<exists>b'. buffer_shrink b = Some b' \<and> buffer_wf b' \<and> buffer_data b' = buffer_data b \<and>
    buffer_free_size b' = int (b_end b) - int (length (buffer_data b))"
proof -
  obtain b' where "buffer_shrink b = Some b'" and b': "buffer_wf b'" "b_pos b' = 0"
    "buffer_data b' = buffer_data b" "b_end b' = b_end b"
    using buffer_shrink_wf[OF assms] by blast
  moreover have "b_last b' = length (buffer_data b)"
    using length_buffer_data[OF b'(1)] b'(2,3) by simp
  ultimately show ?thesis by (auto simp: buffer_free_size_def)
qed

theorem buffer_shrink_keeps_data_witness:
  "\<exists>b'. buffer_shrink ((ex_buffer [1, 2, 3, 4] 3)\<lparr>b_pos := 1\<rparr>) = Some b' \<and> buffer_data b' = [2, 3]"
  using buffer_shrink_keeps_data[of "(ex_buffer [1, 2, 3, 4] 3)\<lparr>b_pos := 1\<rparr>"]
  by (auto simp: ex_buffer_def buffer_wf_def buffer_data_def)

end
