(* ===== verification/Nn_TaskQueue.thy ===== *)
theory Nn_TaskQueue
  imports Dfs_Queue Dfs_Task
begin

text \<open>
  The task queues of \<^verbatim>\<open>src/src/nn_task_queue.h\<close> and \<^verbatim>\<open>nn_task_queue.cpp\<close>: queue nodes that carry a
  task, and the spin-locked queues through which the threads hand them to each other. The model is
  at pointer level, on the rings of \<open>Dfs_Queue\<close>; \<open>is_tq\<close> is the abstraction to the list of the
  nodes, and the locale \<open>task_channel\<close> is what the rest of the server relies on.
\<close>

section \<open>Memory\<close>

text \<open>
  The links of all queue elements, the tasks inside of the nodes, the state of the spin locks
  (\<^term>\<open>None\<close>: not initialised, \<^term>\<open>Some True\<close>: held), and the live heap blocks.
\<close>

record tq_mem =
  links_of :: qheap
  task_of :: "addr \<Rightarrow> task_t"
  locks :: "addr \<Rightarrow> bool option"
  blocks :: "addr set"

text \<open>
  \<^verbatim>\<open>tk\<close> is the first member of \<^verbatim>\<open>task_queue_node_t\<close> and \<^verbatim>\<open>qe\<close> follows it; \<^verbatim>\<open>qh\<close> is the first member
  of \<^verbatim>\<open>task_queue_t\<close>. \<open>queue_data\<close> is the macro of the same name for the member \<^verbatim>\<open>qe\<close>.
\<close>

definition qe_of :: "addr \<Rightarrow> addr" where
  "qe_of node = node + sizeof_task"

definition queue_data :: "addr \<Rightarrow> addr" where
  "queue_data q = q - sizeof_task"

lemma queue_data_qe [simp]: "queue_data (qe_of node) = node"
  by (simp add: queue_data_def qe_of_def)

lemma qe_of_nonnull [simp]: "qe_of node \<noteq> nullptr"
  by (simp add: qe_of_def sizeof_task_def)

lemma qe_of_eq [simp]: "qe_of a = qe_of b \<longleftrightarrow> a = b"
  by (simp add: qe_of_def)

lemma qe_of_image [simp]: "qe_of x \<in> qe_of ` S \<longleftrightarrow> x \<in> S"
  by auto

definition on_links :: "(qheap \<Rightarrow> qheap option) \<Rightarrow> tq_mem \<Rightarrow> tq_mem option" where
  "on_links f m = do { hp \<leftarrow> f (links_of m); Some (m\<lparr>links_of := hp\<rparr>) }"

definition mem_free :: "tq_mem \<Rightarrow> addr \<Rightarrow> tq_mem option" where
  "mem_free m p = (if p = nullptr then Some m
     else if p \<in> blocks m then Some (m\<lparr>blocks := blocks m - {p}\<rparr>) else None)"

text \<open>A spin lock that is taken while it is held never returns.\<close>

definition spin_lock :: "tq_mem \<Rightarrow> addr \<Rightarrow> tq_mem option" where
  "spin_lock m l = (if locks m l = Some False then Some (m\<lparr>locks := (locks m)(l := Some True)\<rparr>) else None)"

definition spin_unlock :: "tq_mem \<Rightarrow> addr \<Rightarrow> tq_mem option" where
  "spin_unlock m l = (if locks m l = Some True then Some (m\<lparr>locks := (locks m)(l := Some False)\<rparr>) else None)"

section \<open>Nodes\<close>

definition queue_node_destory :: "tq_mem \<Rightarrow> addr \<Rightarrow> bool \<Rightarrow> tq_mem option" where
  "queue_node_destory m node free_fn =
     (if node = nullptr then None
      else do {
        m \<leftarrow> (if free_fn \<and> t_opq (task_of m node) \<noteq> 0
              then mem_free m (unat (t_opq (task_of m node))) else Some m);
        mem_free m node })"

definition queue_node_clear :: "tq_mem \<Rightarrow> addr \<Rightarrow> tq_mem option" where
  "queue_node_clear m node = do {
     let opq = t_opq (task_of m node);
     let m = m\<lparr>task_of := (task_of m)(node := task_zero)\<rparr>;
     m \<leftarrow> on_links (\<lambda>hp. queue_init hp (qe_of node)) m;
     Some (m\<lparr>task_of := (task_of m)(node := (task_of m node)\<lparr>t_opq := opq\<rparr>)\<rparr>) }"

definition queue_node_set_task :: "tq_mem \<Rightarrow> addr \<Rightarrow> task_t \<Rightarrow> tq_mem option" where
  "queue_node_set_task m node t =
     (if node = nullptr then None else Some (m\<lparr>task_of := (task_of m)(node := t)\<rparr>))"

text \<open>\<open>fresh\<close> is what \<^verbatim>\<open>malloc\<close> returns: the null pointer or a block that is not live.\<close>

definition queue_node_create :: "tq_mem \<Rightarrow> addr \<Rightarrow> (addr \<times> tq_mem) option" where
  "queue_node_create m fresh =
     (if fresh = nullptr then Some (nullptr, m)
      else do {
        m \<leftarrow> queue_node_clear (m\<lparr>blocks := insert fresh (blocks m)\<rparr>) fresh;
        Some (fresh, m) })"

section \<open>Queues\<close>

text \<open>\<open>spin_ok\<close> is whether \<^verbatim>\<open>pthread_spin_init\<close> succeeds.\<close>

definition task_queue_init :: "bool \<Rightarrow> tq_mem \<Rightarrow> addr \<Rightarrow> (int \<times> tq_mem) option" where
  "task_queue_init spin_ok m tq =
     (if \<not> spin_ok then do { m \<leftarrow> mem_free m tq; Some (-1, m) }
      else do {
        m \<leftarrow> on_links (\<lambda>hp. queue_init hp tq) (m\<lparr>locks := (locks m)(tq := Some False)\<rparr>);
        Some (0, m) })"

definition task_queue_create :: "bool \<Rightarrow> tq_mem \<Rightarrow> addr \<Rightarrow> (addr \<times> tq_mem) option" where
  "task_queue_create spin_ok m fresh =
     (if fresh = nullptr then Some (nullptr, m)
      else do {
        m \<leftarrow> on_links (\<lambda>hp. queue_init hp fresh) (m\<lparr>blocks := insert fresh (blocks m)\<rparr>);
        if \<not> spin_ok then do { m \<leftarrow> mem_free m fresh; Some (nullptr, m) }
        else do {
          m \<leftarrow> on_links (\<lambda>hp. queue_init hp fresh) (m\<lparr>locks := (locks m)(fresh := Some False)\<rparr>);
          Some (fresh, m) } })"

definition task_queue_destory :: "tq_mem \<Rightarrow> addr \<Rightarrow> tq_mem option" where
  "task_queue_destory m q = mem_free (m\<lparr>locks := (locks m)(q := None)\<rparr>) q"

definition pop_task :: "tq_mem \<Rightarrow> addr \<Rightarrow> (addr \<times> tq_mem) option" where
  "pop_task m queue =
     (if queue = nullptr then None
      else do {
        m \<leftarrow> spin_lock m queue;
        e \<leftarrow> queue_empty (links_of m) queue;
        if e then do { m \<leftarrow> spin_unlock m queue; Some (nullptr, m) }
        else do {
          q \<leftarrow> queue_tail (links_of m) queue;
          m \<leftarrow> on_links (\<lambda>hp. queue_remove hp q) m;
          m \<leftarrow> spin_unlock m queue;
          Some (queue_data q, m) } })"

definition pop_all :: "tq_mem \<Rightarrow> addr \<Rightarrow> addr \<Rightarrow> tq_mem option" where
  "pop_all m tq queue = do {
     m \<leftarrow> spin_lock m tq;
     e \<leftarrow> queue_empty (links_of m) tq;
     m \<leftarrow> (if e then Some m
           else on_links (\<lambda>hp. do {
             n \<leftarrow> ld_next hp tq;
             hp \<leftarrow> st_next hp queue n;
             p \<leftarrow> ld_prev hp tq;
             hp \<leftarrow> st_prev hp queue p;
             n \<leftarrow> ld_next hp queue;
             hp \<leftarrow> st_prev hp n queue;
             p \<leftarrow> ld_prev hp queue;
             hp \<leftarrow> st_next hp p queue;
             queue_init hp tq }) m);
     spin_unlock m tq }"

definition push_task :: "tq_mem \<Rightarrow> addr \<Rightarrow> addr \<Rightarrow> tq_mem option" where
  "push_task m queue tnode =
     (if queue = nullptr \<or> tnode = nullptr then None
      else do {
        m \<leftarrow> spin_lock m queue;
        m \<leftarrow> on_links (\<lambda>hp. queue_insert_head hp queue (qe_of tnode)) m;
        spin_unlock m queue })"

section \<open>The abstraction\<close>

text \<open>\<open>is_tq m tq ns\<close>: the queue at \<open>tq\<close> is idle and holds the nodes \<open>ns\<close>, head first.\<close>

definition is_tq :: "tq_mem \<Rightarrow> addr \<Rightarrow> addr list \<Rightarrow> bool" where
  "is_tq m tq ns \<longleftrightarrow> is_queue (links_of m) tq (map qe_of ns) \<and> locks m tq = Some False \<and> nullptr \<notin> set ns"

text \<open>The addresses of the links of a queue.\<close>

definition tq_links :: "addr \<Rightarrow> addr list \<Rightarrow> addr set" where
  "tq_links tq ns = insert tq (qe_of ` set ns)"

text \<open>A step on one queue: other queues, all tasks and all blocks stay as they are.\<close>

definition tq_frame :: "addr set \<Rightarrow> tq_mem \<Rightarrow> tq_mem \<Rightarrow> bool" where
  "tq_frame S m m' \<longleftrightarrow> task_of m' = task_of m \<and> blocks m' = blocks m \<and>
     (\<forall>a. a \<notin> S \<longrightarrow> links_of m' a = links_of m a \<and> locks m' a = locks m a)"

lemma tq_frame_is_tq:
  "tq_frame S m m' \<Longrightarrow> is_tq m tq ns \<Longrightarrow> tq_links tq ns \<inter> S = {} \<Longrightarrow> is_tq m' tq ns"
  unfolding is_tq_def tq_frame_def tq_links_def
  by (auto intro!: is_queue_frame[where hp = "links_of m"]) blast

lemma push_task_is_tq:
  assumes "is_tq m tq ns" "x \<noteq> nullptr" "qe_of x \<notin> tq_links tq ns"
  shows "\<exists>m'. push_task m tq x = Some m' \<and> is_tq m' tq (x # ns) \<and> tq_frame (tq_links tq (x # ns)) m m'"
proof -
  have q: "is_queue (links_of m) tq (map qe_of ns)" and l: "locks m tq = Some False"
    and nn: "nullptr \<notin> set ns" using assms(1) by (auto simp: is_tq_def)
  have "qe_of x \<notin> set (tq # map qe_of ns)" using assms(3) by (auto simp: tq_links_def)
  from is_queue_insert_head[OF q qe_of_nonnull this] obtain hp' where
    hp': "queue_insert_head (links_of m) tq (qe_of x) = Some hp'" "is_queue hp' tq (qe_of x # map qe_of ns)"
    "\<And>p. p \<notin> set (tq # qe_of x # map qe_of ns) \<Longrightarrow> hp' p = links_of m p" by blast
  have "push_task m tq x = Some (m\<lparr>links_of := hp', locks := (locks m)(tq := Some False)\<rparr>)"
    using is_queueD(1)[OF q] assms(2) l hp'(1) by (simp add: push_task_def spin_lock_def spin_unlock_def on_links_def)
  then show ?thesis using hp' nn assms(2)
    by (auto simp: is_tq_def tq_frame_def tq_links_def)
qed

lemma pop_task_snoc:
  assumes "is_tq m tq (ns @ [x])"
  shows "\<exists>m'. pop_task m tq = Some (x, m') \<and> is_tq m' tq ns \<and> tq_frame (tq_links tq (ns @ [x])) m m'"
proof -
  have q: "is_queue (links_of m) tq (map qe_of ns @ [qe_of x])" and l: "locks m tq = Some False"
    and nn: "nullptr \<notin> set ns" using assms(1) by (auto simp: is_tq_def)
  from is_queue_remove[OF q] obtain hp' where
    hp': "queue_remove (links_of m) (qe_of x) = Some hp'" "is_queue hp' tq (map qe_of ns)"
    "\<And>p. p \<notin> set (tq # map qe_of ns @ [qe_of x]) \<Longrightarrow> hp' p = links_of m p" by auto
  have "pop_task m tq = Some (x, m\<lparr>links_of := hp', locks := (locks m)(tq := Some False)\<rparr>)"
    using is_queueD(1)[OF q] l hp'(1) q.isempty[OF q] q.final[OF q]
    by (simp add: pop_task_def spin_lock_def spin_unlock_def on_links_def)
  then show ?thesis using hp' nn by (auto simp: is_tq_def tq_frame_def tq_links_def)
qed

lemma pop_task_Nil:
  assumes "is_tq m tq []"
  shows "pop_task m tq = Some (nullptr, m)"
proof -
  have q: "is_queue (links_of m) tq []" and l: "locks m tq = Some False"
    using assms(1) by (auto simp: is_tq_def)
  then have "(locks m)(tq := Some False) = locks m" by auto
  then show ?thesis using is_queueD(1)[OF q] l q.isempty[OF q]
    by (simp add: pop_task_def spin_lock_def spin_unlock_def)
qed

text \<open>On an empty target ring, the hand-over of \<^verbatim>\<open>pop_all\<close> is a concatenation followed by a reset.\<close>

lemma pop_all_as_add:
  assumes "is_queue hp g []" "is_queue hp h xs" "xs \<noteq> []" "g \<notin> set (h # xs)"
  shows "(do { n \<leftarrow> ld_next hp h; hp \<leftarrow> st_next hp g n; p \<leftarrow> ld_prev hp h; hp \<leftarrow> st_prev hp g p;
      n \<leftarrow> ld_next hp g; hp \<leftarrow> st_prev hp n g; p \<leftarrow> ld_prev hp g; hp \<leftarrow> st_next hp p g; queue_init hp h }) =
    do { hp \<leftarrow> queue_add_queue hp g h; queue_init hp h }"
proof -
  have g: "g \<noteq> nullptr" "next (hp g) = g" "prev (hp g) = g" using assms(1) by (auto simp: is_queue_Nil)
  have "next (hp h) \<in> set xs" "prev (hp h) \<in> set xs"
    using is_queueD(5,6)[OF assms(2)] assms(3) by (auto simp: hd_append)
  then have m: "next (hp h) \<noteq> nullptr" "prev (hp h) \<noteq> nullptr" "next (hp h) \<noteq> g" "prev (hp h) \<noteq> g" "g \<noteq> h"
    "next (hp h) \<noteq> h" "prev (hp h) \<noteq> h"
    using is_queueD(2,4)[OF assms(2)] assms(4) by (metis list.set_intros)+
  show ?thesis
    using g m is_queueD(1)[OF assms(2)] by (simp add: queue_add_queue_def q_access fun_upd_twist[of g "next (hp h)"])
qed

lemma queue_add_queue_frame:
  "queue_add_queue hp h n = Some hp' \<Longrightarrow> a \<notin> {h, n, prev (hp h), next (hp n), prev (hp n)} \<Longrightarrow> hp' a = hp a"
  by (auto simp: queue_add_queue_def q_access split: if_splits)

lemma pop_all_is_tq:
  assumes "is_tq m tq ns" "is_queue (links_of m) g []" "g \<notin> tq_links tq ns"
  shows "\<exists>m'. pop_all m tq g = Some m' \<and> is_tq m' tq [] \<and> is_queue (links_of m') g (map qe_of ns) \<and>
    tq_frame (insert g (tq_links tq ns)) m m'"
proof (cases "ns = []")
  case True
  have l: "(locks m)(tq := Some False) = locks m" using assms(1) by (auto simp: is_tq_def)
  have q: "is_queue (links_of m) tq []" using assms(1) True by (simp add: is_tq_def)
  have "pop_all m tq g = Some m"
    using assms(1) q.isempty[OF q] by (simp add: pop_all_def spin_lock_def spin_unlock_def is_tq_def l)
  then show ?thesis using assms True by (auto simp: tq_frame_def)
next
  case False
  have q: "is_queue (links_of m) tq (map qe_of ns)" and l: "locks m tq = Some False"
    using assms(1) by (auto simp: is_tq_def)
  have g: "g \<notin> set (tq # map qe_of ns)" using assms(3) by (auto simp: tq_links_def)
  then have "set (g # []) \<inter> set (tq # map qe_of ns) = {}" by auto
  from is_queue_add_queue[OF assms(2) q _ this] False obtain hp1 where
    hp1: "queue_add_queue (links_of m) g tq = Some hp1" "is_queue hp1 g (map qe_of ns)" by auto
  obtain hp2 where hp2: "queue_init hp1 tq = Some hp2" "is_queue hp2 tq []"
    "is_queue hp2 g (map qe_of ns)"
    using q.init[OF is_queueD(1)[OF q], of hp1] hp1(2) g is_queueD(2)[OF q] by auto
  have f1: "\<And>a. a \<notin> set (g # tq # map qe_of ns) \<Longrightarrow> hp1 a = links_of m a"
    using queue_add_queue_frame[OF hp1(1)] ring_mem(1,2)[OF q] assms(2) by (auto simp: is_queue_Nil)
  have f2: "\<And>a. a \<noteq> tq \<Longrightarrow> hp2 a = hp1 a"
    using hp2(1) by (auto simp: queue_init_def q_access bind_eq_Some_conv split: if_splits)
  have "pop_all m tq g = Some (m\<lparr>links_of := hp2, locks := (locks m)(tq := Some False)\<rparr>)"
    using l q.isempty[OF q] False hp1(1) hp2(1) pop_all_as_add[OF assms(2) q _ g]
    by (simp add: pop_all_def spin_lock_def spin_unlock_def on_links_def)
  then show ?thesis using hp2 f1 f2
    by (auto simp: is_tq_def tq_frame_def tq_links_def)
qed

section \<open>The channel interface\<close>

text \<open>Sequences of pushes and of pops, for any implementation of the two operations.\<close>

fun push_seq :: "('m \<Rightarrow> addr \<Rightarrow> addr \<Rightarrow> 'm option) \<Rightarrow> 'm \<Rightarrow> addr \<Rightarrow> addr list \<Rightarrow> 'm option" where
  "push_seq push m c [] = Some m"
| "push_seq push m c (x # xs) = do { m \<leftarrow> push m c x; push_seq push m c xs }"

fun pop_seq :: "('m \<Rightarrow> addr \<Rightarrow> (addr \<times> 'm) option) \<Rightarrow> 'm \<Rightarrow> addr \<Rightarrow> nat \<Rightarrow> (addr list \<times> 'm) option" where
  "pop_seq pop m c 0 = Some ([], m)"
| "pop_seq pop m c (Suc n) = do { (x, m) \<leftarrow> pop m c; (xs, m) \<leftarrow> pop_seq pop m c n; Some (x # xs, m) }"

text \<open>
  What the threads rely on when they hand nodes over: a channel holds a list of nodes, \<open>push\<close> puts
  a node at its front, \<open>pop\<close> takes the one at its end or answers null, and neither touches a
  channel with a different footprint. \<open>fits c x\<close> says that \<open>x\<close> may be queued on \<open>c\<close>.
\<close>

locale task_channel =
  fixes chan :: "'m \<Rightarrow> addr \<Rightarrow> addr list \<Rightarrow> bool"
    and fits :: "addr \<Rightarrow> addr \<Rightarrow> bool"
    and push :: "'m \<Rightarrow> addr \<Rightarrow> addr \<Rightarrow> 'm option"
    and pop :: "'m \<Rightarrow> addr \<Rightarrow> (addr \<times> 'm) option"
  assumes push: "chan m c ns \<Longrightarrow> fits c x \<Longrightarrow> x \<notin> set ns \<Longrightarrow>
      \<exists>m'. push m c x = Some m' \<and> chan m' c (x # ns)"
    and pop_last: "chan m c (ns @ [x]) \<Longrightarrow> \<exists>m'. pop m c = Some (x, m') \<and> chan m' c ns"
    and pop_none: "chan m c [] \<Longrightarrow> pop m c = Some (nullptr, m)"
begin

lemma push_seq_chan:
  assumes "chan m c ns" "distinct xs" "set xs \<inter> set ns = {}" "\<And>x. x \<in> set xs \<Longrightarrow> fits c x"
  shows "\<exists>m'. push_seq push m c xs = Some m' \<and> chan m' c (rev xs @ ns)"
  using assms
proof (induction xs arbitrary: m ns)
  case (Cons x xs)
  then obtain m1 where 1: "push m c x = Some m1" "chan m1 c (x # ns)"
    using push[of m c ns x] by auto
  from Cons.IH[OF 1(2)] Cons.prems 1(1) show ?case by auto
qed simp

lemma pop_seq_chan:
  "chan m c (ns @ rev xs) \<Longrightarrow> \<exists>m'. pop_seq pop m c (length xs) = Some (xs, m') \<and> chan m' c ns"
proof (induction xs arbitrary: m)
  case (Cons x xs)
  then obtain m1 where 1: "pop m c = Some (x, m1)" "chan m1 c (ns @ rev xs)"
    using pop_last[of m c "ns @ rev xs" x] by auto
  from Cons.IH[OF 1(2)] 1(1) show ?case by auto
qed simp

lemma first_in_first_out:
  assumes "chan m c ns" "distinct (xs @ ns)" "\<And>x. x \<in> set xs \<Longrightarrow> fits c x"
  shows "\<exists>m1 m2. push_seq push m c xs = Some m1 \<and>
    pop_seq pop m1 c (length ns + length xs) = Some (rev ns @ xs, m2) \<and> pop m2 c = Some (nullptr, m2)"
proof -
  obtain m1 where m1: "push_seq push m c xs = Some m1" "chan m1 c (rev xs @ ns)"
    using push_seq_chan[of m c ns xs] assms by auto
  then have "chan m1 c ([] @ rev (rev ns @ xs))" by simp
  from pop_seq_chan[OF this] m1(1) show ?thesis using pop_none by auto
qed

end

interpretation tq: task_channel is_tq "\<lambda>c x. x \<noteq> nullptr \<and> qe_of x \<noteq> c" push_task pop_task
proof
  fix m c ns x assume "is_tq m c ns" "x \<noteq> nullptr \<and> qe_of x \<noteq> c" "x \<notin> set ns"
  then show "\<exists>m'. push_task m c x = Some m' \<and> is_tq m' c (x # ns)"
    using push_task_is_tq[of m c ns x] by (auto simp: tq_links_def)
next
  fix m c ns x assume "is_tq m c (ns @ [x])"
  then show "\<exists>m'. pop_task m c = Some (x, m') \<and> is_tq m' c ns" using pop_task_snoc by blast
qed (rule pop_task_Nil)

section \<open>Properties\<close>

text \<open>C5: \<^verbatim>\<open>push_task\<close> and \<^verbatim>\<open>pop_task\<close> make a first-in-first-out channel: after any pushes on an idle
  queue, popping returns what was there before and then the new nodes in the order they were
  pushed, and then null; every lock that was taken is released and no access is invalid.\<close>

theorem task_queue_fifo:
  assumes "is_tq m tq ns" "distinct (xs @ ns)" "\<forall>x\<in>set xs. x \<noteq> nullptr \<and> qe_of x \<noteq> tq"
  shows "\<exists>m1 m2. push_seq push_task m tq xs = Some m1 \<and>
    pop_seq pop_task m1 tq (length ns + length xs) = Some (rev ns @ xs, m2) \<and>
    pop_task m2 tq = Some (nullptr, m2)"
  using tq.first_in_first_out[OF assms(1,2)] assms(3) by blast

definition ex_tq_mem :: tq_mem where
  "ex_tq_mem = \<lparr>links_of = (\<lambda>a. \<lparr>prev = a, next = a\<rparr>), task_of = (\<lambda>a. task_zero),
     locks = (\<lambda>a. Some False), blocks = {}\<rparr>"

lemma is_tq_ex: "is_tq ex_tq_mem 8 []"
  by (simp add: is_tq_def ex_tq_mem_def is_queue_Nil)

theorem task_queue_fifo_witness:
  "\<exists>m1 m2. push_seq push_task ex_tq_mem 8 [1000, 2000, 3000] = Some m1 \<and>
    pop_seq pop_task m1 8 3 = Some ([1000, 2000, 3000], m2) \<and> pop_task m2 8 = Some (nullptr, m2)"
  using task_queue_fifo[OF is_tq_ex, of "[1000, 2000, 3000]"]
  by (simp add: qe_of_def sizeof_task_def numeral_3_eq_3)

text \<open>C8: \<^verbatim>\<open>pop_all\<close> moves the nodes of the queue, in one locked step and in the order from the head
  (the newest first), to the empty ring of the caller, and leaves the queue empty and unlocked. No
  task, no heap block and no other queue is touched.\<close>

theorem pop_all_hands_over:
  assumes "is_tq m tq ns" "is_queue (links_of m) g []" "g \<notin> tq_links tq ns"
  shows "\<exists>m'. pop_all m tq g = Some m' \<and> is_tq m' tq [] \<and> is_queue (links_of m') g (map qe_of ns) \<and>
    task_of m' = task_of m \<and> blocks m' = blocks m \<and>
    (\<forall>tq' ns'. is_tq m tq' ns' \<longrightarrow> tq_links tq' ns' \<inter> insert g (tq_links tq ns) = {} \<longrightarrow> is_tq m' tq' ns')"
proof -
  obtain m' where m': "pop_all m tq g = Some m'" "is_tq m' tq []" "is_queue (links_of m') g (map qe_of ns)"
    "tq_frame (insert g (tq_links tq ns)) m m'"
    using pop_all_is_tq[OF assms] by blast
  moreover from m'(4) have "task_of m' = task_of m" "blocks m' = blocks m" by (auto simp: tq_frame_def)
  ultimately show ?thesis using tq_frame_is_tq[OF m'(4)] by blast
qed

theorem pop_all_hands_over_witness:
  "\<exists>m1 m'. push_seq push_task ex_tq_mem 8 [1000, 2000] = Some m1 \<and> pop_all m1 8 9 = Some m' \<and>
    is_queue (links_of m') 9 (map qe_of [2000, 1000])"
proof -
  obtain m1 where m1: "push_task ex_tq_mem 8 1000 = Some m1" "is_tq m1 8 [1000]"
      "tq_frame (tq_links 8 [1000]) ex_tq_mem m1"
    using push_task_is_tq[OF is_tq_ex, of 1000] by (auto simp: tq_links_def qe_of_def sizeof_task_def)
  obtain m2 where m2: "push_task m1 8 2000 = Some m2" "is_tq m2 8 [2000, 1000]"
      "tq_frame (tq_links 8 [2000, 1000]) m1 m2"
    using push_task_is_tq[OF m1(2), of 2000] by (auto simp: tq_links_def qe_of_def sizeof_task_def)
  have "links_of m2 9 = links_of ex_tq_mem 9"
    using m1(3) m2(3) by (simp add: tq_frame_def tq_links_def qe_of_def sizeof_task_def)
  then have "is_queue (links_of m2) 9 []" by (simp add: is_queue_Nil ex_tq_mem_def)
  with pop_all_hands_over[OF m2(2), of 9] m1(1) m2(1) show ?thesis
    by (auto simp: tq_links_def qe_of_def sizeof_task_def)
qed

end
