(* ===== verification/Dfs_Conn.thy ===== *)
theory Dfs_Conn
  imports Dfs_Prelude
begin

text \<open>
  Connections and their two events: \<^verbatim>\<open>src/src/core/dfs_conn.cpp\<close>, the registration of events in
  \<^verbatim>\<open>dfs_epoll.cpp\<close> and \<^verbatim>\<open>dfs_event.cpp\<close>, and the socket input and output of \<^verbatim>\<open>dfs_sysio.cpp\<close>. The
  kernel is part of the state: what \<^verbatim>\<open>epoll\<close> has registered for the descriptor, and the answers the
  next system calls will give. An exhausted list of answers stands for a socket that would block
  and for an \<^verbatim>\<open>epoll_ctl\<close> that does not fail for lack of resources.
\<close>

section \<open>Events and connections\<close>

record event_t =
  ev_active :: bool
  ev_ready :: bool
  ev_timedout :: bool
  ev_timer_set :: bool
  ev_instance :: bool
  ev_last_instance :: bool
  ev_write :: bool
  ev_handler :: bool

definition ev_zero :: event_t where
  "ev_zero = \<lparr>ev_active = False, ev_ready = False, ev_timedout = False, ev_timer_set = False,
     ev_instance = False, ev_last_instance = False, ev_write = False, ev_handler = False\<rparr>"

text \<open>The outcomes of \<^verbatim>\<open>recv\<close> and \<^verbatim>\<open>send\<close>; no data is the end of the stream.\<close>

datatype rx_ans = Rx_data "u8 list" | Rx_eintr | Rx_eagain | Rx_err
datatype tx_ans = Tx_n nat | Tx_eintr | Tx_eagain | Tx_err

text \<open>
  \<open>c_interest\<close> is the registration of the descriptor in the \<^verbatim>\<open>epoll\<close> set: none, or whether
  \<^verbatim>\<open>EPOLLIN\<close> and \<^verbatim>\<open>EPOLLOUT\<close> are asked for. \<open>c_sent_bytes\<close> are the bytes the kernel has accepted.
\<close>

record conn_t =
  c_fd :: int
  c_has_data :: bool
  c_read :: event_t
  c_write :: event_t
  c_has_timer :: bool
  c_has_base :: bool
  c_has_pool :: bool
  c_interest :: "(bool \<times> bool) option"
  c_ctl :: "bool list"
  c_rx :: "rx_ans list"
  c_tx :: "tx_ans list"
  c_sent_bytes :: "u8 list"

definition NGX_INVALID_FILE :: int where "NGX_INVALID_FILE = -1"

section \<open>Registration\<close>

datatype ctl_op = CTL_ADD | CTL_MOD | CTL_DEL

text \<open>
  \<^verbatim>\<open>epoll_ctl\<close>: adding fails when the descriptor is registered, modifying and deleting when it is
  not; a call may also fail for other reasons, which the next element of \<open>c_ctl\<close> says.
\<close>

definition epoll_ctl :: "conn_t \<Rightarrow> ctl_op \<Rightarrow> bool \<times> bool \<Rightarrow> int \<times> conn_t" where
  "epoll_ctl c op events =
     (let ok = (case c_ctl c of [] \<Rightarrow> True | b # _ \<Rightarrow> b);
          c = c\<lparr>c_ctl := tl (c_ctl c)\<rparr> in
      if \<not> ok \<or> (op = CTL_ADD \<longleftrightarrow> c_interest c \<noteq> None) then (-1, c)
      else (0, c\<lparr>c_interest := (if op = CTL_DEL then None else Some events)\<rparr>))"

datatype ev_side = EVENT_READ_EVENT | EVENT_WRITE_EVENT

definition get_ev :: "ev_side \<Rightarrow> conn_t \<Rightarrow> event_t" where
  "get_ev s c = (if s = EVENT_READ_EVENT then c_read c else c_write c)"

definition upd_ev :: "ev_side \<Rightarrow> (event_t \<Rightarrow> event_t) \<Rightarrow> conn_t \<Rightarrow> conn_t" where
  "upd_ev s f c = (if s = EVENT_READ_EVENT then c\<lparr>c_read := f (c_read c)\<rparr> else c\<lparr>c_write := f (c_write c)\<rparr>)"

definition other_side :: "ev_side \<Rightarrow> ev_side" where
  "other_side s = (if s = EVENT_READ_EVENT then EVENT_WRITE_EVENT else EVENT_READ_EVENT)"

definition only :: "ev_side \<Rightarrow> bool \<times> bool" where
  "only s = (if s = EVENT_READ_EVENT then (True, False) else (False, True))"

definition epoll_add_event :: "conn_t \<Rightarrow> ev_side \<Rightarrow> int \<times> conn_t" where
  "epoll_add_event c event =
     (let aevent = get_ev (other_side event) c;
          (op, events) = (if ev_active aevent then (CTL_MOD, (True, True)) else (CTL_ADD, only event));
          c = upd_ev event (\<lambda>e. e\<lparr>ev_active := True\<rparr>) c;
          (rc, c) = epoll_ctl c op events in
      if rc = -1 then (NGX_ERROR, upd_ev event (\<lambda>e. e\<lparr>ev_active := False\<rparr>) c)
      else (NGX_OK, upd_ev event (\<lambda>e. e\<lparr>ev_active := True\<rparr>) c))"

definition epoll_del_event :: "conn_t \<Rightarrow> ev_side \<Rightarrow> bool \<Rightarrow> int \<times> conn_t" where
  "epoll_del_event c event close_event =
     (if close_event then (NGX_OK, upd_ev event (\<lambda>e. e\<lparr>ev_active := False\<rparr>) c)
      else (let (op, events) = (if ev_active (get_ev (other_side event) c)
                  then (CTL_MOD, only (other_side event)) else (CTL_DEL, only event));
                (rc, c) = epoll_ctl c op events in
        if rc = -1 then (NGX_ERROR, c)
        else (NGX_OK, upd_ev event (\<lambda>e. e\<lparr>ev_active := False\<rparr>) c)))"

definition set_both_active :: "bool \<Rightarrow> conn_t \<Rightarrow> conn_t" where
  "set_both_active b c = upd_ev EVENT_WRITE_EVENT (\<lambda>e. e\<lparr>ev_active := b\<rparr>)
     (upd_ev EVENT_READ_EVENT (\<lambda>e. e\<lparr>ev_active := b\<rparr>) c)"

definition epoll_add_connection :: "conn_t \<Rightarrow> int \<times> conn_t" where
  "epoll_add_connection c =
     (let (rc, c) = epoll_ctl c CTL_ADD (True, True) in
      if rc = -1 then (NGX_ERROR, c) else (NGX_OK, set_both_active True c))"

definition epoll_del_connection :: "conn_t \<Rightarrow> bool \<Rightarrow> int \<times> conn_t" where
  "epoll_del_connection c close_event =
     (if close_event then (NGX_OK, set_both_active False c)
      else (let (rc, c) = epoll_ctl c CTL_DEL (False, False) in
        if rc = -1 then (NGX_ERROR, c) else (NGX_OK, set_both_active False c)))"

definition event_handle_read :: "conn_t \<Rightarrow> int \<times> conn_t" where
  "event_handle_read c =
     (if \<not> ev_active (c_read c) \<and> \<not> ev_ready (c_read c) then
        (let (rc, c) = epoll_add_event c EVENT_READ_EVENT in
         if rc = NGX_ERROR then (NGX_ERROR, c) else (NGX_OK, c))
      else (NGX_OK, c))"

definition event_del_read :: "conn_t \<Rightarrow> int \<times> conn_t" where
  "event_del_read c = epoll_del_event (upd_ev EVENT_READ_EVENT (\<lambda>e. e\<lparr>ev_ready := False\<rparr>) c) EVENT_READ_EVENT False"

definition event_handle_write :: "conn_t \<Rightarrow> int \<times> conn_t" where
  "event_handle_write c =
     (if \<not> ev_active (c_write c) \<and> \<not> ev_ready (c_write c) then
        (let (rc, c) = epoll_add_event c EVENT_WRITE_EVENT in
         if rc = NGX_ERROR then (NGX_ERROR, c) else (NGX_OK, c))
      else (NGX_OK, c))"

definition event_del_write :: "conn_t \<Rightarrow> int \<times> conn_t" where
  "event_del_write c = epoll_del_event (upd_ev EVENT_WRITE_EVENT (\<lambda>e. e\<lparr>ev_ready := False\<rparr>) c) EVENT_WRITE_EVENT False"

section \<open>Socket input and output\<close>

fun sysio_recv_loop :: "nat \<Rightarrow> rx_ans list \<Rightarrow> int \<times> u8 list \<times> rx_ans list" where
  "sysio_recv_loop sz [] = (NGX_AGAIN, [], [])"
| "sysio_recv_loop sz (Rx_data d # rs) =
     (if length d \<le> sz then (int (length d), d, rs)
      else (int sz, take sz d, Rx_data (drop sz d) # rs))"
| "sysio_recv_loop sz (Rx_eintr # rs) = sysio_recv_loop sz rs"
| "sysio_recv_loop sz (Rx_eagain # rs) = (NGX_AGAIN, [], rs)"
| "sysio_recv_loop sz (Rx_err # rs) = (NGX_ERROR, [], rs)"

text \<open>The return value and the bytes that were stored at the target.\<close>

definition sysio_unix_recv :: "conn_t \<Rightarrow> nat \<Rightarrow> int \<times> u8 list \<times> conn_t" where
  "sysio_unix_recv c sz = (case sysio_recv_loop sz (c_rx c) of (n, d, rs) \<Rightarrow> (n, d, c\<lparr>c_rx := rs\<rparr>))"

definition write_not_ready :: "conn_t \<Rightarrow> conn_t" where
  "write_not_ready c = upd_ev EVENT_WRITE_EVENT (\<lambda>e. e\<lparr>ev_ready := False\<rparr>) c"

fun sysio_send_loop :: "tx_ans list \<Rightarrow> conn_t \<Rightarrow> u8 list \<Rightarrow> int \<times> conn_t" where
  "sysio_send_loop [] c buf = (NGX_AGAIN, write_not_ready (c\<lparr>c_tx := []\<rparr>))"
| "sysio_send_loop (Tx_n k # ts) c buf =
     (let n = min k (length buf);
          c = c\<lparr>c_tx := ts, c_sent_bytes := c_sent_bytes c @ take n buf\<rparr> in
      if 0 < n then (int n, if n < length buf then write_not_ready c else c)
      else (0, write_not_ready c))"
| "sysio_send_loop (Tx_eintr # ts) c buf = sysio_send_loop ts c buf"
| "sysio_send_loop (Tx_eagain # ts) c buf = (NGX_AGAIN, write_not_ready (c\<lparr>c_tx := ts\<rparr>))"
| "sysio_send_loop (Tx_err # ts) c buf = (NGX_ERROR, c\<lparr>c_tx := ts\<rparr>)"

definition sysio_unix_send :: "conn_t \<Rightarrow> u8 list \<Rightarrow> int \<times> conn_t" where
  "sysio_unix_send c buf = sysio_send_loop (c_tx c) c buf"

section \<open>Life of a connection\<close>

definition conn_set_default :: "conn_t \<Rightarrow> int \<Rightarrow> conn_t" where
  "conn_set_default c s =
     (let inst = ev_instance (c_read c); last_inst = ev_last_instance (c_read c) in
      c\<lparr>c_fd := s, c_has_data := False,
        c_read := ev_zero\<lparr>ev_instance := \<not> inst, ev_last_instance := last_inst\<rparr>,
        c_write := ev_zero\<lparr>ev_instance := \<not> inst, ev_write := True\<rparr>\<rparr>)"

definition event_timer_clear :: "ev_side \<Rightarrow> conn_t \<Rightarrow> conn_t" where
  "event_timer_clear s c =
     (if ev_timer_set (get_ev s c) then upd_ev s (\<lambda>e. e\<lparr>ev_timer_set := False\<rparr>) c else c)"

text \<open>Closing the descriptor takes it out of the \<^verbatim>\<open>epoll\<close> set.\<close>

definition conn_close :: "conn_t \<Rightarrow> conn_t" where
  "conn_close c =
     (if 0 < c_fd c then
        (let c = c\<lparr>c_interest := None, c_fd := NGX_INVALID_FILE\<rparr>;
             c = (if ev_timer_set (c_read c) \<and> c_has_timer c then event_timer_clear EVENT_READ_EVENT c else c);
             c = (if ev_timer_set (c_write c) \<and> c_has_timer c then event_timer_clear EVENT_WRITE_EVENT c else c) in
         if c_has_base c then snd (epoll_del_connection c True) else c)
      else c)"

definition conn_release :: "conn_t \<Rightarrow> conn_t" where
  "conn_release c = (conn_close c)\<lparr>c_has_pool := False\<rparr>"

lemmas conn_ev_defs = get_ev_def upd_ev_def other_side_def only_def set_both_active_def write_not_ready_def

section \<open>Lemmas\<close>

text \<open>The \<open>active\<close> flags agree with what the kernel has registered.\<close>

definition epoll_sync :: "conn_t \<Rightarrow> bool" where
  "epoll_sync c \<longleftrightarrow> c_interest c =
     (if ev_active (c_read c) \<or> ev_active (c_write c) then Some (ev_active (c_read c), ev_active (c_write c)) else None)"

lemma epoll_add_event_sync:
  assumes "epoll_sync c" "\<not> ev_active (get_ev s c)"
  shows "epoll_sync (snd (epoll_add_event c s)) \<and>
    fst (epoll_add_event c s) = (if ev_active (get_ev s (snd (epoll_add_event c s))) then NGX_OK else NGX_ERROR)"
  using assms
  by (cases s) (auto simp: epoll_add_event_def epoll_ctl_def conn_ev_defs epoll_sync_def Let_def split: option.splits list.splits)

text \<open>Without the precondition the flag is lost: re-adding an event that alone is registered fails in
  the kernel and clears \<open>active\<close> although the registration is still there.\<close>

lemma epoll_readd_desync:
  assumes "c_interest c = Some (True, False)" "ev_active (c_read c)" "\<not> ev_active (c_write c)"
  shows "\<not> epoll_sync (snd (epoll_add_event c EVENT_READ_EVENT))"
  using assms by (auto simp: epoll_add_event_def epoll_ctl_def conn_ev_defs epoll_sync_def Let_def)

lemmas epoll_defs = epoll_del_event_def epoll_add_connection_def epoll_del_connection_def
  event_handle_read_def event_handle_write_def event_del_read_def event_del_write_def

lemma epoll_del_event_sync:
  assumes "epoll_sync c"
  shows "epoll_sync (snd (epoll_del_event c s False))"
  using assms
  by (cases s) (auto simp: epoll_del_event_def epoll_ctl_def conn_ev_defs epoll_sync_def Let_def split: option.splits list.splits)

lemma event_handle_read_sync: "epoll_sync c \<Longrightarrow> epoll_sync (snd (event_handle_read c))"
  using epoll_add_event_sync[of c EVENT_READ_EVENT]
  by (auto simp: event_handle_read_def get_ev_def split: prod.splits)

lemma event_handle_write_sync: "epoll_sync c \<Longrightarrow> epoll_sync (snd (event_handle_write c))"
  using epoll_add_event_sync[of c EVENT_WRITE_EVENT]
  by (auto simp: event_handle_write_def get_ev_def split: prod.splits)

lemma epoll_sync_ready [simp]: "epoll_sync (upd_ev s (\<lambda>e. e\<lparr>ev_ready := b\<rparr>) c) = epoll_sync c"
  by (auto simp: epoll_sync_def upd_ev_def split: if_splits)

lemma event_del_sync:
  "epoll_sync c \<Longrightarrow> epoll_sync (snd (event_del_read c))"
  "epoll_sync c \<Longrightarrow> epoll_sync (snd (event_del_write c))"
  by (simp_all add: event_del_read_def event_del_write_def epoll_del_event_sync)

lemma epoll_connection_sync:
  "epoll_sync c \<Longrightarrow> epoll_sync (snd (epoll_add_connection c))"
  "epoll_sync c \<Longrightarrow> epoll_sync (snd (epoll_del_connection c False))"
  by (auto simp: epoll_defs epoll_ctl_def conn_ev_defs epoll_sync_def Let_def split: option.splits)

lemma conn_close_sync:
  assumes "epoll_sync c" "c_has_base c \<or> c_interest c = None"
  shows "epoll_sync (conn_close c) \<and> (0 < c_fd c \<longrightarrow> c_interest (conn_close c) = None \<and> c_fd (conn_close c) = NGX_INVALID_FILE)"
  using assms by (auto simp: conn_close_def event_timer_clear_def epoll_del_connection_def conn_ev_defs
      epoll_sync_def Let_def)

text \<open>The bytes that the kernel will deliver, in order.\<close>

definition rx_bytes :: "rx_ans list \<Rightarrow> u8 list" where
  "rx_bytes rs = concat (map (\<lambda>r. case r of Rx_data d \<Rightarrow> d | _ \<Rightarrow> []) rs)"

lemma rx_bytes_simps [simp]:
  "rx_bytes [] = []" "rx_bytes (Rx_data d # rs) = d @ rx_bytes rs" "rx_bytes (Rx_eintr # rs) = rx_bytes rs"
  "rx_bytes (Rx_eagain # rs) = rx_bytes rs" "rx_bytes (Rx_err # rs) = rx_bytes rs"
  by (simp_all add: rx_bytes_def)

lemma sysio_recv_loop_bytes:
  "sysio_recv_loop sz rs = (n, d, rs') \<Longrightarrow> 0 < sz \<Longrightarrow>
    rx_bytes rs = d @ rx_bytes rs' \<and> length d \<le> sz \<and>
    (if 0 \<le> n then n = int (length d) else d = [] \<and> (n = NGX_AGAIN \<or> n = NGX_ERROR))"
  by (induction sz rs rule: sysio_recv_loop.induct) (auto simp: ngx_codes split: if_splits)

text \<open>A stream of data with no end and no error in sight.\<close>

definition rx_plain :: "rx_ans list \<Rightarrow> bool" where
  "rx_plain rs \<longleftrightarrow> (\<forall>r\<in>set rs. case r of Rx_data d \<Rightarrow> d \<noteq> [] | Rx_eintr \<Rightarrow> True | _ \<Rightarrow> False)"

lemma sysio_recv_loop_plain:
  "sysio_recv_loop sz rs = (n, d, rs') \<Longrightarrow> 0 < sz \<Longrightarrow> rx_plain rs \<Longrightarrow>
    rx_plain rs' \<and> (0 < n \<or> n = NGX_AGAIN \<and> rs' = [])"
  by (induction sz rs rule: sysio_recv_loop.induct) (auto simp: rx_plain_def split: if_splits)

lemma sysio_send_loop_bytes:
  "sysio_send_loop ts c buf = (n, c') \<Longrightarrow>
    (if 0 \<le> n then n \<le> int (length buf) \<and> c_sent_bytes c' = c_sent_bytes c @ take (nat n) buf
     else c_sent_bytes c' = c_sent_bytes c \<and> (n = NGX_AGAIN \<or> n = NGX_ERROR)) \<and>
    c_rx c' = c_rx c \<and> length (c_tx c') \<le> length ts \<and> (0 \<le> n \<longrightarrow> length (c_tx c') < length ts)"
  by (induction ts c buf rule: sysio_send_loop.induct)
    (auto simp: ngx_codes conn_ev_defs Let_def min_def split: if_splits)

section \<open>Properties\<close>

text \<open>The operations that the code applies to the registration of a connection: \<open>Op_add\<close> and \<open>Op_del\<close> are the direct calls of
  \<^verbatim>\<open>epoll_add_event\<close> (\<^verbatim>\<open>notice_init\<close>, \<^verbatim>\<open>conn_listening_add_event\<close>, \<^verbatim>\<open>channel_add_event\<close>) and of \<^verbatim>\<open>epoll_del_event\<close>
  (\<^verbatim>\<open>conn_listening_del_event\<close>), \<open>Op_open\<close> is \<^verbatim>\<open>conn_set_default\<close>.\<close>

datatype conn_op = Op_add ev_side | Op_del ev_side | Op_handle_read | Op_handle_write | Op_del_read | Op_del_write | Op_add_conn | Op_del_conn
  | Op_recv nat | Op_send "u8 list" | Op_ready ev_side | Op_close | Op_open int

definition conn_step :: "conn_t \<Rightarrow> conn_op \<Rightarrow> conn_t" where
  "conn_step c op = (case op of
     Op_add s \<Rightarrow> snd (epoll_add_event c s)
   | Op_del s \<Rightarrow> snd (epoll_del_event c s False)
   | Op_handle_read \<Rightarrow> snd (event_handle_read c)
   | Op_handle_write \<Rightarrow> snd (event_handle_write c)
   | Op_del_read \<Rightarrow> snd (event_del_read c)
   | Op_del_write \<Rightarrow> snd (event_del_write c)
   | Op_add_conn \<Rightarrow> snd (epoll_add_connection c)
   | Op_del_conn \<Rightarrow> snd (epoll_del_connection c False)
   | Op_recv n \<Rightarrow> snd (snd (sysio_unix_recv c n))
   | Op_send bs \<Rightarrow> snd (sysio_unix_send c bs)
   | Op_ready s \<Rightarrow> upd_ev s (\<lambda>e. e\<lparr>ev_ready := True\<rparr>) c
   | Op_close \<Rightarrow> conn_close c
   | Op_open s \<Rightarrow> conn_set_default c s)"

text \<open>What the callers have to ensure, since the operations do not test it: an event is added directly only while it is not active
  (the callers do so on connections they have just set up), and a connection is set up anew only when its old descriptor is out of the
  \<^verbatim>\<open>epoll\<close> set (the callers do so on new connections and on those back in the pool, which are closed). Without
  the former the property fails, by \<open>epoll_readd_desync\<close>.\<close>

definition op_pre :: "conn_t \<Rightarrow> conn_op \<Rightarrow> bool" where
  "op_pre c op = (case op of Op_add s \<Rightarrow> \<not> ev_active (get_ev s c) | Op_open s \<Rightarrow> c_interest c = None | _ \<Rightarrow> True)"

fun ops_pre :: "conn_t \<Rightarrow> conn_op list \<Rightarrow> bool" where
  "ops_pre c [] = True"
| "ops_pre c (op # ops) = (op_pre c op \<and> ops_pre (conn_step c op) ops)"

lemma sysio_send_sync: "epoll_sync (snd (sysio_send_loop ts c bs)) = epoll_sync c \<and>
    c_has_base (snd (sysio_send_loop ts c bs)) = c_has_base c"
  by (induction ts c bs rule: sysio_send_loop.induct) (auto simp: Let_def epoll_sync_def conn_ev_defs)

lemma has_base_upd [simp]: "c_has_base (upd_ev s f c) = c_has_base c"
  by (simp add: upd_ev_def)

lemma has_base_ctl [simp]: "c_has_base (snd (epoll_ctl c op ev)) = c_has_base c"
  by (simp add: epoll_ctl_def Let_def)

lemma has_base_epoll [simp]:
  "c_has_base (snd (epoll_add_event c s)) = c_has_base c"
  "c_has_base (snd (epoll_del_event c s b)) = c_has_base c"
  "c_has_base (snd (epoll_add_connection c)) = c_has_base c"
  "c_has_base (snd (epoll_del_connection c b)) = c_has_base c"
  by (simp_all add: epoll_add_event_def epoll_del_event_def epoll_add_connection_def epoll_del_connection_def
      epoll_ctl_def set_both_active_def Let_def split: prod.splits)

lemma has_base_event [simp]:
  "c_has_base (snd (event_handle_read c)) = c_has_base c"
  "c_has_base (snd (event_handle_write c)) = c_has_base c"
  "c_has_base (snd (event_del_read c)) = c_has_base c"
  "c_has_base (snd (event_del_write c)) = c_has_base c"
  by (simp_all add: event_handle_read_def event_handle_write_def event_del_read_def event_del_write_def
      case_prod_beta)

lemma has_base_close [simp]: "c_has_base (conn_close c) = c_has_base c"
  by (simp add: conn_close_def event_timer_clear_def Let_def)

lemma conn_step_base: "c_has_base (conn_step c op) = c_has_base c"
  using sysio_send_sync[of "c_tx c" c]
  by (cases op) (simp_all add: conn_step_def sysio_unix_recv_def sysio_unix_send_def conn_set_default_def
      Let_def split: prod.splits)

lemma conn_step_sync:
  assumes "epoll_sync c" "c_has_base c" "op_pre c op"
  shows "epoll_sync (conn_step c op)"
proof (cases op)
  case Op_close
  then show ?thesis using conn_close_sync assms by (simp add: conn_step_def)
next
  case (Op_open s)
  then show ?thesis using assms by (simp add: conn_step_def op_pre_def conn_set_default_def epoll_sync_def ev_zero_def Let_def)
next
  case (Op_add s)
  then show ?thesis using assms epoll_add_event_sync by (simp add: conn_step_def op_pre_def)
next
  case (Op_del s)
  then show ?thesis using assms epoll_del_event_sync by (simp add: conn_step_def)
next
  case (Op_recv n)
  then show ?thesis using assms
    by (simp add: conn_step_def sysio_unix_recv_def epoll_sync_def split: prod.splits)
next
  case (Op_send bs)
  then show ?thesis using assms sysio_send_sync by (simp add: conn_step_def sysio_unix_send_def)
qed (use assms event_handle_read_sync event_handle_write_sync event_del_sync epoll_connection_sync in
  \<open>simp_all add: conn_step_def\<close>)


definition ex_conn :: conn_t where
  "ex_conn = \<lparr>c_fd = 5, c_has_data = False, c_read = ev_zero, c_write = ev_zero, c_has_timer = True,
     c_has_base = True, c_has_pool = False, c_interest = None, c_ctl = [], c_rx = [], c_tx = [],
     c_sent_bytes = []\<rparr>"


end
