(* ===== verification/Nn_Conn.thy ===== *)
theory Nn_Conn
  imports Nn_TaskQueue Dfs_Conn
begin

text \<open>
  The client connections of the server, \<^verbatim>\<open>src/src/nn_request.h\<close> and \<^verbatim>\<open>nn_request.cpp\<close>: receiving
  and decoding tasks, sending the answers, and the life cycle of the connection and of its pool of
  task nodes. The rings \<open>free_task\<close> and \<open>out_task\<close> are the lists that \<open>is_queue\<close> assigns to them,
  head first (\<open>Dfs_Queue\<close> shows that the ring operations act on that list); unlinked nodes that
  are linked again while they are on a ring would corrupt it, which is undefined here.
\<close>

section \<open>State\<close>

datatype conn_state = ST_CONNCECTED | ST_DISCONNCECTED

text \<open>
  \<open>mc_pool\<close> says whether the memory pool, in which the structure itself and its nodes live, still
  exists. \<open>mc_task\<close> are the tasks in the nodes, \<open>mc_heap\<close> the \<^verbatim>\<open>malloc\<close>ed payload blocks,
  \<open>mc_in_addr\<close> the address of the input buffer. \<open>mc_dispatched\<close> records the calls of
  \<^verbatim>\<open>dispatch_task\<close> with the task at that moment, \<open>mc_released\<close> the connections given back.
\<close>

record nn_conn_t =
  mc_connection :: "conn_t option"
  mc_in :: buffer_t
  mc_out :: buffer_t
  mc_out_task :: "addr list"
  mc_free_task :: "addr list"
  mc_read_handler :: bool
  mc_write_handler :: bool
  mc_count :: int
  mc_slow :: int
  mc_max_task :: int
  mc_state :: conn_state
  mc_timer_set :: bool
  mc_pool :: bool
  mc_task :: "addr \<Rightarrow> task_t"
  mc_heap :: "u64 \<Rightarrow> u8 list option"
  mc_in_addr :: u64
  mc_dispatched :: "(addr \<times> task_t) list"
  mc_released :: "conn_t list"

text \<open>Every access to the structure needs its pool.\<close>

definition alive :: "nn_conn_t \<Rightarrow> unit option" where
  "alive mc = (if mc_pool mc then Some () else None)"

text \<open>The bytes a payload pointer leads to: a heap block, or the input buffer.\<close>

definition mc_mem :: "nn_conn_t \<Rightarrow> u64 \<Rightarrow> u8 list option" where
  "mc_mem mc p = (case mc_heap mc p of Some d \<Rightarrow> Some d
     | None \<Rightarrow> (if mc_in_addr mc \<le> p \<and> unat (p - mc_in_addr mc) < b_end (mc_in mc)
               then Some (drop (unat (p - mc_in_addr mc)) (b_mem (mc_in mc))) else None))"

section \<open>Task nodes\<close>

definition nn_conn_get_task :: "nn_conn_t \<Rightarrow> (addr \<times> nn_conn_t) option" where
  "nn_conn_get_task mc =
     (if mc_max_task mc \<le> mc_count mc then Some (nullptr, mc)
      else (case mc_free_task mc of
        [] \<Rightarrow> None
      | x # xs \<Rightarrow> Some (x, mc\<lparr>mc_free_task := xs, mc_count := mc_count mc + 1\<rparr>)))"

definition pool_destroy :: "nn_conn_t \<Rightarrow> nn_conn_t option" where
  "pool_destroy mc = (if mc_pool mc then Some (mc\<lparr>mc_pool := False\<rparr>) else None)"

text \<open>The part of \<^verbatim>\<open>nn_conn_finalize\<close> that runs in the disconnected state.\<close>

definition nn_conn_finalize_rest :: "nn_conn_t \<Rightarrow> nn_conn_t option" where
  "nn_conn_finalize_rest mc = (if 0 < mc_count mc then Some mc else pool_destroy mc)"

definition task_free_data :: "nn_conn_t \<Rightarrow> addr \<Rightarrow> nn_conn_t option" where
  "task_free_data mc x =
     (let t = mc_task mc x in
      if t_data t \<noteq> 0 \<and> 0 < sint (t_data_len t) then
        (if mc_heap mc (t_data t) = None then None
         else Some (mc\<lparr>mc_heap := (mc_heap mc)(t_data t := None), mc_task := (mc_task mc)(x := t\<lparr>t_data := 0\<rparr>)\<rparr>))
      else Some mc)"

text \<open>
  \<^verbatim>\<open>nn_conn_free_task\<close>: in its last branch the state is disconnected, where \<^verbatim>\<open>nn_conn_finalize\<close>
  is \<open>nn_conn_finalize_rest\<close>.
\<close>

definition nn_conn_free_task :: "nn_conn_t \<Rightarrow> addr \<Rightarrow> nn_conn_t option" where
  "nn_conn_free_task mc q = do {
     alive mc;
     let mc = mc\<lparr>mc_count := mc_count mc - 1\<rparr>;
     mc \<leftarrow> task_free_data mc q;
     if q \<in> set (mc_free_task mc) \<union> set (mc_out_task mc) then None else do {
       let mc = mc\<lparr>mc_free_task := mc_free_task mc @ [q]\<rparr>;
       if mc_state mc = ST_DISCONNCECTED \<and> mc_count mc = 0 then nn_conn_finalize_rest mc
       else Some mc } }"

lemma task_free_data_out: "task_free_data mc x = Some mc' \<Longrightarrow> mc_out_task mc' = mc_out_task mc"
  by (auto simp: task_free_data_def Let_def split: if_splits)

lemma nn_conn_free_task_out: "nn_conn_free_task mc x = Some mc' \<Longrightarrow> mc_out_task mc' = mc_out_task mc"
  by (auto simp: nn_conn_free_task_def nn_conn_finalize_rest_def pool_destroy_def alive_def Let_def
      Option.bind_eq_Some_conv split: if_splits dest!: task_free_data_out)

function nn_conn_free_queue :: "nn_conn_t \<Rightarrow> nn_conn_t option" where
  "nn_conn_free_queue mc =
     (case mc_out_task mc of
        [] \<Rightarrow> Some mc
      | qn # qs \<Rightarrow> (case nn_conn_free_task (mc\<lparr>mc_out_task := qs\<rparr>) qn of
          None \<Rightarrow> None
        | Some mc' \<Rightarrow> nn_conn_free_queue mc'))"
  by auto

termination
  by (relation "measure (\<lambda>mc. length (mc_out_task mc))") (auto dest: nn_conn_free_task_out)

declare nn_conn_free_queue.simps [simp del]

definition nn_conn_close :: "nn_conn_t \<Rightarrow> nn_conn_t" where
  "nn_conn_close mc = (case mc_connection mc of
     None \<Rightarrow> mc
   | Some c \<Rightarrow> mc\<lparr>mc_connection := None,
       mc_released := mc_released mc @ [conn_release (c\<lparr>c_has_data := False\<rparr>)]\<rparr>)"

definition nn_conn_update_state :: "nn_conn_t \<Rightarrow> conn_state \<Rightarrow> nn_conn_t" where
  "nn_conn_update_state mc st = mc\<lparr>mc_state := st\<rparr>"

definition nn_conn_get_state :: "nn_conn_t \<Rightarrow> conn_state" where
  "nn_conn_get_state mc = mc_state mc"

definition nn_conn_is_connected :: "nn_conn_t \<Rightarrow> bool" where
  "nn_conn_is_connected mc \<longleftrightarrow> mc_state mc = ST_CONNCECTED"

definition nn_conn_finalize :: "nn_conn_t \<Rightarrow> nn_conn_t option" where
  "nn_conn_finalize mc = do {
     alive mc;
     mc \<leftarrow> (if mc_state mc = ST_CONNCECTED then do {
        mc \<leftarrow> (if mc_timer_set mc then
           (case mc_connection mc of None \<Rightarrow> None | Some c \<Rightarrow> Some (mc\<lparr>mc_timer_set := False\<rparr>))
         else Some mc);
        mc \<leftarrow> nn_conn_free_queue (nn_conn_close mc);
        Some (nn_conn_update_state mc ST_DISCONNCECTED) }
      else Some mc);
     nn_conn_finalize_rest mc }"

section \<open>Sending\<close>

text \<open>Every round takes an answer from the finite list of answers of the kernel, so this is a total function: that the kernel
  answers 0 to \<^verbatim>\<open>send\<close> without end, on which the loop of the code would not end, is not represented.\<close>

function nn_conn_out_loop :: "conn_t \<Rightarrow> buffer_t \<Rightarrow> nat \<Rightarrow> int \<times> conn_t \<times> buffer_t" where
  "nn_conn_out_loop c b sz =
     (if sz = 0 then (NGX_OK, c, buffer_reset b)
      else (case sysio_unix_send c (take sz (drop (b_pos b) (b_mem b))) of (rc, c') \<Rightarrow>
        if rc < 0 then (rc, c', b)
        else nn_conn_out_loop c' (b\<lparr>b_pos := b_pos b + nat rc\<rparr>) (sz - nat rc)))"
  by auto

termination
proof (relation "measure (\<lambda>(c, b, sz). length (c_tx c))", goal_cases)
  case (2 c b sz rc c')
  then show ?case using sysio_send_loop_bytes[of "c_tx c" c "take sz (drop (b_pos b) (b_mem b))" rc c']
    by (auto simp: sysio_unix_send_def)
qed simp

declare nn_conn_out_loop.simps [simp del]

definition nn_conn_out_buffer :: "conn_t \<Rightarrow> buffer_t \<Rightarrow> int \<times> conn_t \<times> buffer_t" where
  "nn_conn_out_buffer c b =
     (if \<not> ev_ready (c_write c) then (NGX_AGAIN, c, b)
      else nn_conn_out_loop c b (nat (buffer_size b)))"

text \<open>The loop of \<^verbatim>\<open>nn_conn_output\<close> that packs the queued tasks into the output buffer.\<close>

partial_function (option) nn_conn_pack :: "nn_conn_t \<Rightarrow> nn_conn_t option" where
  "nn_conn_pack mc =
     (case mc_out_task mc of
        [] \<Rightarrow> Some mc
      | qe # qs \<Rightarrow> do {
          (rc, b) \<leftarrow> task_encode (mc_mem mc) (mc_task mc qe) (mc_out mc);
          let mc = mc\<lparr>mc_out := b\<rparr>;
          if rc = NGX_OK then do {
            mc \<leftarrow> nn_conn_free_task (mc\<lparr>mc_out_task := qs\<rparr>) qe;
            nn_conn_pack mc }
          else if rc = NGX_AGAIN then Some mc
          else if rc = NGX_ERROR then do {
            mc \<leftarrow> nn_conn_free_task (mc\<lparr>mc_out_task := qs\<rparr>) qe;
            nn_conn_pack mc }
          else nn_conn_pack mc })"

partial_function (option) nn_conn_repack :: "nn_conn_t \<Rightarrow> (int \<times> nn_conn_t) option" where
  "nn_conn_repack mc = do {
     b \<leftarrow> buffer_shrink (mc_out mc);
     mc \<leftarrow> nn_conn_pack (mc\<lparr>mc_out := b\<rparr>);
     if buffer_size (mc_out mc) = 0 then Some (NGX_OK, mc)
     else do {
       c \<leftarrow> mc_connection mc;
       let (rc, c, b) = nn_conn_out_buffer c (mc_out mc);
       let mc = mc\<lparr>mc_connection := Some c, mc_out := b\<rparr>;
       if rc = NGX_ERROR then do {
         mc \<leftarrow> nn_conn_finalize mc;
         Some (NGX_ERROR, mc) }
       else if rc = NGX_AGAIN then
         (case event_handle_write c of (r, c) \<Rightarrow>
            if r = NGX_ERROR then Some (NGX_ERROR, mc\<lparr>mc_connection := Some c\<rparr>)
            else Some (NGX_AGAIN, mc\<lparr>mc_connection := Some (upd_ev EVENT_WRITE_EVENT (\<lambda>e. e\<lparr>ev_timer_set := True\<rparr>) c)\<rparr>))
       else nn_conn_repack mc } }"

definition nn_conn_output :: "nn_conn_t \<Rightarrow> (int \<times> nn_conn_t) option" where
  "nn_conn_output mc = do {
     alive mc;
     c \<leftarrow> mc_connection mc;
     if \<not> ev_ready (c_write c) \<and> 0 < buffer_size (mc_out mc) then Some (NGX_AGAIN, mc)
     else nn_conn_repack (mc\<lparr>mc_write_handler := True\<rparr>) }"

definition nn_conn_outtask :: "nn_conn_t \<Rightarrow> addr \<Rightarrow> (int \<times> nn_conn_t) option" where
  "nn_conn_outtask mc node = do {
     alive mc;
     if mc_state mc \<noteq> ST_CONNCECTED then do {
       mc \<leftarrow> nn_conn_free_task mc node;
       Some (NGX_OK, mc) }
     else if node \<in> set (mc_free_task mc) \<union> set (mc_out_task mc) then None
     else nn_conn_output (mc\<lparr>mc_out_task := mc_out_task mc @ [node]\<rparr>) }"

section \<open>Receiving\<close>

partial_function (option) nn_conn_recv :: "nn_conn_t \<Rightarrow> (int \<times> nn_conn_t) option" where
  "nn_conn_recv mc = do {
     b \<leftarrow> buffer_shrink (mc_in mc);
     let mc = mc\<lparr>mc_in := b\<rparr>;
     let blen = buffer_free_size b;
     if blen = 0 then Some (NGX_BUFFER_FULL, mc)
     else do {
       c \<leftarrow> mc_connection mc;
       let (n, d, c) = sysio_unix_recv c (nat blen);
       m \<leftarrow> wrn (b_mem b) (b_last b) d;
       let mc = mc\<lparr>mc_connection := Some c, mc_in := b\<lparr>b_mem := m\<rparr>\<rparr>;
       if 0 < n then nn_conn_recv (mc\<lparr>mc_in := b\<lparr>b_mem := m, b_last := b_last b + nat n\<rparr>\<rparr>)
       else if n = 0 then Some (NGX_CONN_CLOSED, mc)
       else if n = NGX_ERROR then Some (NGX_ERROR, mc)
       else if n = NGX_AGAIN then Some (NGX_AGAIN, mc)
       else nn_conn_recv mc } }"

definition note_dispatch :: "nn_conn_t \<Rightarrow> addr \<Rightarrow> nn_conn_t" where
  "note_dispatch mc node = mc\<lparr>mc_dispatched := mc_dispatched mc @ [(node, mc_task mc node)]\<rparr>"

text \<open>The line that \<^verbatim>\<open>nn_conn_decode\<close> prints for every frame is left out; it prints the input buffer as a string, which nothing
  terminates.\<close>

partial_function (option) nn_conn_decode :: "nn_conn_t \<Rightarrow> (int \<times> nn_conn_t) option" where
  "nn_conn_decode mc = do {
     (node, mc) \<leftarrow> nn_conn_get_task mc;
     if node = nullptr then do {
       c \<leftarrow> mc_connection mc;
       Some (NGX_BUSY, mc\<lparr>mc_slow := 1, mc_connection := Some (snd (event_del_read c)), mc_timer_set := True\<rparr>) }
     else do {
       (rc, b, t) \<leftarrow> task_decode (mc_in_addr mc) (mc_in mc) (mc_task mc node);
       let mc = mc\<lparr>mc_in := b, mc_task := (mc_task mc)(node := t)\<rparr>;
       if rc = NGX_OK then nn_conn_decode (note_dispatch mc node)
       else if rc = NGX_ERROR then do {
         mc \<leftarrow> nn_conn_free_task mc node;
         Some (NGX_ERROR, mc\<lparr>mc_in := buffer_reset (mc_in mc)\<rparr>) }
       else if rc = NGX_AGAIN then do {
         mc \<leftarrow> nn_conn_free_task mc node;
         alive mc;
         b \<leftarrow> buffer_shrink (mc_in mc);
         Some (NGX_AGAIN, mc\<lparr>mc_in := b\<rparr>) }
       else nn_conn_decode mc } }"

section \<open>Event handlers\<close>

definition nn_conn_read_handler :: "nn_conn_t \<Rightarrow> nn_conn_t option" where
  "nn_conn_read_handler mc = do {
     alive mc;
     if mc_state mc = ST_DISCONNCECTED then Some mc
     else do {
       (rc, mc) \<leftarrow> nn_conn_recv mc;
       if rc = NGX_AGAIN \<or> rc = NGX_BUFFER_FULL then do {
         (rc, mc) \<leftarrow> nn_conn_decode mc;
         if rc = NGX_ERROR then nn_conn_finalize mc else Some mc }
       else nn_conn_finalize mc } }"

definition nn_conn_write_handler :: "nn_conn_t \<Rightarrow> nn_conn_t option" where
  "nn_conn_write_handler mc = do {
     alive mc;
     if mc_state mc = ST_DISCONNCECTED then Some mc
     else do {
       c \<leftarrow> mc_connection mc;
       if ev_timedout (c_write c) then nn_conn_finalize mc
       else do {
         (rc, mc) \<leftarrow> nn_conn_output (mc\<lparr>mc_connection := Some (event_timer_clear EVENT_WRITE_EVENT c)\<rparr>);
         Some mc } } }"

definition nn_conn_timer_handler :: "nn_conn_t \<Rightarrow> nn_conn_t option" where
  "nn_conn_timer_handler mc = do {
     alive mc;
     c \<leftarrow> mc_connection mc;
     let (r, c) = event_handle_read c;
     let mc = mc\<lparr>mc_timer_set := False, mc_connection := Some c\<rparr>;
     if r \<noteq> 0 then nn_conn_finalize mc
     else do {
       mc \<leftarrow> nn_conn_write_handler mc;
       nn_conn_read_handler mc } }"

definition nn_event_process_handler :: "bool \<Rightarrow> nn_conn_t \<Rightarrow> nn_conn_t option" where
  "nn_event_process_handler write mc = do {
     alive mc;
     if write then (if mc_write_handler mc then nn_conn_write_handler mc else Some mc)
     else (if mc_read_handler mc then nn_conn_read_handler mc else Some mc) }"

section \<open>Creation\<close>

text \<open>
  \<^verbatim>\<open>wb_node_t\<close> is a queue node followed by the write-back record \<^verbatim>\<open>wbt\<close>. The outcomes of the
  allocations are parameters: the pool, the connection structure, the two buffers and the array
  of nodes at \<open>buff\<close> with what the memory held before.
\<close>

definition sizeof_wb_node :: nat where "sizeof_wb_node = 368"

definition wbt_of :: "addr \<Rightarrow> u64" where
  "wbt_of node = of_nat (node + sizeof_task + 16)"

datatype init_result = Init_ok nn_conn_t | Init_failed conn_t bool

text \<open>The result of the error label: the released connection, and whether the pool was left allocated.\<close>

definition nn_conn_init ::
    "bool \<Rightarrow> bool \<Rightarrow> buffer_t option \<Rightarrow> buffer_t option \<Rightarrow> addr option \<Rightarrow> nat \<Rightarrow> (addr \<Rightarrow> task_t) \<Rightarrow> u64 \<Rightarrow>
     conn_t \<Rightarrow> init_result" where
  "nn_conn_init pool_ok mc_ok inb outb buff max_task mem in_addr c =
     (if \<not> pool_ok then Init_failed (conn_release c) False
      else if \<not> c_has_data c \<and> \<not> mc_ok then Init_failed (conn_release c) True
      else (case (inb, outb) of
        (Some i, Some q) \<Rightarrow>
          (case buff of
            None \<Rightarrow> Init_failed (conn_release (c\<lparr>c_has_data := True, c_has_base := True, c_has_timer := True\<rparr>)) False
          | Some a \<Rightarrow>
             (let nodes = map (\<lambda>k. a + k * sizeof_wb_node) [0..<max_task];
                  c = c\<lparr>c_has_data := True, c_has_base := True, c_has_timer := True,
                        c_read := (c_read c)\<lparr>ev_handler := True\<rparr>, c_write := (c_write c)\<lparr>ev_handler := True\<rparr>\<rparr> in
              case event_handle_read c of (r, c) \<Rightarrow>
                if r = NGX_ERROR then Init_failed (conn_release c) False
                else Init_ok \<lparr>mc_connection = Some c, mc_in = i, mc_out = q, mc_out_task = [],
                  mc_free_task = foldl (\<lambda>f x. x # f) [] nodes, mc_read_handler = True,
                  mc_write_handler = False, mc_count = 0, mc_slow = 0, mc_max_task = int max_task,
                  mc_state = ST_CONNCECTED, mc_timer_set = False, mc_pool = True,
                  mc_task = (\<lambda>x. if x \<in> set nodes then (mem x)\<lparr>t_opq := wbt_of x, t_data := 0\<rparr> else mem x),
                  mc_heap = (\<lambda>p. None), mc_in_addr = in_addr, mc_dispatched = [], mc_released = []\<rparr>))
      | _ \<Rightarrow> Init_failed (conn_release (c\<lparr>c_has_data := True\<rparr>)) False))"

section \<open>The invariant\<close>

text \<open>
  \<open>used\<close> are the nodes that are with the task threads. A node whose task owns a payload owns a heap
  block of its own.
\<close>

definition owned :: "(addr \<Rightarrow> task_t) \<Rightarrow> addr \<Rightarrow> u64 list" where
  "owned tk x = (if t_data (tk x) \<noteq> 0 \<and> 0 < sint (t_data_len (tk x)) then [t_data (tk x)] else [])"

definition conn_nodes :: "addr list \<Rightarrow> nn_conn_t \<Rightarrow> bool" where
  "conn_nodes used mc \<longleftrightarrow> distinct (mc_free_task mc @ mc_out_task mc @ used) \<and>
     nullptr \<notin> set (mc_free_task mc @ mc_out_task mc @ used) \<and>
     int (length (mc_free_task mc @ mc_out_task mc @ used)) = mc_max_task mc \<and>
     mc_count mc = int (length (mc_out_task mc) + length used)"

definition owned_ok :: "(addr \<Rightarrow> task_t) \<Rightarrow> (u64 \<Rightarrow> u8 list option) \<Rightarrow> addr list \<Rightarrow> addr list \<Rightarrow> bool" where
  "owned_ok tk heap free out \<longleftrightarrow> distinct (concat (map (owned tk) out)) \<and>
     (\<forall>x\<in>set out. \<forall>p\<in>set (owned tk x). heap p \<noteq> None) \<and> (\<forall>x\<in>set free. owned tk x = [])"

definition conn_owned :: "nn_conn_t \<Rightarrow> bool" where
  "conn_owned mc \<longleftrightarrow> owned_ok (mc_task mc) (mc_heap mc) (mc_free_task mc) (mc_out_task mc)"

definition conn_core :: "addr list \<Rightarrow> nn_conn_t \<Rightarrow> bool" where
  "conn_core used mc \<longleftrightarrow> mc_pool mc \<and> conn_nodes used mc \<and> conn_owned mc \<and>
     buffer_wf (mc_in mc) \<and> buffer_wf (mc_out mc)"

definition conn_inv :: "addr list \<Rightarrow> nn_conn_t \<Rightarrow> bool" where
  "conn_inv used mc \<longleftrightarrow> conn_core used mc \<and>
     (mc_state mc = ST_CONNCECTED \<longrightarrow> mc_connection mc \<noteq> None) \<and>
     (mc_state mc \<noteq> ST_CONNCECTED \<longrightarrow>
        mc_connection mc = None \<and> mc_out_task mc = [] \<and> used \<noteq> [] \<and> \<not> mc_timer_set mc)"

lemmas conn_inv_defs = conn_inv_def conn_core_def conn_nodes_def conn_owned_def
lemmas conn_core_defs = conn_core_def conn_nodes_def conn_owned_def

lemma map_owned_cong: "(\<And>x. x \<in> set xs \<Longrightarrow> tk x = tk' x) \<Longrightarrow> map (owned tk) xs = map (owned tk') xs"
  by (simp add: owned_def)

lemma owned_ok_upd [simp]:
  assumes "x \<notin> set free" "x \<notin> set out"
  shows "owned_ok (tk(x := t)) heap free out = owned_ok tk heap free out"
proof -
  have o: "owned (tk(x := t)) y = owned tk y" if "y \<in> set free \<union> set out" for y
    using that assms by (auto simp: owned_def)
  then have "map (owned (tk(x := t))) out = map (owned tk) out" by auto
  then show ?thesis using o unfolding owned_ok_def by (metis UnI1 UnI2)
qed

lemma owned_ok_Cons: "owned_ok tk heap (x # xs) out \<longleftrightarrow> owned tk x = [] \<and> owned_ok tk heap xs out"
  by (auto simp: owned_ok_def)

section \<open>Decoding\<close>

text \<open>
  What the decoder dispatches for a sequence of frames: the \<open>k\<close>-th free node with the \<open>k\<close>-th task,
  whose payload pointer leads to the payload in the input buffer.
\<close>

fun arrivals :: "(addr \<Rightarrow> task_t) \<Rightarrow> u64 \<Rightarrow> nat \<Rightarrow> addr list \<Rightarrow> (task_t \<times> u8 list) list \<Rightarrow> (addr \<times> task_t) list" where
  "arrivals tk base pos (x # xs) ((t, pl) # tps) =
     (x, received (t_opq (tk x)) (base + of_nat (pos + 344)) t) # arrivals tk base (pos + 344 + length pl) xs tps"
| "arrivals tk base pos _ _ = []"

definition frames :: "(task_t \<times> u8 list) list \<Rightarrow> u8 list" where
  "frames tps = concat (map (\<lambda>(t, pl). frame t pl) tps)"

definition all_framable :: "(task_t \<times> u8 list) list \<Rightarrow> bool" where
  "all_framable tps \<longleftrightarrow> (\<forall>(t, pl)\<in>set tps. framable t pl)"

lemma frames_simps [simp]: "frames [] = []" "frames ((t, pl) # tps) = frame t pl @ frames tps"
  "frames (xs @ ys) = frames xs @ frames ys"
  by (simp_all add: frames_def)

lemma all_framable_simps [simp]: "all_framable []" "all_framable ((t, pl) # tps) \<longleftrightarrow> framable t pl \<and> all_framable tps"
  "all_framable (xs @ ys) \<longleftrightarrow> all_framable xs \<and> all_framable ys"
  by (auto simp: all_framable_def)

lemma arrivals_cong: "(\<And>x. x \<in> set xs \<Longrightarrow> tk x = tk' x) \<Longrightarrow> arrivals tk base pos xs tps = arrivals tk' base pos xs tps"
  by (induction tk base pos xs tps rule: arrivals.induct) auto

lemma nn_conn_get_task_Some:
  assumes "conn_inv used mc" "mc_free_task mc = x # xs"
  shows "nn_conn_get_task mc = Some (x, mc\<lparr>mc_free_task := xs, mc_count := mc_count mc + 1\<rparr>)" "x \<noteq> nullptr"
  using assms by (auto simp: nn_conn_get_task_def conn_inv_defs)

lemma conn_inv_take:
  assumes "conn_inv used mc" "mc_free_task mc = x # xs"
  shows "conn_inv (used @ [x]) (mc\<lparr>mc_free_task := xs, mc_count := mc_count mc + 1, mc_task := (mc_task mc)(x := t)\<rparr>)"
proof -
  have "x \<notin> set (mc_out_task mc)" "x \<notin> set xs" using assms by (auto simp: conn_inv_defs)
  then show ?thesis using assms
    by (auto simp: conn_inv_defs owned_ok_Cons split: conn_state.splits)
qed

text \<open>The fields that decoding does not touch.\<close>

definition same_rest :: "nn_conn_t \<Rightarrow> nn_conn_t \<Rightarrow> bool" where
  "same_rest mc mc' \<longleftrightarrow> mc_connection mc' = mc_connection mc \<and> mc_state mc' = mc_state mc \<and>
     mc_out mc' = mc_out mc \<and> mc_out_task mc' = mc_out_task mc \<and> mc_heap mc' = mc_heap mc \<and>
     mc_in_addr mc' = mc_in_addr mc \<and> mc_timer_set mc' = mc_timer_set mc"

lemma nn_conn_decode_frame:
  assumes inv: "conn_inv used mc" and free: "mc_free_task mc = x # xs" and f: "framable t pl"
    and d: "buffer_data (mc_in mc) = frame t pl @ rest"
  shows "\<exists>mc1. nn_conn_decode mc = nn_conn_decode mc1 \<and> conn_inv (used @ [x]) mc1 \<and> mc_free_task mc1 = xs \<and>
    buffer_data (mc_in mc1) = rest \<and> b_pos (mc_in mc1) = b_pos (mc_in mc) + 344 + length pl \<and>
    mc_dispatched mc1 = mc_dispatched mc @ [(x, received (t_opq (mc_task mc x)) (mc_in_addr mc + of_nat (b_pos (mc_in mc) + 344)) t)] \<and>
    (\<forall>y. y \<noteq> x \<longrightarrow> mc_task mc1 y = mc_task mc y) \<and> same_rest mc mc1"
proof -
  let ?b = "buffer_pull (mc_in mc) (344 + length pl)"
  let ?t = "received (t_opq (mc_task mc x)) (mc_in_addr mc + of_nat (b_pos (mc_in mc) + 344)) t"
  define mc1 where "mc1 = note_dispatch (mc\<lparr>mc_free_task := xs, mc_count := mc_count mc + 1,
    mc_in := ?b, mc_task := (mc_task mc)(x := ?t)\<rparr>) x"
  have wf: "buffer_wf (mc_in mc)" using inv by (simp add: conn_inv_def conn_core_def)
  have step: "nn_conn_decode mc = nn_conn_decode mc1"
    by (subst nn_conn_decode.simps)
      (simp add: nn_conn_get_task_Some[OF inv free] task_decode_frame[OF wf f d] mc1_def note_dispatch_def Let_def)
  have b: "buffer_wf ?b" "buffer_data ?b = rest"
    using buffer_wf_pull[OF wf, of "344 + length pl"] buffer_data_pull[OF d wf] d f
    by (simp_all del: length_buffer_data)
  have "conn_inv (used @ [x]) mc1"
    using conn_inv_take[OF inv free, of ?t] b(1)
    by (simp add: mc1_def note_dispatch_def conn_inv_defs)
  then show ?thesis using step b(2)
    by (intro exI[of _ mc1]) (simp add: mc1_def note_dispatch_def buffer_pull_def same_rest_def)
qed

lemma nn_conn_decode_frames:
  assumes "conn_inv used mc" "all_framable tps" "buffer_data (mc_in mc) = frames tps @ rest"
    "length tps \<le> length (mc_free_task mc)"
  shows "\<exists>mc1. nn_conn_decode mc = nn_conn_decode mc1 \<and> conn_inv (used @ take (length tps) (mc_free_task mc)) mc1 \<and>
    mc_free_task mc1 = drop (length tps) (mc_free_task mc) \<and> buffer_data (mc_in mc1) = rest \<and>
    mc_dispatched mc1 = mc_dispatched mc @ arrivals (mc_task mc) (mc_in_addr mc) (b_pos (mc_in mc)) (mc_free_task mc) tps \<and>
    same_rest mc mc1"
  using assms
proof (induction tps arbitrary: used mc)
  case Nil
  then show ?case by (auto simp: same_rest_def)
next
  case (Cons tp tps)
  obtain t pl where tp: "tp = (t, pl)" by force
  from Cons.prems(4) obtain x xs where free: "mc_free_task mc = x # xs" by (cases "mc_free_task mc") auto
  have "framable t pl" "buffer_data (mc_in mc) = frame t pl @ (frames tps @ rest)"
    using Cons.prems(2,3) by (auto simp: tp)
  from nn_conn_decode_frame[OF Cons.prems(1) free this] obtain mc1 where
    m1: "nn_conn_decode mc = nn_conn_decode mc1" "conn_inv (used @ [x]) mc1" "mc_free_task mc1 = xs"
    "buffer_data (mc_in mc1) = frames tps @ rest" "b_pos (mc_in mc1) = b_pos (mc_in mc) + 344 + length pl"
    "mc_dispatched mc1 = mc_dispatched mc @ [(x, received (t_opq (mc_task mc x)) (mc_in_addr mc + of_nat (b_pos (mc_in mc) + 344)) t)]"
    "\<forall>y. y \<noteq> x \<longrightarrow> mc_task mc1 y = mc_task mc y" "same_rest mc mc1" by blast
  have "x \<notin> set xs" using Cons.prems(1) free by (auto simp: conn_inv_defs)
  then have arr: "arrivals (mc_task mc1) base pos xs tps = arrivals (mc_task mc) base pos xs tps" for base pos
    using m1(7) by (intro arrivals_cong) metis
  from Cons.IH[OF m1(2) _ m1(4)] Cons.prems(2,4) obtain mc2 where
    "nn_conn_decode mc1 = nn_conn_decode mc2" "conn_inv ((used @ [x]) @ take (length tps) xs) mc2"
    "mc_free_task mc2 = drop (length tps) xs" "buffer_data (mc_in mc2) = rest"
    "mc_dispatched mc2 = mc_dispatched mc1 @ arrivals (mc_task mc1) (mc_in_addr mc1) (b_pos (mc_in mc1)) xs tps"
    "same_rest mc1 mc2"
    by (auto simp: tp free m1(3))
  then show ?case using m1(1,5,6,8) arr
    by (intro exI[of _ mc2]) (simp add: tp free same_rest_def add.assoc)
qed

section \<open>Giving a node back\<close>

definition without_data :: "nn_conn_t \<Rightarrow> addr \<Rightarrow> nn_conn_t" where
  "without_data mc q = (case owned (mc_task mc) q of
     [] \<Rightarrow> mc
   | p # _ \<Rightarrow> mc\<lparr>mc_heap := (mc_heap mc)(p := None), mc_task := (mc_task mc)(q := (mc_task mc q)\<lparr>t_data := 0\<rparr>)\<rparr>)"

definition freed :: "nn_conn_t \<Rightarrow> addr \<Rightarrow> nn_conn_t" where
  "freed mc q = (without_data mc q)\<lparr>mc_count := mc_count mc - 1, mc_free_task := mc_free_task mc @ [q]\<rparr>"

lemma owned_cases:
  obtains "owned tk q = []" "\<not> (t_data (tk q) \<noteq> 0 \<and> 0 < sint (t_data_len (tk q)))"
  | "owned tk q = [t_data (tk q)]" "t_data (tk q) \<noteq> 0" "0 < sint (t_data_len (tk q))"
  by (auto simp: owned_def split: if_splits)

lemma without_data_simps [simp]:
  "mc_free_task (without_data mc q) = mc_free_task mc" "mc_out_task (without_data mc q) = mc_out_task mc"
  "mc_pool (without_data mc q) = mc_pool mc" "mc_state (without_data mc q) = mc_state mc"
  "mc_count (without_data mc q) = mc_count mc" "mc_max_task (without_data mc q) = mc_max_task mc"
  "mc_in (without_data mc q) = mc_in mc" "mc_out (without_data mc q) = mc_out mc"
  "mc_connection (without_data mc q) = mc_connection mc" "mc_timer_set (without_data mc q) = mc_timer_set mc"
  "mc_dispatched (without_data mc q) = mc_dispatched mc" "mc_in_addr (without_data mc q) = mc_in_addr mc"
  "mc_released (without_data mc q) = mc_released mc"
  "y \<noteq> q \<Longrightarrow> mc_task (without_data mc q) y = mc_task mc y"
  "owned (mc_task (without_data mc q)) q = []"
  "mc_heap (without_data mc q) p = (if p \<in> set (owned (mc_task mc) q) then None else mc_heap mc p)"
  by (simp_all add: without_data_def owned_def)

lemma freed_simps [simp]:
  "mc_free_task (freed mc q) = mc_free_task mc @ [q]" "mc_out_task (freed mc q) = mc_out_task mc"
  "mc_pool (freed mc q) = mc_pool mc" "mc_state (freed mc q) = mc_state mc"
  "mc_count (freed mc q) = mc_count mc - 1" "mc_max_task (freed mc q) = mc_max_task mc"
  "mc_in (freed mc q) = mc_in mc" "mc_out (freed mc q) = mc_out mc"
  "mc_connection (freed mc q) = mc_connection mc" "mc_timer_set (freed mc q) = mc_timer_set mc"
  "mc_dispatched (freed mc q) = mc_dispatched mc" "mc_in_addr (freed mc q) = mc_in_addr mc"
  "mc_released (freed mc q) = mc_released mc" "mc_task (freed mc q) = mc_task (without_data mc q)"
  "mc_heap (freed mc q) = mc_heap (without_data mc q)"
  by (simp_all add: freed_def)

text \<open>A task whose payload, if it has one, is a heap block that no queued task owns.\<close>

definition returnable :: "nn_conn_t \<Rightarrow> addr \<Rightarrow> bool" where
  "returnable mc q \<longleftrightarrow> (\<forall>p\<in>set (owned (mc_task mc) q).
     mc_heap mc p \<noteq> None \<and> p \<notin> set (concat (map (owned (mc_task mc)) (mc_out_task mc))))"

lemma task_free_data_eq:
  assumes "\<forall>p\<in>set (owned (mc_task mc) q). mc_heap mc p \<noteq> None"
  shows "task_free_data mc q = Some (without_data mc q)"
  using owned_cases[of "mc_task mc" q] assms
  by cases (auto simp: task_free_data_def without_data_def Let_def)

lemma without_data_count:
  "without_data (mc\<lparr>mc_count := n\<rparr>) q = (without_data mc q)\<lparr>mc_count := n\<rparr>"
  by (simp add: without_data_def split: list.splits)

lemma nn_conn_free_task_eq:
  assumes "mc_pool mc" "q \<notin> set (mc_free_task mc)" "q \<notin> set (mc_out_task mc)"
    "\<forall>p\<in>set (owned (mc_task mc) q). mc_heap mc p \<noteq> None"
  shows "\<not> (mc_state mc = ST_DISCONNCECTED \<and> mc_count mc = 1) \<Longrightarrow> nn_conn_free_task mc q = Some (freed mc q)"
    and "mc_state mc = ST_DISCONNCECTED \<Longrightarrow> mc_count mc = 1 \<Longrightarrow>
      nn_conn_free_task mc q = Some ((freed mc q)\<lparr>mc_pool := False\<rparr>)"
  using assms task_free_data_eq[of "mc\<lparr>mc_count := mc_count mc - 1\<rparr>" q]
  by (auto simp: nn_conn_free_task_def alive_def freed_def nn_conn_finalize_rest_def pool_destroy_def
      without_data_count Let_def)

lemma owned_freed:
  assumes ok: "owned_ok (mc_task mc) (mc_heap mc) (mc_free_task mc) outs" and q: "q \<notin> set (mc_free_task mc)" "q \<notin> set outs"
    and dj: "\<forall>p\<in>set (owned (mc_task mc) q). p \<notin> set (concat (map (owned (mc_task mc)) outs))"
  shows "owned_ok (mc_task (freed mc q)) (mc_heap (freed mc q)) (mc_free_task (freed mc q)) outs"
proof -
  have same: "owned (mc_task (without_data mc q)) y = owned (mc_task mc) y" if "y \<in> set outs \<union> set (mc_free_task mc)" for y
    using that q by (cases "y = q") (auto simp: owned_def)
  then have m: "map (owned (mc_task (without_data mc q))) outs = map (owned (mc_task mc)) outs" by simp
  have "p \<notin> set (owned (mc_task mc) q)" if "y \<in> set outs" "p \<in> set (owned (mc_task mc) y)" for y p
    using that dj by auto
  then show ?thesis using ok same unfolding owned_ok_def by (simp add: m)
qed

lemma conn_inv_freed:
  assumes inv: "conn_inv (us @ q # vs) mc" and ret: "returnable mc q"
    and st: "mc_state mc = ST_CONNCECTED \<or> us @ vs \<noteq> []"
  shows "nn_conn_free_task mc q = Some (freed mc q)" "conn_inv (us @ vs) (freed mc q)"
proof -
  have q: "mc_pool mc" "q \<notin> set (mc_free_task mc)" "q \<notin> set (mc_out_task mc)" using inv by (auto simp: conn_inv_defs)
  have "mc_state mc = ST_CONNCECTED \<or> mc_count mc \<noteq> 1"
    using inv st by (cases us; cases vs) (auto simp: conn_inv_defs)
  then show "nn_conn_free_task mc q = Some (freed mc q)"
    using nn_conn_free_task_eq[OF q] ret by (auto simp: returnable_def)
  have "owned_ok (mc_task (freed mc q)) (mc_heap (freed mc q)) (mc_free_task (freed mc q)) (mc_out_task mc)"
    using owned_freed[OF _ q(2,3)] inv ret by (auto simp: conn_inv_defs returnable_def)
  then show "conn_inv (us @ vs) (freed mc q)"
    using inv st by (auto simp: conn_inv_defs)
qed

section \<open>How decoding ends\<close>

lemma nn_conn_decode_again:
  assumes inv: "conn_inv used mc" and st: "mc_state mc = ST_CONNCECTED" and free: "mc_free_task mc = x # xs"
    and f: "framable t pl" "frame t pl = buffer_data (mc_in mc) @ miss" "miss \<noteq> []"
    and four: "4 \<le> length (buffer_data (mc_in mc)) \<or> buffer_data (mc_in mc) = []"
  shows "\<exists>mc'. nn_conn_decode mc = Some (NGX_AGAIN, mc') \<and> conn_inv used mc' \<and> mc_free_task mc' = xs @ [x] \<and>
    buffer_data (mc_in mc') = buffer_data (mc_in mc) \<and> b_pos (mc_in mc') = 0 \<and> mc_task mc' = mc_task mc \<and>
    mc_dispatched mc' = mc_dispatched mc \<and> mc_out_task mc' = mc_out_task mc \<and> mc_connection mc' = mc_connection mc \<and>
    mc_state mc' = mc_state mc \<and> mc_heap mc' = mc_heap mc \<and> mc_out mc' = mc_out mc"
proof -
  let ?m = "mc\<lparr>mc_free_task := xs, mc_count := mc_count mc + 1\<rparr>"
  have wf: "buffer_wf (mc_in mc)" using inv by (simp add: conn_inv_def conn_core_def)
  have inv1: "conn_inv (used @ [x]) ?m"
    using conn_inv_take[OF inv free, of "mc_task mc x"] by simp
  have o: "owned (mc_task mc) x = []" using inv free by (simp add: conn_inv_defs owned_ok_Cons)
  have inv2: "nn_conn_free_task ?m x = Some (freed ?m x)" "conn_inv used (freed ?m x)"
    using conn_inv_freed[of used x "[]" ?m] inv1 st o by (simp_all add: returnable_def)
  have dec: "task_decode (mc_in_addr mc) (mc_in mc) (mc_task mc x) = Some (NGX_AGAIN, mc_in mc, mc_task mc x)"
    using task_decode_partial[OF wf f four] .
  obtain b where b: "buffer_shrink (mc_in mc) = Some b" "buffer_wf b" "b_pos b = 0" "buffer_data b = buffer_data (mc_in mc)"
    using buffer_shrink_wf[OF wf] by blast
  have fr: "freed ?m x = mc\<lparr>mc_free_task := xs @ [x], mc_count := mc_count mc\<rparr>"
    using o by (simp add: freed_def without_data_def)
  have "nn_conn_decode mc = Some (NGX_AGAIN, (freed ?m x)\<lparr>mc_in := b\<rparr>)"
    using inv2(1) b(1) inv
    by (subst nn_conn_decode.simps)
      (simp add: nn_conn_get_task_Some[OF inv free] dec fr Let_def alive_def conn_inv_def conn_core_def)
  moreover have "conn_inv used ((freed ?m x)\<lparr>mc_in := b\<rparr>)"
    using inv2(2) b(2) unfolding fr by (simp add: conn_inv_defs)
  ultimately show ?thesis using b by (auto simp: fr)
qed

lemma nn_conn_decode_busy:
  assumes inv: "conn_inv used mc" and free: "mc_free_task mc = []" and c: "mc_connection mc = Some c"
  shows "nn_conn_decode mc = Some (NGX_BUSY, mc\<lparr>mc_slow := 1,
    mc_connection := Some (snd (event_del_read c)), mc_timer_set := True\<rparr>)"
proof -
  have "nn_conn_get_task mc = Some (nullptr, mc)"
    using inv free by (simp add: nn_conn_get_task_def conn_inv_defs)
  then show ?thesis by (subst nn_conn_decode.simps) (simp add: c)
qed

section \<open>Finalization\<close>

lemma conn_core_out:
  assumes core: "conn_core used mc" and hd: "mc_out_task mc = q # qs" and st: "mc_state mc = ST_CONNCECTED"
  shows "nn_conn_free_task (mc\<lparr>mc_out_task := qs\<rparr>) q = Some (freed (mc\<lparr>mc_out_task := qs\<rparr>) q)"
    "conn_core used (freed (mc\<lparr>mc_out_task := qs\<rparr>) q)"
proof -
  let ?m = "mc\<lparr>mc_out_task := qs\<rparr>"
  have q: "mc_pool ?m" "q \<notin> set (mc_free_task ?m)" "q \<notin> set (mc_out_task ?m)"
    using core hd by (auto simp: conn_core_defs)
  have ok: "owned_ok (mc_task ?m) (mc_heap ?m) (mc_free_task ?m) qs"
    and own: "\<forall>p\<in>set (owned (mc_task ?m) q). mc_heap ?m p \<noteq> None"
    and dj: "\<forall>p\<in>set (owned (mc_task ?m) q). p \<notin> set (concat (map (owned (mc_task ?m)) qs))"
    using core hd by (auto simp: conn_core_defs owned_ok_def)
  show "nn_conn_free_task ?m q = Some (freed ?m q)"
    using nn_conn_free_task_eq(1)[OF q own] st by simp
  have "owned_ok (mc_task (freed ?m q)) (mc_heap (freed ?m q)) (mc_free_task (freed ?m q)) qs"
    using owned_freed[OF ok _ _ dj] q by simp
  then show "conn_core used (freed ?m q)"
    using core hd by (auto simp: conn_core_defs)
qed

lemma nn_conn_free_queue_ok:
  assumes "conn_core used mc" "mc_state mc = ST_CONNCECTED"
  shows "\<exists>mc'. nn_conn_free_queue mc = Some mc' \<and> conn_core used mc' \<and> mc_out_task mc' = [] \<and>
    mc_state mc' = ST_CONNCECTED \<and> mc_connection mc' = mc_connection mc \<and> mc_timer_set mc' = mc_timer_set mc \<and>
    mc_released mc' = mc_released mc \<and> mc_dispatched mc' = mc_dispatched mc \<and>
    mc_free_task mc' = mc_free_task mc @ mc_out_task mc \<and>
    (\<forall>x. x \<notin> set (mc_out_task mc) \<longrightarrow> mc_task mc' x = mc_task mc x) \<and>
    (\<forall>p. p \<notin> set (concat (map (owned (mc_task mc)) (mc_out_task mc))) \<longrightarrow> mc_heap mc' p = mc_heap mc p)"
  using assms
proof (induction "mc_out_task mc" arbitrary: mc)
  case Nil
  then show ?case by (auto simp: nn_conn_free_queue.simps[of mc])
next
  case (Cons q qs)
  let ?m = "freed (mc\<lparr>mc_out_task := qs\<rparr>) q"
  have hd: "mc_out_task mc = q # qs" using Cons.hyps by simp
  note step = conn_core_out[OF Cons.prems(1) hd Cons.prems(2)]
  have run: "nn_conn_free_queue mc = nn_conn_free_queue ?m"
    by (simp add: nn_conn_free_queue.simps[of mc] hd step(1))
  have "q \<notin> set qs" using Cons.prems(1) hd by (simp add: conn_core_defs)
  have tk: "map (owned (mc_task ?m)) qs = map (owned (mc_task mc)) qs"
  proof (intro map_owned_cong)
    fix x assume "x \<in> set qs"
    then have "x \<noteq> q" using \<open>q \<notin> set qs\<close> by blast
    then show "mc_task ?m x = mc_task mc x" by simp
  qed
  from Cons.hyps(1)[of ?m] step(2) Cons.prems(2) obtain mc' where
    m': "nn_conn_free_queue ?m = Some mc'" "conn_core used mc'" "mc_out_task mc' = []" "mc_state mc' = ST_CONNCECTED"
    "mc_connection mc' = mc_connection mc" "mc_timer_set mc' = mc_timer_set mc" "mc_released mc' = mc_released mc"
    "mc_dispatched mc' = mc_dispatched mc" "mc_free_task mc' = mc_free_task mc @ q # qs"
    "\<forall>x. x \<notin> set qs \<longrightarrow> mc_task mc' x = mc_task ?m x"
    "\<forall>p. p \<notin> set (concat (map (owned (mc_task ?m)) qs)) \<longrightarrow> mc_heap mc' p = mc_heap ?m p" by auto
  have "\<forall>x. x \<notin> set (q # qs) \<longrightarrow> mc_task mc' x = mc_task mc x" using m'(10) tk(1) by auto
  moreover have "\<forall>p. p \<notin> set (concat (map (owned (mc_task mc)) (q # qs))) \<longrightarrow> mc_heap mc' p = mc_heap mc p"
    using m'(11) unfolding tk by simp
  ultimately show ?case using run m'(1-9) unfolding hd by metis
qed

lemma nn_conn_finalize_ok:
  assumes inv: "conn_inv used mc" and st: "mc_state mc = ST_CONNCECTED" and c: "mc_connection mc = Some c"
  shows "\<exists>mc'. nn_conn_finalize mc = Some mc' \<and> mc_state mc' = ST_DISCONNCECTED \<and> mc_connection mc' = None \<and>
    mc_out_task mc' = [] \<and> mc_free_task mc' = mc_free_task mc @ mc_out_task mc \<and>
    mc_released mc' = mc_released mc @ [conn_release (c\<lparr>c_has_data := False\<rparr>)] \<and>
    mc_dispatched mc' = mc_dispatched mc \<and> (if used = [] then \<not> mc_pool mc' else conn_inv used mc') \<and>
    (\<forall>x. x \<notin> set (mc_out_task mc) \<longrightarrow> mc_task mc' x = mc_task mc x) \<and>
    (\<forall>p. p \<notin> set (concat (map (owned (mc_task mc)) (mc_out_task mc))) \<longrightarrow> mc_heap mc' p = mc_heap mc p)"
proof -
  let ?m = "nn_conn_close (mc\<lparr>mc_timer_set := False\<rparr>)"
  have "conn_core used ?m" "mc_state ?m = ST_CONNCECTED"
    using inv st by (auto simp: nn_conn_close_def conn_inv_defs split: option.splits)
  from nn_conn_free_queue_ok[OF this] obtain m1 where
    m1: "nn_conn_free_queue ?m = Some m1" "conn_core used m1" "mc_out_task m1 = []" "mc_connection m1 = None"
    "\<not> mc_timer_set m1" "mc_released m1 = mc_released mc @ [conn_release (c\<lparr>c_has_data := False\<rparr>)]"
    "mc_dispatched m1 = mc_dispatched mc" "mc_free_task m1 = mc_free_task mc @ mc_out_task mc"
    "\<forall>x. x \<notin> set (mc_out_task mc) \<longrightarrow> mc_task m1 x = mc_task mc x"
    "\<forall>p. p \<notin> set (concat (map (owned (mc_task mc)) (mc_out_task mc))) \<longrightarrow> mc_heap m1 p = mc_heap mc p"
    by (auto simp: nn_conn_close_def c)
  have "(if mc_timer_set mc then Some (mc\<lparr>mc_timer_set := False\<rparr>) else Some mc) = Some (mc\<lparr>mc_timer_set := False\<rparr>)"
    by simp
  then have fin: "nn_conn_finalize mc = nn_conn_finalize_rest (m1\<lparr>mc_state := ST_DISCONNCECTED\<rparr>)"
    using inv m1(1) by (simp add: nn_conn_finalize_def st c alive_def conn_inv_def conn_core_def nn_conn_update_state_def
        cong: if_cong)
  have cnt: "mc_count m1 = int (length used)" "mc_pool m1" using m1(2,3) by (simp_all add: conn_core_defs)
  show ?thesis
  proof (cases "used = []")
    case True
    then show ?thesis using m1 cnt by (simp add: fin nn_conn_finalize_rest_def pool_destroy_def)
  next
    case False
    then have "conn_inv used (m1\<lparr>mc_state := ST_DISCONNCECTED\<rparr>)" using m1 by (simp add: conn_inv_defs)
    then show ?thesis using m1 cnt False by (simp add: fin nn_conn_finalize_rest_def)
  qed
qed

section \<open>Receiving\<close>

lemma buffer_append:
  assumes "buffer_wf b" "length d \<le> b_end b - b_last b"
  shows "\<exists>m. wrn (b_mem b) (b_last b) d = Some m \<and> length m = b_end b \<and>
    buffer_wf (b\<lparr>b_mem := m, b_last := b_last b + length d\<rparr>) \<and>
    buffer_data (b\<lparr>b_mem := m, b_last := b_last b + length d\<rparr>) = buffer_data b @ d \<and>
    buffer_wf (b\<lparr>b_mem := m\<rparr>) \<and> buffer_data (b\<lparr>b_mem := m\<rparr>) = buffer_data b"
proof -
  have le: "b_pos b \<le> b_last b" "b_last b \<le> b_end b" using assms(1) by (auto simp: buffer_wf_def)
  then have "wrn (b_mem b) (b_last b) d = Some (take (b_last b) (b_mem b) @ d @ drop (b_last b + length d) (b_mem b))"
    using assms(2) by simp
  then show ?thesis using assms le
    by (auto simp: buffer_wf_def buffer_data_def drop_take)
qed

lemma nn_conn_recv_step:
  assumes inv: "conn_inv used mc" and st: "mc_state mc = ST_CONNCECTED" and c: "mc_connection mc = Some c"
    and IH: "\<And>mc1 c1. conn_inv used mc1 \<Longrightarrow> mc_state mc1 = ST_CONNCECTED \<Longrightarrow> mc_connection mc1 = Some c1 \<Longrightarrow>
      b_end (mc_in mc1) = b_end (mc_in mc) \<Longrightarrow> length (buffer_data (mc_in mc)) < length (buffer_data (mc_in mc1)) \<Longrightarrow>
      mc\<lparr>mc_in := mc_in mc1, mc_connection := Some c1\<rparr> = mc1 \<Longrightarrow> c1 = c\<lparr>c_rx := c_rx c1\<rparr> \<Longrightarrow>
      buffer_data (mc_in mc1) @ rx_bytes (c_rx c1) = buffer_data (mc_in mc) @ rx_bytes (c_rx c) \<Longrightarrow>
      (rx_plain (c_rx c) \<longrightarrow> rx_plain (c_rx c1)) \<Longrightarrow> P (nn_conn_recv mc1)"
    and fin: "\<And>rc mc1 c1. conn_inv used mc1 \<Longrightarrow> mc\<lparr>mc_in := mc_in mc1, mc_connection := Some c1\<rparr> = mc1 \<Longrightarrow>
      c1 = c\<lparr>c_rx := c_rx c1\<rparr> \<Longrightarrow> buffer_data (mc_in mc1) @ rx_bytes (c_rx c1) = buffer_data (mc_in mc) @ rx_bytes (c_rx c) \<Longrightarrow>
      rc = NGX_BUFFER_FULL \<or> rc = NGX_CONN_CLOSED \<or> rc = NGX_ERROR \<or> rc = NGX_AGAIN \<Longrightarrow>
      b_end (mc_in mc1) = b_end (mc_in mc) \<Longrightarrow> b_pos (mc_in mc1) = 0 \<Longrightarrow>
      (rc = NGX_BUFFER_FULL \<longrightarrow> length (buffer_data (mc_in mc1)) = b_end (mc_in mc)) \<Longrightarrow>
      (rx_plain (c_rx c) \<longrightarrow> rc = NGX_BUFFER_FULL \<or> rc = NGX_AGAIN \<and> c_rx c1 = []) \<Longrightarrow> P (Some (rc, mc1))"
  shows "P (nn_conn_recv mc)"
proof -
  have wf: "buffer_wf (mc_in mc)" using inv by (simp add: conn_inv_def conn_core_def)
  obtain b where b: "buffer_shrink (mc_in mc) = Some b" "buffer_wf b" "b_pos b = 0"
    "buffer_data b = buffer_data (mc_in mc)" "b_end b = b_end (mc_in mc)"
    using buffer_shrink_wf[OF wf] by blast
  have upd: "conn_inv used (mc\<lparr>mc_connection := Some c', mc_in := b'\<rparr>)" if "buffer_wf b'" for c' b'
    using inv st that by (simp add: conn_inv_defs)
  show ?thesis
  proof (cases "b_last b = b_end b")
    case True
    then have "nn_conn_recv mc = Some (NGX_BUFFER_FULL, mc\<lparr>mc_connection := Some c, mc_in := b\<rparr>)"
      using c by (subst nn_conn_recv.simps) (simp add: b(1) buffer_free_size_def)
    moreover have "length (buffer_data b) = b_end b" using True b(2,3) by simp
    ultimately show ?thesis using fin[of "mc\<lparr>mc_connection := Some c, mc_in := b\<rparr>" c NGX_BUFFER_FULL] upd[OF b(2)] b(3-5) c
      by (simp del: length_buffer_data)
  next
    case False
    let ?k = "b_end b - b_last b"
    have le: "b_last b < b_end b" using b(2) False by (simp add: buffer_wf_def)
    then have k: "buffer_free_size b \<noteq> 0" "nat (buffer_free_size b) = ?k" "0 < ?k"
      by (simp_all add: buffer_free_size_def)
    obtain n d rs where r: "sysio_recv_loop ?k (c_rx c) = (n, d, rs)" by (cases "sysio_recv_loop ?k (c_rx c)") auto
    note rb = sysio_recv_loop_bytes[OF r k(3)]
    note rp = sysio_recv_loop_plain[OF r k(3)]
    obtain m where m: "wrn (b_mem b) (b_last b) d = Some m" "length m = b_end b"
      "buffer_wf (b\<lparr>b_mem := m, b_last := b_last b + length d\<rparr>)"
      "buffer_data (b\<lparr>b_mem := m, b_last := b_last b + length d\<rparr>) = buffer_data b @ d"
      "buffer_wf (b\<lparr>b_mem := m\<rparr>)" "buffer_data (b\<lparr>b_mem := m\<rparr>) = buffer_data b"
      using buffer_append[OF b(2)] rb by blast
    let ?c = "c\<lparr>c_rx := rs\<rparr>"
    let ?m0 = "mc\<lparr>mc_connection := Some ?c, mc_in := b\<lparr>b_mem := m\<rparr>\<rparr>"
    let ?m1 = "mc\<lparr>mc_connection := Some ?c, mc_in := b\<lparr>b_mem := m, b_last := b_last b + nat n\<rparr>\<rparr>"
    have step: "nn_conn_recv mc = (if 0 < n then nn_conn_recv ?m1
      else if n = 0 then Some (NGX_CONN_CLOSED, ?m0)
      else if n = NGX_ERROR then Some (NGX_ERROR, ?m0) else Some (NGX_AGAIN, ?m0))"
      using rb c by (subst nn_conn_recv.simps)
        (auto simp: b(1) k(1,2) sysio_unix_recv_def r m(1) Let_def split: if_splits)
    show ?thesis
    proof (cases "0 < n")
      case True
      then have n: "nat n = length d" "d \<noteq> []" using rb by (auto split: if_splits)
      have "P (nn_conn_recv ?m1)"
        by (rule IH[of _ ?c]) (use upd[OF m(3)] st m b rb n rp in \<open>simp_all del: length_buffer_data\<close>)
      then show ?thesis using step True by simp
    next
      case False
      then have d: "d = []" using rb by (auto split: if_splits)
      have m0: "P (Some (rc, ?m0))" if "rc = NGX_CONN_CLOSED \<or> rc = NGX_ERROR \<or> rc = NGX_AGAIN"
        "rx_plain (c_rx c) \<longrightarrow> rc = NGX_AGAIN \<and> rs = []" for rc
      proof -
        have "rc \<noteq> NGX_BUFFER_FULL" using that(1) by (auto simp: ngx_codes)
        then show ?thesis by (intro fin[of ?m0 ?c]) (use upd[OF m(5)] m b rb d that in simp_all)
      qed
      have nc: "rx_plain (c_rx c) \<longrightarrow> n = NGX_AGAIN \<and> rs = []" using rp False by auto
      consider "n = 0" | "n = NGX_ERROR" "n \<noteq> 0" | "n \<noteq> NGX_ERROR" "n \<noteq> 0" by blast
      then show ?thesis
        by cases (use step False nc m0[of NGX_CONN_CLOSED] m0[of NGX_ERROR] m0[of NGX_AGAIN] in \<open>auto simp: NGX_AGAIN_def\<close>)
    qed
  qed
qed

lemma nn_conn_recv_ok:
  assumes "conn_inv used mc" "mc_state mc = ST_CONNCECTED" "mc_connection mc = Some c"
  shows "\<exists>rc mc' c'. nn_conn_recv mc = Some (rc, mc') \<and> conn_inv used mc' \<and> mc_connection mc' = Some c' \<and>
    mc' = mc\<lparr>mc_in := mc_in mc', mc_connection := Some c'\<rparr> \<and> c' = c\<lparr>c_rx := c_rx c'\<rparr> \<and>
    buffer_data (mc_in mc') @ rx_bytes (c_rx c') = buffer_data (mc_in mc) @ rx_bytes (c_rx c) \<and>
    (rc = NGX_BUFFER_FULL \<or> rc = NGX_CONN_CLOSED \<or> rc = NGX_ERROR \<or> rc = NGX_AGAIN) \<and> b_pos (mc_in mc') = 0 \<and>
    (rc = NGX_BUFFER_FULL \<longrightarrow> length (buffer_data (mc_in mc')) = b_end (mc_in mc)) \<and>
    (rx_plain (c_rx c) \<longrightarrow> rc = NGX_BUFFER_FULL \<or> rc = NGX_AGAIN \<and> c_rx c' = [])"
  using assms
proof (induction "b_end (mc_in mc) - length (buffer_data (mc_in mc))" arbitrary: mc c rule: less_induct)
  case less
  show ?case
  proof (rule nn_conn_recv_step[OF less.prems], goal_cases)
    case (1 mc1 c1)
    have "buffer_wf (mc_in mc1)" using 1(1) by (simp add: conn_inv_def conn_core_def)
    then have "length (buffer_data (mc_in mc1)) \<le> b_end (mc_in mc1)" by (simp add: buffer_wf_def buffer_data_def)
    with 1(4,5) have "b_end (mc_in mc1) - length (buffer_data (mc_in mc1)) < b_end (mc_in mc) - length (buffer_data (mc_in mc))"
      by linarith
    from less.hyps[OF this 1(1-3)] obtain rc mc' c' where
      r: "nn_conn_recv mc1 = Some (rc, mc')" "conn_inv used mc'" "mc_connection mc' = Some c'"
      "mc' = mc1\<lparr>mc_in := mc_in mc', mc_connection := Some c'\<rparr>" "c' = c1\<lparr>c_rx := c_rx c'\<rparr>"
      "buffer_data (mc_in mc') @ rx_bytes (c_rx c') = buffer_data (mc_in mc1) @ rx_bytes (c_rx c1)"
      "rc = NGX_BUFFER_FULL \<or> rc = NGX_CONN_CLOSED \<or> rc = NGX_ERROR \<or> rc = NGX_AGAIN" "b_pos (mc_in mc') = 0"
      "rc = NGX_BUFFER_FULL \<longrightarrow> length (buffer_data (mc_in mc')) = b_end (mc_in mc1)"
      "rx_plain (c_rx c1) \<longrightarrow> rc = NGX_BUFFER_FULL \<or> rc = NGX_AGAIN \<and> c_rx c' = []" by blast
    have "mc' = mc\<lparr>mc_in := mc_in mc', mc_connection := Some c'\<rparr>"
      by (subst r(4), subst 1(6)[symmetric]) simp
    moreover have "c' = c\<lparr>c_rx := c_rx c'\<rparr>" by (subst r(5), subst 1(7)) simp
    ultimately show ?case using r 1(4,8,9) by metis
  next
    case (2 rc mc1 c1)
    have "mc_connection mc1 = Some c1" by (subst 2(2)[symmetric]) simp
    then show ?case using 2 by metis
  qed
qed

section \<open>Sending\<close>

text \<open>
  The queued answers: every queued task can be framed with its payload, which is in the heap
  block that the task owns.
\<close>

definition answer :: "nn_conn_t \<Rightarrow> addr \<Rightarrow> u8 list \<Rightarrow> bool" where
  "answer mc x pl \<longleftrightarrow> framable (mc_task mc x) pl \<and>
     (pl \<noteq> [] \<longrightarrow> t_data (mc_task mc x) \<noteq> 0 \<and>
       (case mc_heap mc (t_data (mc_task mc x)) of None \<Rightarrow> False | Some obj \<Rightarrow> take (length pl) obj = pl))"

definition answers :: "nn_conn_t \<Rightarrow> u8 list list \<Rightarrow> bool" where
  "answers mc pls \<longleftrightarrow> list_all2 (answer mc) (mc_out_task mc) pls"

definition out_frames :: "nn_conn_t \<Rightarrow> u8 list list \<Rightarrow> u8 list" where
  "out_frames mc pls = concat (map2 (\<lambda>x pl. frame (mc_task mc x) pl) (mc_out_task mc) pls)"

lemma answer_payload: "answer mc x pl \<Longrightarrow> has_payload (mc_mem mc) (mc_task mc x) pl"
  by (auto simp: answer_def has_payload_def mc_mem_def split: option.splits)

lemma answer_owned: "answer mc x pl \<Longrightarrow> pl \<noteq> [] \<Longrightarrow> owned (mc_task mc) x = [t_data (mc_task mc x)]"
proof -
  assume a: "answer mc x pl" and ne: "pl \<noteq> []"
  then have "int (length pl) = sint (t_data_len (mc_task mc x))" "t_data (mc_task mc x) \<noteq> 0"
    by (simp_all add: answer_def framable_def)
  moreover have "0 < int (length pl)" using ne by simp
  ultimately have "0 < sint (t_data_len (mc_task mc x))" "t_data (mc_task mc x) \<noteq> 0" by linarith+
  then show ?thesis by (simp add: owned_def)
qed

lemma answers_after_free:
  assumes core: "conn_core used mc" and hd: "mc_out_task mc = q # qs" and a: "list_all2 (answer mc) qs pls"
  defines "mc' \<equiv> freed (mc\<lparr>mc_out_task := qs\<rparr>) q"
  shows "answers mc' pls" "out_frames mc' pls = concat (map2 (\<lambda>x pl. frame (mc_task mc x) pl) qs pls)"
proof -
  have ne: "x \<noteq> q" if "x \<in> set qs" for x using that core hd by (auto simp: conn_core_defs)
  have tk: "mc_task mc' x = mc_task mc x" if "x \<in> set qs" for x
    using ne[OF that] by (simp add: mc'_def)
  have "answer mc' x pl" if x: "x \<in> set qs" and ax: "answer mc x pl" for x pl
  proof (cases "pl = []")
    case True
    then show ?thesis using ax tk[OF x] by (simp add: answer_def)
  next
    case False
    have "t_data (mc_task mc x) \<in> set (concat (map (owned (mc_task mc)) qs))"
      using answer_owned[OF ax False] x by (auto intro!: bexI[of _ x])
    moreover have "set (owned (mc_task mc) q) \<inter> set (concat (map (owned (mc_task mc)) qs)) = {}"
      using core hd by (simp add: conn_core_defs owned_ok_def)
    ultimately have "t_data (mc_task mc x) \<notin> set (owned (mc_task mc) q)" by blast
    then show ?thesis using ax tk[OF x] by (simp add: answer_def mc'_def)
  qed
  then show "answers mc' pls"
    using a by (simp add: answers_def mc'_def[symmetric]) (auto simp: list_all2_conv_all_nth mc'_def)
  have "map2 (\<lambda>x pl. frame (mc_task mc' x) pl) qs pls = map2 (\<lambda>x pl. frame (mc_task mc x) pl) qs pls"
    using tk by (auto dest!: set_zip_leftD)
  moreover have "mc_out_task mc' = qs" by (simp add: mc'_def)
  ultimately show "out_frames mc' pls = concat (map2 (\<lambda>x pl. frame (mc_task mc x) pl) qs pls)"
    unfolding out_frames_def by (simp only:)
qed

text \<open>What packing keeps.\<close>

definition same_conn :: "nn_conn_t \<Rightarrow> nn_conn_t \<Rightarrow> bool" where
  "same_conn mc mc' \<longleftrightarrow> mc_connection mc' = mc_connection mc \<and> mc_state mc' = mc_state mc \<and>
     mc_in mc' = mc_in mc \<and> mc_timer_set mc' = mc_timer_set mc \<and> mc_dispatched mc' = mc_dispatched mc \<and>
     mc_released mc' = mc_released mc \<and> mc_max_task mc' = mc_max_task mc"

lemma nn_conn_pack_ok:
  assumes "conn_core used mc" "mc_state mc = ST_CONNCECTED" "answers mc pls"
  shows "\<exists>mc' k. nn_conn_pack mc = Some mc' \<and> conn_core used mc' \<and> same_conn mc mc' \<and>
    mc_out_task mc' = drop k (mc_out_task mc) \<and> answers mc' (drop k pls) \<and> b_pos (mc_out mc') = b_pos (mc_out mc) \<and>
    b_end (mc_out mc') = b_end (mc_out mc) \<and> k \<le> length pls \<and>
    (k = 0 \<longrightarrow> buffer_data (mc_out mc') = buffer_data (mc_out mc)) \<and>
    buffer_data (mc_out mc') @ out_frames mc' (drop k pls) = buffer_data (mc_out mc) @ out_frames mc pls \<and>
    (k < length pls \<longrightarrow> b_end (mc_out mc') - b_last (mc_out mc') < 344 + length (pls ! k))"
  using assms
proof (induction pls arbitrary: mc)
  case Nil
  then have "mc_out_task mc = []" by (simp add: answers_def)
  then have "nn_conn_pack mc = Some mc" by (subst nn_conn_pack.simps) simp
  then show ?case using Nil by (auto simp: same_conn_def)
next
  case (Cons pl pls)
  from Cons.prems(3) obtain q qs where hd: "mc_out_task mc = q # qs" and a: "answer mc q pl" "list_all2 (answer mc) qs pls"
    by (auto simp: answers_def list_all2_Cons2)
  have wf: "buffer_wf (mc_out mc)" using Cons.prems(1) by (simp add: conn_core_def)
  have f: "framable (mc_task mc q) pl" using a(1) by (simp add: answer_def)
  show ?case
  proof (cases "344 + length pl \<le> b_end (mc_out mc) - b_last (mc_out mc)")
    case True
    obtain b where b: "task_encode (mc_mem mc) (mc_task mc q) (mc_out mc) = Some (NGX_OK, b)" "buffer_wf b"
      "buffer_data b = buffer_data (mc_out mc) @ frame (mc_task mc q) pl" "b_pos b = b_pos (mc_out mc)" "b_end b = b_end (mc_out mc)"
      using task_encode_frame[OF wf f answer_payload[OF a(1)] True] by blast
    let ?mb = "mc\<lparr>mc_out := b\<rparr>"
    let ?m = "freed (?mb\<lparr>mc_out_task := qs\<rparr>) q"
    have core: "conn_core used ?mb" "mc_out_task ?mb = q # qs" "mc_state ?mb = ST_CONNCECTED"
      using Cons.prems(1,2) b(2) hd by (simp_all add: conn_core_defs)
    note step = conn_core_out[OF core]
    have "answer ?mb = answer mc" by (simp add: answer_def fun_eq_iff)
    then have ab: "list_all2 (answer ?mb) qs pls" using a(2) by simp
    note af = answers_after_free[OF core(1,2) ab]
    have run: "nn_conn_pack mc = nn_conn_pack ?m"
      using step(1) by (subst nn_conn_pack.simps) (simp add: hd b(1))
    from Cons.IH[OF step(2) _ af(1)] core(3) obtain mc' k where
      r: "nn_conn_pack ?m = Some mc'" "conn_core used mc'" "same_conn ?m mc'" "mc_out_task mc' = drop k qs"
      "answers mc' (drop k pls)" "b_pos (mc_out mc') = b_pos b" "b_end (mc_out mc') = b_end b" "k \<le> length pls"
      "buffer_data (mc_out mc') @ out_frames mc' (drop k pls) = buffer_data b @ out_frames ?m pls"
      "k < length pls \<longrightarrow> b_end (mc_out mc') - b_last (mc_out mc') < 344 + length (pls ! k)" by auto
    have "out_frames mc (pl # pls) = frame (mc_task mc q) pl @ out_frames ?m pls"
      using af(2) by (simp add: out_frames_def hd)
    then show ?thesis using r b run hd
      by (intro exI[of _ mc'] exI[of _ "Suc k"]) (simp add: same_conn_def)
  next
    case False
    then have "nn_conn_pack mc = Some mc"
      using task_encode_again[OF wf f, of "mc_mem mc"] by (subst nn_conn_pack.simps) (simp add: hd)
    then show ?thesis using Cons.prems False
      by (intro exI[of _ mc] exI[of _ 0]) (simp add: same_conn_def)
  qed
qed

lemma buffer_wf_reset: "buffer_wf b \<Longrightarrow> buffer_wf (buffer_reset b) \<and> buffer_data (buffer_reset b) = [] \<and> b_end (buffer_reset b) = b_end b"
  by (simp add: buffer_wf_def buffer_reset_def buffer_data_def)

lemma nn_conn_out_loop_ok:
  assumes "buffer_wf b" "sz = length (buffer_data b)" "nn_conn_out_loop c b sz = (rc, c', b')"
  shows "c_sent_bytes c' @ buffer_data b' = c_sent_bytes c @ buffer_data b \<and> buffer_wf b' \<and> b_end b' = b_end b \<and>
    (rc = NGX_OK \<and> buffer_data b' = [] \<or> rc = NGX_AGAIN \<or> rc = NGX_ERROR)"
  using assms
proof (induction c b sz rule: nn_conn_out_loop.induct)
  case (1 c b sz)
  have d: "take sz (drop (b_pos b) (b_mem b)) = buffer_data b"
    using length_buffer_data[OF 1(2)] 1(3) by (simp add: buffer_data_def[of b])
  show ?case
  proof (cases "sz = 0")
    case True
    then have "buffer_data b = []" using 1(3) by (simp del: length_buffer_data)
    moreover have "rc = NGX_OK" "c' = c" "b' = buffer_reset b"
      using 1(4) True by (simp_all add: nn_conn_out_loop.simps[of c b sz] nn_conn_out_loop.simps[of c b 0])
    ultimately show ?thesis using buffer_wf_reset[OF 1(2)] by simp
  next
    case False
    obtain n c1 where s: "sysio_unix_send c (buffer_data b) = (n, c1)" by force
    note sb = sysio_send_loop_bytes[OF s[unfolded sysio_unix_send_def]]
    show ?thesis
    proof (cases "n < 0")
      case True
      then show ?thesis using 1(2,4) False s sb d by (auto simp: nn_conn_out_loop.simps[of c b sz])
    next
      case n: False
      let ?b = "b\<lparr>b_pos := b_pos b + nat n\<rparr>"
      have pull: "?b = buffer_pull b (nat n)" by (simp add: buffer_pull_def)
      have le: "nat n \<le> length (buffer_data b)" using sb n by (auto split: if_splits)
      have data: "buffer_data b = take (nat n) (buffer_data b) @ drop (nat n) (buffer_data b)" by simp
      have db: "buffer_data ?b = drop (nat n) (buffer_data b)"
        using buffer_data_pull[OF data 1(2)] le by (simp add: pull min_absorb2 del: length_buffer_data)
      have "c_sent_bytes c1 = c_sent_bytes c @ take (nat n) (buffer_data b)" using sb n by (auto split: if_splits)
      moreover have "buffer_wf ?b" using buffer_wf_pull[OF 1(2) le] pull by simp
      moreover have "sz - nat n = length (buffer_data ?b)" using 1(3) db by (simp del: length_buffer_data)
      moreover have "nn_conn_out_loop c1 ?b (sz - nat n) = (rc, c', b')"
        using 1(4) False n s d by (simp add: nn_conn_out_loop.simps[of c b sz])
      moreover have "sysio_unix_send c (take sz (drop (b_pos b) (b_mem b))) = (n, c1)" using s d by simp
      ultimately show ?thesis using 1(1)[OF False, of n c1] n db by simp
    qed
  qed
qed

lemma nn_conn_out_buffer_ok:
  assumes "buffer_wf b" "nn_conn_out_buffer c b = (rc, c', b')"
  shows "c_sent_bytes c' @ buffer_data b' = c_sent_bytes c @ buffer_data b \<and> buffer_wf b' \<and> b_end b' = b_end b \<and>
    (rc = NGX_OK \<and> buffer_data b' = [] \<or> rc = NGX_AGAIN \<or> rc = NGX_ERROR)"
proof (cases "ev_ready (c_write c)")
  case True
  then show ?thesis using nn_conn_out_loop_ok[OF assms(1), of _ c rc c' b'] assms buffer_size_wf[OF assms(1)]
    by (simp add: nn_conn_out_buffer_def)
qed (use assms in \<open>auto simp: nn_conn_out_buffer_def\<close>)

lemma event_handle_write_sent [simp]: "c_sent_bytes (snd (event_handle_write c)) = c_sent_bytes c"
  by (simp add: event_handle_write_def epoll_add_event_def epoll_ctl_def conn_ev_defs Let_def case_prod_beta)

text \<open>Everything that was, is being and will be sent on the connection, in order.\<close>

definition out_stream :: "conn_t \<Rightarrow> nn_conn_t \<Rightarrow> u8 list list \<Rightarrow> u8 list" where
  "out_stream c mc pls = c_sent_bytes c @ buffer_data (mc_out mc) @ out_frames mc pls"

text \<open>
  The outcome of an attempt to send: the connection is still open and the stream is unchanged, and
  if nothing is left to wait for (\<^verbatim>\<open>NGX_OK\<close>), what is left does not fit into the buffer at all;
  or the connection was finalized.
\<close>

definition sent_outcome :: "addr list \<Rightarrow> u8 list \<Rightarrow> nat \<Rightarrow> int \<Rightarrow> nn_conn_t \<Rightarrow> bool" where
  "sent_outcome used str cap rc mc' \<longleftrightarrow>
     (mc_state mc' = ST_CONNCECTED \<and> conn_inv used mc' \<and>
      (\<exists>c' pls. mc_connection mc' = Some c' \<and> answers mc' pls \<and> out_stream c' mc' pls = str \<and>
        (rc = NGX_OK \<longrightarrow> buffer_data (mc_out mc') = [] \<and> (\<forall>pl pls'. pls = pl # pls' \<longrightarrow> cap < 344 + length pl)))) \<or>
     (rc = NGX_ERROR \<and> mc_state mc' = ST_DISCONNCECTED \<and> mc_connection mc' = None \<and>
      (if used = [] then \<not> mc_pool mc' else conn_inv used mc'))"

lemma nn_conn_repack_ok:
  assumes "conn_inv used mc" "mc_state mc = ST_CONNCECTED" "mc_connection mc = Some c" "answers mc pls"
  shows "\<exists>rc mc'. nn_conn_repack mc = Some (rc, mc') \<and>
    sent_outcome used (out_stream c mc pls) (b_end (mc_out mc)) rc mc'"
  using assms
proof (induction "2 * length pls + (if buffer_data (mc_out mc) = [] then 0 else 1)" arbitrary: mc c pls rule: less_induct)
  case less
  have wf: "buffer_wf (mc_out mc)" using less.prems(1) by (simp add: conn_inv_def conn_core_def)
  obtain b where b: "buffer_shrink (mc_out mc) = Some b" "buffer_wf b" "b_pos b = 0"
    "buffer_data b = buffer_data (mc_out mc)" "b_end b = b_end (mc_out mc)"
    using buffer_shrink_wf[OF wf] by blast
  let ?mb = "mc\<lparr>mc_out := b\<rparr>"
  have "conn_core used ?mb" "mc_state ?mb = ST_CONNCECTED" "answers ?mb pls"
    using less.prems b(2) by (simp_all add: conn_inv_defs answers_def answer_def[abs_def])
  from nn_conn_pack_ok[OF this] obtain m1 k where
    p: "nn_conn_pack ?mb = Some m1" "conn_core used m1" "same_conn ?mb m1" "answers m1 (drop k pls)"
    "b_pos (mc_out m1) = 0" "b_end (mc_out m1) = b_end b" "k \<le> length pls"
    "k = 0 \<longrightarrow> buffer_data (mc_out m1) = buffer_data b"
    "buffer_data (mc_out m1) @ out_frames m1 (drop k pls) = buffer_data b @ out_frames ?mb pls"
    "k < length pls \<longrightarrow> b_end (mc_out m1) - b_last (mc_out m1) < 344 + length (pls ! k)"
    using b(3) by auto
  have wf1: "buffer_wf (mc_out m1)" and c1: "mc_connection m1 = Some c" "mc_state m1 = ST_CONNCECTED"
    using p(2,3) less.prems(2,3) by (simp_all add: conn_core_def same_conn_def)
  have inv1: "conn_inv used m1" using p(2) c1 by (simp add: conn_inv_def)
  have str: "out_stream c m1 (drop k pls) = out_stream c mc pls"
    using p(9) b(4) by (simp add: out_stream_def out_frames_def)
  show ?case
  proof (cases "buffer_data (mc_out m1) = []")
    case True
    then have run: "nn_conn_repack mc = Some (NGX_OK, m1)"
      using buffer_size_wf[OF wf1] by (subst nn_conn_repack.simps) (simp add: b(1) p(1))
    have "b_last (mc_out m1) = 0" using True wf1 p(5) length_buffer_data[OF wf1] by simp
    then have "\<forall>pl pls'. drop k pls = pl # pls' \<longrightarrow> b_end (mc_out mc) < 344 + length pl"
      using p(6,10) b(5) by (auto simp: drop_Cons' nth_via_drop)
    then have "sent_outcome used (out_stream c mc pls) (b_end (mc_out mc)) NGX_OK m1"
      unfolding sent_outcome_def using inv1 c1 p(4) str True by blast
    then show ?thesis using run by blast
  next
    case False
    obtain rc c2 b2 where ob: "nn_conn_out_buffer c (mc_out m1) = (rc, c2, b2)" by (metis prod_cases3)
    note obk = nn_conn_out_buffer_ok[OF wf1 ob]
    let ?m2 = "m1\<lparr>mc_connection := Some c2, mc_out := b2\<rparr>"
    have inv2: "conn_inv used ?m2" and a2: "answers ?m2 (drop k pls)"
      and str2: "out_stream c2 ?m2 (drop k pls) = out_stream c mc pls"
      using inv1 obk c1(2) p(4) str
      by (simp_all add: conn_inv_defs answers_def answer_def[abs_def] out_stream_def out_frames_def append_assoc[symmetric] del: append_assoc)
    have ne: "buffer_size (mc_out m1) \<noteq> 0" using False buffer_size_wf[OF wf1] by (simp del: length_buffer_data)
    consider "rc = NGX_ERROR" | "rc = NGX_AGAIN" | "rc = NGX_OK" "buffer_data b2 = []" using obk by blast
    then show ?thesis
    proof cases
      case 1
      obtain mc' where "nn_conn_finalize ?m2 = Some mc'" "mc_state mc' = ST_DISCONNCECTED" "mc_connection mc' = None"
        "if used = [] then \<not> mc_pool mc' else conn_inv used mc'"
        using nn_conn_finalize_ok[OF inv2, of c2] c1 by auto
      moreover from this 1 ne have "nn_conn_repack mc = Some (NGX_ERROR, mc')"
        by (subst nn_conn_repack.simps) (simp add: b(1) p(1) c1 ob)
      ultimately show ?thesis by (simp add: sent_outcome_def)
    next
      case 2
      obtain r c3 where h: "event_handle_write c2 = (r, c3)" by force
      have s3: "c_sent_bytes c3 = c_sent_bytes c2" using event_handle_write_sent[of c2] h by simp
      define c4 where "c4 = (if r = NGX_ERROR then c3 else upd_ev EVENT_WRITE_EVENT (\<lambda>e. e\<lparr>ev_timer_set := True\<rparr>) c3)"
      define m4 where "m4 = ?m2\<lparr>mc_connection := Some c4\<rparr>"
      have "nn_conn_repack mc = Some (if r = NGX_ERROR then NGX_ERROR else NGX_AGAIN, m4)"
        using 2 ne by (subst nn_conn_repack.simps) (simp add: b(1) p(1) c1 ob h c4_def m4_def)
      moreover have "c_sent_bytes c4 = c_sent_bytes c2" using s3 by (simp add: c4_def upd_ev_def)
      then have "conn_inv used m4" "answers m4 (drop k pls)" "out_stream c4 m4 (drop k pls) = out_stream c mc pls"
        "mc_connection m4 = Some c4" "mc_state m4 = ST_CONNCECTED"
        using inv2 a2 str2 c1 by (simp_all add: m4_def conn_inv_defs answers_def answer_def[abs_def] out_stream_def out_frames_def)
      then have "sent_outcome used (out_stream c mc pls) (b_end (mc_out mc)) (if r = NGX_ERROR then NGX_ERROR else NGX_AGAIN) m4"
        unfolding sent_outcome_def by (intro disjI1) auto
      ultimately show ?thesis by blast
    next
      case 3
      have run: "nn_conn_repack mc = nn_conn_repack ?m2"
        using 3 ne by (subst nn_conn_repack.simps) (simp add: b(1) p(1) c1 ob)
      have "k = 0 \<Longrightarrow> buffer_data (mc_out mc) \<noteq> []" using p(8) b(4) False by simp
      then have "2 * length (drop k pls) + (if buffer_data (mc_out ?m2) = [] then 0 else 1)
          < 2 * length pls + (if buffer_data (mc_out mc) = [] then 0 else 1)"
        using 3(2) p(7) by (cases "k = 0") auto
      from less.hyps[OF this inv2 _ _ a2, of c2] c1(2) obtain rc' mc' where
        "nn_conn_repack ?m2 = Some (rc', mc')"
        "sent_outcome used (out_stream c2 ?m2 (drop k pls)) (b_end b2) rc' mc'" by auto
      then show ?thesis using run str2 obk p(6) b(5) by simp
    qed
  qed
qed

section \<open>Properties\<close>

text \<open>C1: reading, under these conditions: the bytes that are buffered and those that the kernel has are frames of
  proper tasks, the last of them possibly incomplete; of an incomplete one at least the four bytes of the length word have
  arrived (a cut within the length word is read with stale bytes, \<open>task_decode_cut_length_word\<close>);
  together they are shorter than the input buffer; there are fewer complete frames than free nodes (with more, the connection
  is slowed down, see below); and neither the end of the stream nor
  an error is read. Then, however the network has cut the stream into pieces, and wherever \<^verbatim>\<open>recv\<close> is interrupted by
  signals, one run of \<^verbatim>\<open>nn_conn_read_handler\<close> receives all of it, dispatches one free node per
  complete frame, in the order of the frames and with the decoded task, and keeps the incomplete
  rest at the start of the input buffer for the next run.\<close>

theorem nn_conn_read_delivers:
  assumes "conn_inv used mc" "mc_state mc = ST_CONNCECTED" "mc_connection mc = Some c" "rx_plain (c_rx c)"
    and str: "buffer_data (mc_in mc) @ rx_bytes (c_rx c) = frames tps @ rest" and "all_framable tps"
    and "framable t pl" "frame t pl = rest @ miss" "miss \<noteq> []" "4 \<le> length rest \<or> rest = []"
    and fits: "length (frames tps @ rest) < b_end (mc_in mc)" and nodes: "length tps < length (mc_free_task mc)"
  shows "\<exists>mc'. nn_conn_read_handler mc = Some mc' \<and> conn_inv (used @ take (length tps) (mc_free_task mc)) mc' \<and>
    mc_state mc' = ST_CONNCECTED \<and> buffer_data (mc_in mc') = rest \<and> b_pos (mc_in mc') = 0 \<and>
    mc_dispatched mc' = mc_dispatched mc @ arrivals (mc_task mc) (mc_in_addr mc) 0 (mc_free_task mc) tps"
proof -
  obtain rc m1 c1 where r: "nn_conn_recv mc = Some (rc, m1)" "conn_inv used m1"
    "m1 = mc\<lparr>mc_in := mc_in m1, mc_connection := Some c1\<rparr>" "b_pos (mc_in m1) = 0"
    "buffer_data (mc_in m1) @ rx_bytes (c_rx c1) = frames tps @ rest"
    "rc = NGX_BUFFER_FULL \<longrightarrow> length (buffer_data (mc_in m1)) = b_end (mc_in mc)"
    "rc = NGX_BUFFER_FULL \<or> rc = NGX_AGAIN \<and> c_rx c1 = []"
    using nn_conn_recv_ok[OF assms(1-3)] assms(4) str by metis
  have "length (buffer_data (mc_in m1)) < b_end (mc_in mc)"
    using arg_cong[OF r(5), of length] fits by (simp del: length_buffer_data)
  then have rc: "rc = NGX_AGAIN" and d1: "buffer_data (mc_in m1) = frames tps @ rest" using r(5-7) by auto
  have same: "mc_free_task m1 = mc_free_task mc" "mc_task m1 = mc_task mc" "mc_in_addr m1 = mc_in_addr mc"
    "mc_dispatched m1 = mc_dispatched mc" "mc_state m1 = ST_CONNCECTED"
    by (subst r(3), simp add: assms(2))+
  obtain m2 where m2: "nn_conn_decode m1 = nn_conn_decode m2"
    "conn_inv (used @ take (length tps) (mc_free_task mc)) m2" "mc_free_task m2 = drop (length tps) (mc_free_task mc)"
    "buffer_data (mc_in m2) = rest" "mc_state m2 = ST_CONNCECTED"
    "mc_dispatched m2 = mc_dispatched mc @ arrivals (mc_task mc) (mc_in_addr mc) 0 (mc_free_task mc) tps"
    using nn_conn_decode_frames[OF r(2) assms(6) d1] nodes same r(4) by (auto simp: same_rest_def)
  have "mc_free_task m2 \<noteq> []" using m2(3) nodes by simp
  then obtain x xs where "mc_free_task m2 = x # xs" by (meson neq_Nil_conv)
  from nn_conn_decode_again[OF m2(2,5) this assms(7) _ assms(9)] assms(8,10) m2(4) obtain mc' where
    "nn_conn_decode m2 = Some (NGX_AGAIN, mc')" "conn_inv (used @ take (length tps) (mc_free_task mc)) mc'"
    "buffer_data (mc_in mc') = rest" "b_pos (mc_in mc') = 0" "mc_dispatched mc' = mc_dispatched m2" "mc_state mc' = ST_CONNCECTED"
    using m2(5) by auto
  moreover have "mc_pool mc" using assms(1) by (simp add: conn_inv_def conn_core_def)
  ultimately show ?thesis using m2(1,6) r(1) rc
    by (simp add: nn_conn_read_handler_def alive_def assms(2))
qed

definition ex_mc :: "buffer_t \<Rightarrow> buffer_t \<Rightarrow> rx_ans list \<Rightarrow> tx_ans list \<Rightarrow> nn_conn_t" where
  "ex_mc i q rx tx = \<lparr>mc_connection = Some (ex_conn\<lparr>c_rx := rx, c_tx := tx, c_write := ev_zero\<lparr>ev_ready := True\<rparr>\<rparr>),
     mc_in = i, mc_out = q, mc_out_task = [], mc_free_task = [1000, 2000], mc_read_handler = True,
     mc_write_handler = False, mc_count = 0, mc_slow = 0, mc_max_task = 2, mc_state = ST_CONNCECTED,
     mc_timer_set = False, mc_pool = True, mc_task = (\<lambda>x. task_zero), mc_heap = (\<lambda>p. None),
     mc_in_addr = 4096, mc_dispatched = [], mc_released = []\<rparr>"

lemma task_zero_fields [simp]: "t_data task_zero = 0" "t_data_len task_zero = 0" "t_opq task_zero = 0"
  by (simp_all add: task_zero_def task_of_repr_def sizeof_task_def de64_def de32_def numeral_nat)

lemma conn_inv_ex_mc: "buffer_wf i \<Longrightarrow> buffer_wf q \<Longrightarrow> conn_inv [] (ex_mc i q rx tx)"
  by (simp add: ex_mc_def conn_inv_defs owned_ok_def owned_def)

theorem nn_conn_read_delivers_witness:
  "\<exists>mc'. nn_conn_read_handler (ex_mc (ex_buffer (replicate 800 0) 0) (ex_buffer (replicate 800 0) 0)
      [Rx_data (take 100 (frame ex_task [65, 66])), Rx_eintr, Rx_data (drop 100 (frame ex_task [65, 66]))] []) = Some mc' \<and>
    mc_dispatched mc' = [(1000, received 0 4440 ex_task)]"
proof -
  let ?f = "frame ex_task [65, 66]"
  let ?rx = "[Rx_data (take 100 ?f), Rx_eintr, Rx_data (drop 100 ?f)]"
  let ?b = "ex_buffer (replicate 800 0) 0"
  have wf: "buffer_wf ?b" "buffer_data ?b = []" by (simp_all add: ex_buffer_def buffer_wf_def buffer_data_def)
  have L: "length ?f = 346" by (simp add: framable_ex_task)
  have ne: "?f \<noteq> []" using L by auto
  have plain: "rx_plain ?rx" using L by (auto simp: rx_plain_def)
  show ?thesis
    using nn_conn_read_delivers[OF conn_inv_ex_mc[OF wf(1) wf(1), of ?rx "[]"], of _ "[(ex_task, [65, 66])]" "[]" ex_task "[65, 66]" ?f]
      plain L ne framable_ex_task wf by (auto simp: ex_mc_def ex_buffer_def)
qed

text \<open>C9: back-pressure. When there are more complete frames than free nodes, the decoder dispatches one
  frame per node, leaves the other frames in the buffer, marks the connection as slow, takes it out of
  the read set and arms the timer that tries again.\<close>

theorem nn_conn_decode_backpressure:
  assumes "conn_inv used mc" "mc_connection mc = Some c" "all_framable tps"
    "buffer_data (mc_in mc) = frames tps @ rest" "length (mc_free_task mc) \<le> length tps"
  shows "\<exists>mc'. nn_conn_decode mc = Some (NGX_BUSY, mc') \<and> mc_slow mc' = 1 \<and> mc_timer_set mc' \<and>
    mc_connection mc' = Some (snd (event_del_read c)) \<and> mc_free_task mc' = [] \<and>
    buffer_data (mc_in mc') = frames (drop (length (mc_free_task mc)) tps) @ rest \<and>
    map fst (mc_dispatched mc') = map fst (mc_dispatched mc) @ mc_free_task mc"
proof -
  let ?n = "length (mc_free_task mc)"
  let ?now = "take ?n tps" and ?later = "drop ?n tps"
  have "all_framable ?now" "buffer_data (mc_in mc) = frames ?now @ (frames ?later @ rest)"
    using assms(3,4) by (simp_all add: all_framable_def flip: frames_simps(3) append_assoc) (metis in_set_takeD)
  from nn_conn_decode_frames[OF assms(1) this] assms(5) obtain m1 where
    m1: "nn_conn_decode mc = nn_conn_decode m1" "conn_inv (used @ mc_free_task mc) m1" "mc_free_task m1 = []"
    "buffer_data (mc_in m1) = frames ?later @ rest" "mc_connection m1 = Some c"
    "mc_dispatched m1 = mc_dispatched mc @ arrivals (mc_task mc) (mc_in_addr mc) (b_pos (mc_in mc)) (mc_free_task mc) ?now"
    using assms(2) by (auto simp: same_rest_def min_absorb2)
  have "map fst (arrivals tk base pos xs tps') = xs" if "length tps' = length xs" for tk base pos xs tps'
    using that by (induction tk base pos xs tps' rule: arrivals.induct) auto
  then show ?thesis
    using m1 nn_conn_decode_busy[OF m1(2,3,5)] assms(5) by simp
qed

theorem nn_conn_decode_backpressure_witness:
  "\<exists>mc'. nn_conn_decode ((ex_mc (ex_buffer (frame ex_task [65, 66]) 346) (ex_buffer (replicate 800 0) 0) [] [])
      \<lparr>mc_free_task := [], mc_max_task := 0\<rparr>) = Some (NGX_BUSY, mc') \<and> mc_slow mc' = 1 \<and> mc_timer_set mc'"
proof -
  let ?i = "ex_buffer (frame ex_task [65, 66]) 346" and ?q = "ex_buffer (replicate 800 0) 0"
  let ?m = "(ex_mc ?i ?q [] [])\<lparr>mc_free_task := [], mc_max_task := 0\<rparr>"
  have L: "length (frame ex_task [65, 66]) = 346" by (simp add: framable_ex_task)
  then have "buffer_wf ?i" "buffer_wf ?q" "buffer_data ?i = frames [(ex_task, [65, 66])] @ []"
    by (simp_all add: ex_buffer_def buffer_wf_def buffer_data_def)
  then have "conn_inv [] ?m" "buffer_data (mc_in ?m) = frames [(ex_task, [65, 66])] @ []"
    by (simp_all add: ex_mc_def conn_inv_defs owned_ok_def)
  then show ?thesis
    using nn_conn_decode_backpressure[of "[]" ?m _ "[(ex_task, [65, 66])]" "[]"] framable_ex_task
    by (auto simp: ex_mc_def)
qed

text \<open>C2: sending. \<^verbatim>\<open>nn_conn_outtask\<close> queues an answer and sends what it can. It always returns, and
  whatever the kernel accepts, the bytes sent so far, the output buffer and the frames of the queued
  answers together remain the same stream: no byte is lost, repeated or reordered. It returns
  \<^verbatim>\<open>NGX_OK\<close> only when the buffer is empty and the first queued answer, if any, is larger than the
  whole buffer. If the connection fails instead, it is finalized.\<close>

theorem nn_conn_outtask_stream:
  assumes "conn_inv (us @ x # vs) mc" "mc_state mc = ST_CONNCECTED" "mc_connection mc = Some c"
    "answers (mc\<lparr>mc_out_task := mc_out_task mc @ [x]\<rparr>) pls" "returnable mc x"
  shows "\<exists>rc mc'. nn_conn_outtask mc x = Some (rc, mc') \<and>
    sent_outcome (us @ vs) (out_stream c (mc\<lparr>mc_out_task := mc_out_task mc @ [x]\<rparr>) pls) (b_end (mc_out mc)) rc mc' \<or>
    nn_conn_outtask mc x = Some (NGX_AGAIN, mc\<lparr>mc_out_task := mc_out_task mc @ [x]\<rparr>)"
proof -
  let ?m = "mc\<lparr>mc_out_task := mc_out_task mc @ [x]\<rparr>"
  have "owned_ok (mc_task mc) (mc_heap mc) (mc_free_task mc) (mc_out_task mc @ [x])"
    using assms(1,5) by (auto simp: conn_inv_defs owned_ok_def returnable_def owned_def)
  then have inv: "conn_inv (us @ vs) ?m" using assms(1,2) by (auto simp: conn_inv_defs)
  have x: "x \<notin> set (mc_free_task mc) \<union> set (mc_out_task mc)" "mc_pool mc"
    using assms(1) by (auto simp: conn_inv_defs)
  have run: "nn_conn_outtask mc x = nn_conn_output ?m"
    using x assms(2) by (simp add: nn_conn_outtask_def alive_def)
  show ?thesis
  proof (cases "\<not> ev_ready (c_write c) \<and> 0 < buffer_size (mc_out mc)")
    case True
    then show ?thesis using run x assms(3) by (simp add: nn_conn_output_def alive_def)
  next
    case False
    let ?m1 = "?m\<lparr>mc_write_handler := True\<rparr>"
    have "conn_inv (us @ vs) ?m1" "mc_state ?m1 = ST_CONNCECTED" "mc_connection ?m1 = Some c" "answers ?m1 pls"
      using inv assms(2-4) by (simp_all add: conn_inv_defs answers_def answer_def[abs_def])
    from nn_conn_repack_ok[OF this] show ?thesis using run x assms(3) False
      by (simp add: nn_conn_output_def alive_def out_stream_def out_frames_def)
  qed
qed

theorem nn_conn_outtask_stream_witness:
  "\<exists>mc mc' rc. nn_conn_outtask (mc\<lparr>mc_free_task := [2000], mc_count := 1\<rparr>) 1000 = Some (rc, mc') \<and>
    mc = ex_mc (ex_buffer (replicate 800 0) 0) (ex_buffer (replicate 800 0) 0) [] [Tx_n 100, Tx_n 1000]"
proof -
  let ?b = "ex_buffer (replicate 800 0) 0"
  let ?m = "(ex_mc ?b ?b [] [Tx_n 100, Tx_n 1000])\<lparr>mc_free_task := [2000], mc_count := 1\<rparr>"
  have "buffer_wf ?b" by (simp add: ex_buffer_def buffer_wf_def)
  then have "conn_inv ([] @ 1000 # []) ?m" by (simp add: ex_mc_def conn_inv_defs owned_ok_def owned_def)
  moreover have "framable task_zero []" by (simp add: framable_def)
  then have "answers (?m\<lparr>mc_out_task := mc_out_task ?m @ [1000]\<rparr>) [[]]" by (simp add: answers_def answer_def ex_mc_def)
  moreover have "returnable ?m 1000" by (simp add: returnable_def owned_def ex_mc_def)
  moreover have "mc_state ?m = ST_CONNCECTED" "\<exists>c. mc_connection ?m = Some c" by (simp_all add: ex_mc_def)
  ultimately obtain rc mc' where "nn_conn_outtask ?m 1000 = Some (rc, mc')"
    using nn_conn_outtask_stream[of "[]" 1000 "[]" ?m] by blast
  then show ?thesis by blast
qed

section \<open>The end of a connection\<close>

fun outtask_seq :: "nn_conn_t \<Rightarrow> addr list \<Rightarrow> nn_conn_t option" where
  "outtask_seq mc [] = Some mc"
| "outtask_seq mc (x # xs) = do { (rc, mc) \<leftarrow> nn_conn_outtask mc x; outtask_seq mc xs }"

text \<open>The nodes in flight own distinct heap blocks.\<close>

definition flight_ok :: "nn_conn_t \<Rightarrow> addr list \<Rightarrow> bool" where
  "flight_ok mc us \<longleftrightarrow> distinct (concat (map (owned (mc_task mc)) us)) \<and>
     (\<forall>p\<in>set (concat (map (owned (mc_task mc)) us)). mc_heap mc p \<noteq> None)"

lemma mset_concat_map: "mset us = mset vs \<Longrightarrow> mset (concat (map f us)) = mset (concat (map f vs))"
proof -
  have "mset (concat (map f ws)) = sum_mset (image_mset (\<lambda>x. mset (f x)) (mset ws))" for ws
    by (induction ws) auto
  then show "mset us = mset vs \<Longrightarrow> ?thesis" by simp
qed

lemma conn_inv_perm: "mset us = mset used \<Longrightarrow> conn_inv used mc \<Longrightarrow> conn_inv us mc"
proof -
  assume p: "mset us = mset used"
  then have "set us = set used" "length us = length used" "distinct us = distinct used" "us = [] \<longleftrightarrow> used = []"
    by (metis set_mset_mset, metis size_mset, metis mset_eq_imp_distinct_iff, metis mset_zero_iff mset.simps(1))
  then show "conn_inv used mc \<Longrightarrow> conn_inv us mc" by (simp add: conn_inv_defs)
qed

lemma flight_ok_freed:
  assumes "flight_ok mc (x # xs)" "x \<notin> set xs"
  shows "flight_ok (freed mc x) xs"
proof -
  have m: "map (owned (mc_task (freed mc x))) xs = map (owned (mc_task mc)) xs"
    using assms(2) by (intro map_owned_cong) (metis freed_simps(14) without_data_simps(14))
  have "p \<notin> set (owned (mc_task mc) x)" if "p \<in> set (concat (map (owned (mc_task mc)) xs))" for p
    using that assms(1) by (auto simp: flight_ok_def)
  then show ?thesis using assms(1) unfolding flight_ok_def m by simp
qed

lemma outtask_seq_drains:
  assumes "conn_inv us mc" "mc_state mc = ST_DISCONNCECTED" "flight_ok mc us"
  shows "\<exists>mc'. outtask_seq mc us = Some mc' \<and> \<not> mc_pool mc' \<and>
    (\<forall>vs ws. us = vs @ ws \<longrightarrow> ws \<noteq> [] \<longrightarrow> (\<exists>m. outtask_seq mc vs = Some m \<and> mc_pool m))"
  using assms
proof (induction us arbitrary: mc)
  case Nil
  then show ?case by (simp add: conn_inv_def)
next
  case (Cons x xs)
  have pool: "mc_pool mc" and x: "x \<notin> set (mc_free_task mc)" "x \<notin> set (mc_out_task mc)" "x \<notin> set xs"
    and out: "mc_out_task mc = []" and cnt: "mc_count mc = int (length (x # xs))"
    using Cons.prems(1,2) by (auto simp: conn_inv_defs)
  have own: "\<forall>p\<in>set (owned (mc_task mc) x). mc_heap mc p \<noteq> None" using Cons.prems(3) by (simp add: flight_ok_def)
  show ?case
  proof (cases "xs = []")
    case True
    then have "nn_conn_outtask mc x = Some (NGX_OK, (freed mc x)\<lparr>mc_pool := False\<rparr>)"
      using nn_conn_free_task_eq(2)[OF pool x(1,2) own] Cons.prems(2) cnt pool by (simp add: nn_conn_outtask_def alive_def)
    moreover have "\<exists>m. outtask_seq mc vs = Some m \<and> mc_pool m" if "x # xs = vs @ ws" "ws \<noteq> []" for vs ws
    proof -
      have "vs = []" using that True by (auto simp: Cons_eq_append_conv)
      then show ?thesis using pool by simp
    qed
    ultimately show ?thesis using True by simp
  next
    case False
    have inv: "conn_inv ([] @ x # xs) mc" "returnable mc x" using Cons.prems(1) own out by (simp_all add: returnable_def)
    note fr = conn_inv_freed[OF inv]
    have step: "nn_conn_outtask mc x = Some (NGX_OK, freed mc x)"
      using fr(1) False pool Cons.prems(2) by (simp add: nn_conn_outtask_def alive_def)
    from Cons.IH[OF _ _ flight_ok_freed[OF Cons.prems(3) x(3)]] fr(2) False Cons.prems(2) obtain mc' where
      m': "outtask_seq (freed mc x) xs = Some mc'" "\<not> mc_pool mc'"
      "\<forall>vs ws. xs = vs @ ws \<longrightarrow> ws \<noteq> [] \<longrightarrow> (\<exists>m. outtask_seq (freed mc x) vs = Some m \<and> mc_pool m)" by auto
    have "\<exists>m. outtask_seq mc vs = Some m \<and> mc_pool m" if "x # xs = vs @ ws" "ws \<noteq> []" for vs ws
      using that m'(3) step pool by (cases vs) auto
    then show ?thesis using m'(1,2) step by auto
  qed
qed

text \<open>C3: teardown. \<^verbatim>\<open>nn_conn_finalize\<close> on a connected connection gives the connection back once, frees
  every queued answer and, while nodes are still with the task threads, keeps the pool. The nodes may
  then come back through \<^verbatim>\<open>nn_conn_outtask\<close> in any order: the pool exists until the last one and is
  destroyed with it, so no returning node finds freed memory and nothing is freed twice.\<close>

theorem nn_conn_teardown:
  assumes inv: "conn_inv used mc" and st: "mc_state mc = ST_CONNCECTED" "mc_connection mc = Some c"
    and fl: "flight_ok mc (mc_out_task mc @ used)" and us: "mset us = mset used"
  shows "\<exists>mc0 mc1. nn_conn_finalize mc = Some mc0 \<and>
    mc_released mc0 = mc_released mc @ [conn_release (c\<lparr>c_has_data := False\<rparr>)] \<and>
    outtask_seq mc0 us = Some mc1 \<and> \<not> mc_pool mc1 \<and>
    (\<forall>vs ws. us = vs @ ws \<longrightarrow> ws \<noteq> [] \<longrightarrow> (\<exists>m. outtask_seq mc0 vs = Some m \<and> mc_pool m))"
proof -
  obtain mc0 where m0: "nn_conn_finalize mc = Some mc0" "mc_state mc0 = ST_DISCONNCECTED"
    "mc_released mc0 = mc_released mc @ [conn_release (c\<lparr>c_has_data := False\<rparr>)]"
    "if used = [] then \<not> mc_pool mc0 else conn_inv used mc0"
    "\<forall>x. x \<notin> set (mc_out_task mc) \<longrightarrow> mc_task mc0 x = mc_task mc x"
    "\<forall>p. p \<notin> set (concat (map (owned (mc_task mc)) (mc_out_task mc))) \<longrightarrow> mc_heap mc0 p = mc_heap mc p"
    using nn_conn_finalize_ok[OF inv st] by blast
  have set: "set us = set used" using us by (metis set_mset_mset)
  show ?thesis
  proof (cases "used = []")
    case True
    then have "us = []" using us by simp
    then show ?thesis using m0(1,3,4) True by simp
  next
    case False
    have "x \<notin> set (mc_out_task mc)" if "x \<in> set us" for x using that inv set by (auto simp: conn_inv_defs)
    then have own: "map (owned (mc_task mc0)) us = map (owned (mc_task mc)) us"
      using m0(5) by (intro map_owned_cong) blast
    have "mset (concat (map (owned (mc_task mc)) us)) = mset (concat (map (owned (mc_task mc)) used))"
      using us by (rule mset_concat_map)
    then have "distinct (concat (map (owned (mc_task mc)) us)) = distinct (concat (map (owned (mc_task mc)) used))"
      "set (concat (map (owned (mc_task mc)) us)) = set (concat (map (owned (mc_task mc)) used))"
      by (rule mset_eq_imp_distinct_iff, rule mset_eq_setD)
    then have "flight_ok mc us" "set (concat (map (owned (mc_task mc)) us)) \<inter> set (concat (map (owned (mc_task mc)) (mc_out_task mc))) = {}"
      using fl unfolding flight_ok_def by (simp_all add: Int_commute)
    then have "flight_ok mc0 us" using m0(6) unfolding flight_ok_def own by (metis disjoint_iff)
    moreover have "conn_inv us mc0" using conn_inv_perm[OF us] m0(4) False by simp
    ultimately show ?thesis using outtask_seq_drains m0(1-3) by blast
  qed
qed

theorem nn_conn_teardown_witness:
  "\<exists>mc0 mc1. nn_conn_finalize ((ex_mc (ex_buffer (replicate 800 0) 0) (ex_buffer (replicate 800 0) 0) [] [])
      \<lparr>mc_free_task := [2000], mc_count := 1\<rparr>) = Some mc0 \<and> outtask_seq mc0 [1000] = Some mc1 \<and> \<not> mc_pool mc1"
proof -
  let ?b = "ex_buffer (replicate 800 0) 0"
  let ?m = "(ex_mc ?b ?b [] [])\<lparr>mc_free_task := [2000], mc_count := 1\<rparr>"
  have "buffer_wf ?b" by (simp add: ex_buffer_def buffer_wf_def)
  then have "conn_inv [1000] ?m" "flight_ok ?m (mc_out_task ?m @ [1000])"
    by (simp_all add: ex_mc_def conn_inv_defs owned_ok_def owned_def flight_ok_def)
  moreover have "mc_state ?m = ST_CONNCECTED" "\<exists>c. mc_connection ?m = Some c" by (simp_all add: ex_mc_def)
  ultimately show ?thesis using nn_conn_teardown[of "[1000]" ?m _ "[1000]"] by blast
qed

lemma foldl_insert_head: "foldl (\<lambda>f x. x # f) acc xs = rev xs @ acc"
  by (induction xs arbitrary: acc) auto

text \<open>\<^verbatim>\<open>nn_conn_init\<close> sets the invariant up: \<open>max_task\<close> distinct free nodes, none in use, both queues and
  buffers empty; with that the other theorems apply to every new connection.\<close>

theorem nn_conn_init_invariant:
  assumes "nn_conn_init pool_ok mc_ok (Some i) (Some q) (Some a) n mem in_addr c = Init_ok mc"
    "buffer_wf i" "buffer_wf q" "a \<noteq> nullptr"
  shows "conn_inv [] mc \<and> mc_state mc = ST_CONNCECTED \<and> length (mc_free_task mc) = n \<and> mc_count mc = 0 \<and>
    mc_out_task mc = [] \<and> (\<forall>x\<in>set (mc_free_task mc). t_opq (mc_task mc x) = wbt_of x)"
proof -
  let ?ns = "map (\<lambda>k. a + k * sizeof_wb_node) [0..<n]"
  obtain c1 where mc: "mc = \<lparr>mc_connection = Some c1, mc_in = i, mc_out = q, mc_out_task = [],
      mc_free_task = rev ?ns, mc_read_handler = True, mc_write_handler = False, mc_count = 0, mc_slow = 0,
      mc_max_task = int n, mc_state = ST_CONNCECTED, mc_timer_set = False, mc_pool = True,
      mc_task = (\<lambda>x. if x \<in> set ?ns then (mem x)\<lparr>t_opq := wbt_of x, t_data := 0\<rparr> else mem x),
      mc_heap = (\<lambda>p. None), mc_in_addr = in_addr, mc_dispatched = [], mc_released = []\<rparr>"
    using assms(1) by (auto simp: nn_conn_init_def Let_def foldl_insert_head split: if_splits prod.splits)
  have "distinct ?ns" "nullptr \<notin> set ?ns" using assms(4) by (auto simp: distinct_map inj_on_def sizeof_wb_node_def)
  then show ?thesis using assms(2,3)
    by (simp add: mc conn_inv_defs owned_ok_def owned_def del: set_map)
qed

theorem nn_conn_init_invariant_witness:
  "\<exists>mc. nn_conn_init True True (Some (ex_buffer (replicate 800 0) 0)) (Some (ex_buffer (replicate 800 0) 0)) (Some 1000) 3
     (\<lambda>x. task_zero) 4096 ex_conn = Init_ok mc \<and> conn_inv [] mc \<and> length (mc_free_task mc) = 3"
proof -
  let ?b = "ex_buffer (replicate 800 0) 0"
  have "\<exists>mc. nn_conn_init True True (Some ?b) (Some ?b) (Some 1000) 3 (\<lambda>x. task_zero) 4096 ex_conn = Init_ok mc"
    by (simp add: nn_conn_init_def ex_conn_def event_handle_read_def epoll_add_event_def epoll_ctl_def conn_ev_defs ev_zero_def Let_def)
  then obtain mc where mc: "nn_conn_init True True (Some ?b) (Some ?b) (Some 1000) 3 (\<lambda>x. task_zero) 4096 ex_conn = Init_ok mc" ..
  have "buffer_wf ?b" by (simp add: ex_buffer_def buffer_wf_def)
  with nn_conn_init_invariant[OF mc] mc show ?thesis by simp
qed

lemma event_handle_read_frame:
  "event_handle_read c = (r, c') \<Longrightarrow> c_write c' = c_write c \<and> c_tx c' = c_tx c"
  by (auto simp: event_handle_read_def epoll_add_event_def epoll_ctl_def conn_ev_defs Let_def split: if_splits prod.splits)

text \<open>C23: the timer handler runs the read handler after the write handler without asking whether the
  connection still exists. When the pending output cannot be sent and no node is in flight, the write
  handler destroys the pool and the read handler then uses the freed structure.\<close>

theorem nn_conn_timer_use_after_free:
  assumes inv: "conn_inv [] mc" and st: "mc_state mc = ST_CONNCECTED" "mc_connection mc = Some c" "mc_out_task mc = []"
    and w: "ev_ready (c_write c)" "\<not> ev_timedout (c_write c)" "buffer_data (mc_out mc) \<noteq> []" "c_tx c = Tx_err # ts"
    and r: "fst (event_handle_read c) = NGX_OK"
  shows "nn_conn_timer_handler mc = None"
proof -
  obtain c1 where c1: "event_handle_read c = (NGX_OK, c1)" using r by (metis prod.collapse)
  note fr = event_handle_read_frame[OF c1]
  let ?c = "event_timer_clear EVENT_WRITE_EVENT c1"
  let ?m = "mc\<lparr>mc_timer_set := False, mc_connection := Some ?c\<rparr>"
  have wf: "buffer_wf (mc_out mc)" and pool: "mc_pool mc" using inv by (simp_all add: conn_inv_def conn_core_def)
  obtain b where b: "buffer_shrink (mc_out mc) = Some b" "buffer_wf b" "buffer_data b = buffer_data (mc_out mc)"
    using buffer_shrink_wf[OF wf] by blast
  have c: "ev_ready (c_write ?c)" "c_tx ?c = Tx_err # ts" using fr w by (simp_all add: event_timer_clear_def conn_ev_defs)
  have sz: "nat (buffer_size b) \<noteq> 0" using b w(3) buffer_size_wf[OF b(2)] by (simp del: length_buffer_data)
  then have "\<exists>c2. nn_conn_out_buffer ?c b = (NGX_ERROR, c2, b)"
    using c by (simp add: nn_conn_out_buffer_def nn_conn_out_loop.simps[of ?c b] sysio_unix_send_def NGX_ERROR_def)
  then obtain c2 where c2: "nn_conn_out_buffer ?c b = (NGX_ERROR, c2, b)" ..
  let ?mb = "mc\<lparr>mc_timer_set := False, mc_connection := Some ?c, mc_write_handler := True, mc_out := b\<rparr>"
  have pack: "nn_conn_pack ?mb = Some ?mb" by (subst nn_conn_pack.simps) (simp add: st(3))
  have "conn_inv [] (?mb\<lparr>mc_connection := Some c2, mc_out := b\<rparr>)" using inv st(1) b(2) by (simp add: conn_inv_defs)
  from nn_conn_finalize_ok[OF this, of c2] st(1) obtain m3 where
    m3: "nn_conn_finalize (?mb\<lparr>mc_connection := Some c2, mc_out := b\<rparr>) = Some m3" "\<not> mc_pool m3" by auto
  have "nn_conn_repack (?m\<lparr>mc_write_handler := True\<rparr>) = Some (NGX_ERROR, m3)"
    using m3(1) sz pack c2 by (subst nn_conn_repack.simps) (auto simp: b(1))
  then have "nn_conn_write_handler (mc\<lparr>mc_timer_set := False, mc_connection := Some c1\<rparr>) = Some m3"
    using c(1) fr w(2) pool by (simp add: nn_conn_write_handler_def nn_conn_output_def alive_def st)
  then show ?thesis using m3(2) pool c1 st(2)
    by (simp add: nn_conn_timer_handler_def nn_conn_read_handler_def alive_def NGX_OK_def)
qed

theorem nn_conn_timer_use_after_free_witness:
  "nn_conn_timer_handler (ex_mc (ex_buffer (replicate 800 0) 0) (ex_buffer (replicate 800 0) 1) [] [Tx_err]) = None"
proof -
  let ?m = "ex_mc (ex_buffer (replicate 800 0) 0) (ex_buffer (replicate 800 0) 1) [] [Tx_err]"
  let ?c = "ex_conn\<lparr>c_rx := [], c_tx := [Tx_err], c_write := ev_zero\<lparr>ev_ready := True\<rparr>\<rparr>"
  have "buffer_wf (ex_buffer (replicate 800 0) k)" if "k \<le> 800" for k using that by (simp add: ex_buffer_def buffer_wf_def)
  then have "conn_inv [] ?m" by (intro conn_inv_ex_mc) simp_all
  moreover have "fst (event_handle_read ?c) = NGX_OK"
    by (simp add: event_handle_read_def ex_conn_def epoll_add_event_def epoll_ctl_def conn_ev_defs ev_zero_def Let_def)
  ultimately show ?thesis
    using nn_conn_timer_use_after_free[of ?m ?c "[]"]
    by (simp add: ex_mc_def ex_buffer_def buffer_data_def ev_zero_def)
qed

text \<open>C24: four zero bytes where a length word is read (for instance one zero byte received into a fresh
  buffer of zeros, the low byte of a length that is a multiple of 256) make the decoder dispatch
  every free node with the same bytes without consuming any of them, until it is out of nodes.\<close>

theorem nn_conn_decode_zero_storm:
  assumes "conn_inv used mc" "mc_connection mc = Some c" "buffer_data (mc_in mc) \<noteq> []"
    "rdn (b_mem (mc_in mc)) (b_pos (mc_in mc)) 4 = Some [0, 0, 0, 0]" "b_pos (mc_in mc) + 344 \<le> b_end (mc_in mc)"
  shows "\<exists>mc'. nn_conn_decode mc = Some (NGX_BUSY, mc') \<and> mc_in mc' = mc_in mc \<and> mc_free_task mc' = [] \<and>
    map fst (mc_dispatched mc') = map fst (mc_dispatched mc) @ mc_free_task mc"
  using assms
proof (induction "mc_free_task mc" arbitrary: mc used)
  case Nil
  then show ?case using nn_conn_decode_busy[of used mc c] by simp
next
  case (Cons x xs)
  note free = Cons.hyps(2)[symmetric]
  have wf: "buffer_wf (mc_in mc)" using Cons.prems(1) by (simp add: conn_inv_def conn_core_def)
  have sz: "\<not> buffer_size (mc_in mc) \<le> 0" "to_int32 (buffer_size (mc_in mc)) = buffer_size (mc_in mc)"
    using Cons.prems(3) buffer_size_wf[OF wf] wf by (auto simp: buffer_wf_def buffer_data_def)
  obtain t where dec: "task_decode (mc_in_addr mc) (mc_in mc) (mc_task mc x) = Some (NGX_OK, mc_in mc, t)"
    using sz Cons.prems(4,5)
    by (simp add: task_decode_def task_decodefstr_def sizeof_task_def NGX_OK_def Let_def de32_def)
  let ?m = "note_dispatch (mc\<lparr>mc_free_task := xs, mc_count := mc_count mc + 1,
    mc_in := mc_in mc, mc_task := (mc_task mc)(x := t)\<rparr>) x"
  have run: "nn_conn_decode mc = nn_conn_decode ?m"
    by (subst nn_conn_decode.simps) (simp add: nn_conn_get_task_Some[OF Cons.prems(1) free] dec)
  have "conn_inv (used @ [x]) ?m"
    using conn_inv_take[OF Cons.prems(1) free, of t] by (simp add: note_dispatch_def conn_inv_defs)
  from Cons.hyps(1)[OF _ this] Cons.prems(2-5) run free show ?case
    by (auto simp: note_dispatch_def)
qed

theorem nn_conn_decode_zero_storm_witness:
  "\<exists>mc'. nn_conn_decode (ex_mc (ex_buffer (replicate 800 0) 1) (ex_buffer (replicate 800 0) 0) [] []) = Some (NGX_BUSY, mc') \<and>
    map fst (mc_dispatched mc') = [1000, 2000]"
proof -
  let ?i = "ex_buffer (replicate 800 0) 1"
  let ?m = "ex_mc ?i (ex_buffer (replicate 800 0) 0) [] []"
  have "buffer_wf (ex_buffer (replicate 800 0) k)" if "k \<le> 800" for k using that by (simp add: ex_buffer_def buffer_wf_def)
  then have "conn_inv [] ?m" by (intro conn_inv_ex_mc) simp_all
  moreover have "rdn (b_mem ?i) (b_pos ?i) 4 = Some [0, 0, 0, 0]" by (simp add: ex_buffer_def numeral_nat)
  moreover have "\<exists>c. mc_connection ?m = Some c" "mc_in ?m = ?i" "mc_dispatched ?m = []" "mc_free_task ?m = [1000, 2000]"
    by (simp_all add: ex_mc_def)
  moreover have "buffer_data ?i \<noteq> []" "b_pos ?i + 344 \<le> b_end ?i" by (simp_all add: ex_buffer_def buffer_data_def)
  ultimately show ?thesis using nn_conn_decode_zero_storm[of "[]" ?m] by fastforce
qed

end
