(* ===== verification/Nn_Server.thy ===== *)
theory Nn_Server
  imports Nn_Conn
begin

text \<open>
  The path of a task through the threads: \<^verbatim>\<open>dispatch_task\<close> (\<^verbatim>\<open>src/src/dn_worker_process.cpp\<close>), the task
  threads (\<^verbatim>\<open>nn_task_handler.cpp\<close>, \<^verbatim>\<open>nn_rpc_server.cpp\<close>, \<^verbatim>\<open>task_test.cpp\<close>), the way back to the client
  thread (\<^verbatim>\<open>nn_net_response_handler.cpp\<close>) and the pipe that wakes a thread up
  (\<^verbatim>\<open>core/dfs_notice.cpp\<close>). A task queue is the list of its nodes, head first, on which \<open>Nn_TaskQueue\<close>
  shows \<open>push_task\<close> and \<open>pop_all\<close> to act; the nodes belong to connections of \<open>Nn_Conn\<close>.
\<close>

section \<open>State\<close>

datatype thread_type = THREAD_MASTER | THREAD_WORKER | THREAD_DN | THREAD_CLI_TEST | THREAD_PAXOS | THREAD_TASK

text \<open>
  \<open>sv_owner\<close> is the connection that a node belongs to (\<^verbatim>\<open>((nn_wb_t *)opq)->mc\<close>); \<open>sv_pipe\<close> and
  \<open>sv_cli_pipe\<close> count the bytes in the notice pipes of the task threads and of the client thread.
\<close>

record server_t =
  sv_conn :: "nat \<Rightarrow> nn_conn_t"
  sv_owner :: "addr \<Rightarrow> nat"
  sv_task_num :: nat
  sv_tq :: "nat \<Rightarrow> addr list"
  sv_pipe :: "nat \<Rightarrow> nat"
  sv_thread_id :: "nat \<Rightarrow> u64"
  sv_last_task :: nat
  sv_cli_type :: thread_type
  sv_cli_tq :: "addr list"
  sv_bque :: "nat \<Rightarrow> addr list"
  sv_queue_size :: nat
  sv_cli_pipe :: nat

definition sv_task :: "server_t \<Rightarrow> addr \<Rightarrow> task_t" where
  "sv_task s node = mc_task (sv_conn s (sv_owner s node)) node"

definition upd_task :: "server_t \<Rightarrow> addr \<Rightarrow> (task_t \<Rightarrow> task_t) \<Rightarrow> server_t" where
  "upd_task s node f =
     (let o' = sv_owner s node; mc = sv_conn s o' in
      s\<lparr>sv_conn := (sv_conn s)(o' := mc\<lparr>mc_task := (mc_task mc)(node := f (mc_task mc node))\<rparr>)\<rparr>)"

section \<open>Notices\<close>

definition PIPE_CAP :: nat where "PIPE_CAP = 65536"

text \<open>\<^verbatim>\<open>notice_wake_up\<close> writes one byte; on a full pipe the write fails with \<^verbatim>\<open>EAGAIN\<close>, which is ignored.\<close>

definition notice_wake_up :: "nat \<Rightarrow> int \<times> nat" where
  "notice_wake_up pipe = (NGX_OK, if pipe < PIPE_CAP then pipe + 1 else pipe)"

definition NOTICE_BUFF_SIZE :: nat where "NOTICE_BUFF_SIZE = 1024"

text \<open>The loop of \<^verbatim>\<open>noice_read_event_handler\<close>: read until nothing is left.\<close>

function notice_drain :: "nat \<Rightarrow> nat" where
  "notice_drain pipe = (if pipe = 0 then 0 else notice_drain (pipe - min NOTICE_BUFF_SIZE pipe))"
  by auto

termination
  by (relation "measure id") (auto simp: NOTICE_BUFF_SIZE_def)

declare notice_drain.simps [simp del]

lemma notice_drain_0 [simp]: "notice_drain n = 0"
  by (induction n rule: notice_drain.induct) (subst notice_drain.simps, auto)

section \<open>Dispatch\<close>

text \<open>\<^verbatim>\<open>hash_task_key\<close> returns the first (signed) character of the key as an \<^verbatim>\<open>int\<close>.\<close>

definition hash_task_key :: "u8 list \<Rightarrow> int" where
  "hash_task_key key = sint (key ! 0)"

definition dispatch_index :: "server_t \<Rightarrow> u8 list \<Rightarrow> nat option" where
  "dispatch_index s key =
     (if sv_task_num s = 0 then None
      else Some (unat (word_of_int (hash_task_key key) :: u32) mod sv_task_num s))"

text \<open>
  The last three statements of \<^verbatim>\<open>dispatch_task\<close> as the list of its atomic actions on the state that the
  threads share: the assignment of the global \<^verbatim>\<open>dispatch_last_task\<close>, \<^verbatim>\<open>push_task\<close> (under the lock of the queue)
  and the write to the pipe. The latter two read the global again, as in the code. \<open>dispatch_task\<close> executes the
  list; the interleavings below execute the same list action by action.
\<close>

datatype send_act = Choose nat | Push addr | Notify

fun exec_send :: "send_act \<Rightarrow> server_t \<Rightarrow> server_t" where
  "exec_send (Choose i) s = s\<lparr>sv_last_task := i\<rparr>"
| "exec_send (Push node) s = (let i = sv_last_task s in s\<lparr>sv_tq := (sv_tq s)(i := node # sv_tq s i)\<rparr>)"
| "exec_send Notify s =
     (let i = sv_last_task s in s\<lparr>sv_pipe := (sv_pipe s)(i := snd (notice_wake_up (sv_pipe s i)))\<rparr>)"

definition dispatch_prog :: "nat \<Rightarrow> addr \<Rightarrow> send_act list" where
  "dispatch_prog i node = [Choose i, Push node, Notify]"

definition dispatch_task :: "server_t \<Rightarrow> addr \<Rightarrow> server_t option" where
  "dispatch_task s node = do {
     i \<leftarrow> dispatch_index s (t_key (sv_task s node));
     Some (fold exec_send (dispatch_prog i node) s) }"

section \<open>The way back\<close>

text \<open>\<open>me\<close> is the task thread that runs; its thread id chooses the return queue.\<close>

definition write_back :: "server_t \<Rightarrow> nat \<Rightarrow> addr \<Rightarrow> (int \<times> server_t) option" where
  "write_back s me node =
     (let (rc, pipe) = notice_wake_up (sv_cli_pipe s) in
      if sv_cli_type s = THREAD_CLI_TEST then
        (if sv_queue_size s = 0 then None
         else (let i = unat (sv_thread_id s me) mod sv_queue_size s in
           Some (rc, s\<lparr>sv_bque := (sv_bque s)(i := node # sv_bque s i), sv_cli_pipe := pipe\<rparr>)))
      else Some (rc, s\<lparr>sv_cli_tq := node # sv_cli_tq s, sv_cli_pipe := pipe\<rparr>))"

definition write_back_task :: "server_t \<Rightarrow> nat \<Rightarrow> addr \<Rightarrow> (int \<times> server_t) option" where
  "write_back_task s me node = write_back s me node"

definition trans_task :: "server_t \<Rightarrow> addr \<Rightarrow> nat \<Rightarrow> int \<times> server_t" where
  "trans_task s node i =
     (NGX_OK, s\<lparr>sv_tq := (sv_tq s)(i := node # sv_tq s i),
        sv_pipe := (sv_pipe s)(i := snd (notice_wake_up (sv_pipe s i)))\<rparr>)"

section \<open>Task threads\<close>

definition TASK_TEST :: u32 where "TASK_TEST = 16"
definition KEY_NOTEXIST :: u32 where "KEY_NOTEXIST = -2"

definition task_test :: "server_t \<Rightarrow> nat \<Rightarrow> addr \<Rightarrow> (int \<times> server_t) option" where
  "task_test s me node = do {
     n \<leftarrow> strlen (t_key (sv_task s node));
     if n = 0 then
       write_back (upd_task s node (\<lambda>t. t\<lparr>t_ret := KEY_NOTEXIST, t_data := 0, t_data_len := 0\<rparr>)) me node
     else
       write_back (upd_task s node (\<lambda>t. t\<lparr>t_ret := 0, t_data := 0, t_data_len := 0\<rparr>)) me node }"

definition nn_rpc_service_run :: "server_t \<Rightarrow> nat \<Rightarrow> addr \<Rightarrow> (int \<times> server_t) option" where
  "nn_rpc_service_run s me node =
     (if t_cmd (sv_task s node) = TASK_TEST then do {
        (rc, s) \<leftarrow> task_test s me node;
        Some (NGX_OK, s) }
      else Some (NGX_ERROR, s))"

definition do_task :: "server_t \<Rightarrow> nat \<Rightarrow> addr \<Rightarrow> server_t option" where
  "do_task s me node = do { (rc, s) \<leftarrow> nn_rpc_service_run s me node; Some s }"

text \<open>
  The loop of \<^verbatim>\<open>do_task_handler\<close> over the ring it took; \<open>running k\<close> is what the \<open>k\<close>-th test of
  \<^verbatim>\<open>thread->running\<close> reads. The result has the nodes that are left on the ring.
\<close>

fun do_task_loop :: "(nat \<Rightarrow> bool) \<Rightarrow> nat \<Rightarrow> server_t \<Rightarrow> nat \<Rightarrow> addr list \<Rightarrow> (server_t \<times> addr list) option" where
  "do_task_loop running k s me [] = Some (s, [])"
| "do_task_loop running k s me (cur # qhead) =
     (if \<not> running k then Some (s, cur # qhead)
      else do {
        s \<leftarrow> do_task s me cur;
        do_task_loop running (Suc k) s me qhead })"

text \<open>
  The statements of \<^verbatim>\<open>noice_read_event_handler\<close> and of its callback \<^verbatim>\<open>do_task_handler\<close> in their order: the loop
  that reads the pipe, \<^verbatim>\<open>pop_all\<close> onto the local ring \<^verbatim>\<open>qhead\<close> (the second component of the state), and the loop
  over the ring. \<open>exec_recv\<close> runs a statement to its end; \<open>recv_step\<close> below is one round of it.
\<close>

datatype recv_act = Read | Pop_all | Work

fun exec_recv :: "(nat \<Rightarrow> bool) \<Rightarrow> nat \<Rightarrow> recv_act \<Rightarrow> server_t \<times> addr list \<Rightarrow> (server_t \<times> addr list) option" where
  "exec_recv running me Read (s, qhead) = Some (s\<lparr>sv_pipe := (sv_pipe s)(me := notice_drain (sv_pipe s me))\<rparr>, qhead)"
| "exec_recv running me Pop_all (s, qhead) = Some (s\<lparr>sv_tq := (sv_tq s)(me := [])\<rparr>, sv_tq s me)"
| "exec_recv running me Work (s, qhead) = do_task_loop running 0 s me qhead"

fun exec_recvs :: "(nat \<Rightarrow> bool) \<Rightarrow> nat \<Rightarrow> recv_act list \<Rightarrow> server_t \<times> addr list \<Rightarrow> (server_t \<times> addr list) option" where
  "exec_recvs running me [] st = Some st"
| "exec_recvs running me (a # p) st = do { st \<leftarrow> exec_recv running me a st; exec_recvs running me p st }"

definition do_task_prog :: "recv_act list" where
  "do_task_prog = [Pop_all, Work]"

definition notice_prog :: "recv_act list \<Rightarrow> recv_act list" where
  "notice_prog call_back = Read # call_back"

definition do_task_handler :: "(nat \<Rightarrow> bool) \<Rightarrow> server_t \<Rightarrow> nat \<Rightarrow> (server_t \<times> addr list) option" where
  "do_task_handler running s me = exec_recvs running me do_task_prog (s, [])"

text \<open>The read handler of the notice pipe of task thread \<open>me\<close>.\<close>

definition task_notice_handler :: "(nat \<Rightarrow> bool) \<Rightarrow> server_t \<Rightarrow> nat \<Rightarrow> (server_t \<times> addr list) option" where
  "task_notice_handler running s me = exec_recvs running me (notice_prog do_task_prog) (s, [])"

section \<open>The client thread\<close>

definition write_back_pack_task :: "server_t \<Rightarrow> addr \<Rightarrow> server_t option" where
  "write_back_pack_task s node = do {
     (rc, mc) \<leftarrow> nn_conn_outtask (sv_conn s (sv_owner s node)) node;
     Some (s\<lparr>sv_conn := (sv_conn s)(sv_owner s node := mc)\<rparr>) }"

fun write_back_pack_queue :: "server_t \<Rightarrow> addr list \<Rightarrow> server_t option" where
  "write_back_pack_queue s [] = Some s"
| "write_back_pack_queue s (qn # q) = do {
     s \<leftarrow> write_back_pack_task s qn;
     write_back_pack_queue s q }"

fun net_response_loop :: "server_t \<Rightarrow> nat \<Rightarrow> nat \<Rightarrow> server_t option" where
  "net_response_loop s i 0 = Some s"
| "net_response_loop s i (Suc n) = do {
     let q = sv_bque s i;
     s \<leftarrow> write_back_pack_queue (s\<lparr>sv_bque := (sv_bque s)(i := [])\<rparr>) q;
     net_response_loop s (Suc i) n }"

definition net_response_handler :: "server_t \<Rightarrow> server_t option" where
  "net_response_handler s =
     (if sv_cli_type s = THREAD_CLI_TEST then net_response_loop s 0 (sv_queue_size s)
      else (let q = sv_cli_tq s in write_back_pack_queue (s\<lparr>sv_cli_tq := []\<rparr>) q))"

definition cli_notice_handler :: "server_t \<Rightarrow> server_t option" where
  "cli_notice_handler s = net_response_handler (s\<lparr>sv_cli_pipe := notice_drain (sv_cli_pipe s)\<rparr>)"

section \<open>Lemmas\<close>

lemma sv_task_upd: "sv_task (upd_task s x f) y = (if y = x then f (sv_task s x) else sv_task s y)"
  by (auto simp: sv_task_def upd_task_def Let_def)

lemma upd_task_simps [simp]:
  "sv_owner (upd_task s x f) = sv_owner s" "sv_tq (upd_task s x f) = sv_tq s" "sv_bque (upd_task s x f) = sv_bque s"
  "sv_cli_type (upd_task s x f) = sv_cli_type s" "sv_queue_size (upd_task s x f) = sv_queue_size s"
  "sv_thread_id (upd_task s x f) = sv_thread_id s" "sv_cli_pipe (upd_task s x f) = sv_cli_pipe s" "sv_cli_tq (upd_task s x f) = sv_cli_tq s"
  by (simp_all add: upd_task_def Let_def)

text \<open>The answer that \<^verbatim>\<open>task_test\<close> leaves in the task.\<close>

definition answered :: "task_t \<Rightarrow> task_t" where
  "answered t = t\<lparr>t_ret := (if t_key t ! 0 = 0 then KEY_NOTEXIST else 0), t_data := 0, t_data_len := 0\<rparr>"

text \<open>A task that the server knows: the test command with a terminated key.\<close>

definition test_task :: "task_t \<Rightarrow> bool" where
  "test_task t \<longleftrightarrow> t_cmd t = TASK_TEST \<and> 0 \<in> set (t_key t)"

definition ret_slot :: "server_t \<Rightarrow> nat \<Rightarrow> nat" where
  "ret_slot s me = unat (sv_thread_id s me) mod sv_queue_size s"

definition cli_ready :: "server_t \<Rightarrow> bool" where
  "cli_ready s \<longleftrightarrow> sv_cli_type s = THREAD_CLI_TEST \<and> 0 < sv_queue_size s"

lemma strlen_zero: "0 \<in> set cs \<Longrightarrow> \<exists>n. strlen cs = Some n \<and> (n = 0 \<longleftrightarrow> cs ! 0 = 0)"
  by (cases cs) (auto simp: strlen_def)

lemma do_task_ok:
  assumes "test_task (sv_task s x)" "cli_ready s"
  shows "\<exists>s'. do_task s me x = Some s' \<and> sv_bque s' = (sv_bque s)(ret_slot s me := x # sv_bque s (ret_slot s me)) \<and>
    sv_tq s' = sv_tq s \<and> 0 < sv_cli_pipe s' \<and> cli_ready s' \<and> ret_slot s' me = ret_slot s me \<and> sv_owner s' = sv_owner s \<and> sv_cli_tq s' = sv_cli_tq s \<and>
    (\<forall>y. sv_task s' y = (if y = x then answered (sv_task s x) else sv_task s y))"
proof -
  obtain n where n: "strlen (t_key (sv_task s x)) = Some n" "n = 0 \<longleftrightarrow> t_key (sv_task s x) ! 0 = 0"
    using strlen_zero assms(1) by (auto simp: test_task_def)
  let ?u = "upd_task s x answered"
  let ?s = "?u\<lparr>sv_bque := (sv_bque s)(ret_slot s me := x # sv_bque s (ret_slot s me)),
     sv_cli_pipe := snd (notice_wake_up (sv_cli_pipe s))\<rparr>"
  have "task_test s me x = write_back ?u me x"
  proof (cases "n = 0")
    case True
    then have "upd_task s x (\<lambda>t. t\<lparr>t_ret := KEY_NOTEXIST, t_data := 0, t_data_len := 0\<rparr>) = ?u"
      using n(2) by (simp add: upd_task_def answered_def sv_task_def Let_def)
    then show ?thesis using n(1) True by (simp add: task_test_def)
  next
    case False
    then have "upd_task s x (\<lambda>t. t\<lparr>t_ret := 0, t_data := 0, t_data_len := 0\<rparr>) = ?u"
      using n(2) by (simp add: upd_task_def answered_def sv_task_def Let_def)
    then show ?thesis using n(1) False by (simp add: task_test_def)
  qed
  then have "do_task s me x = Some ?s"
    using assms by (simp add: do_task_def nn_rpc_service_run_def test_task_def write_back_def cli_ready_def
        ret_slot_def notice_wake_up_def Let_def)
  moreover have "sv_task ?s y = sv_task ?u y" for y by (simp add: sv_task_def)
  ultimately show ?thesis using assms(2)
    by (intro exI[of _ ?s]) (simp add: sv_task_upd cli_ready_def ret_slot_def notice_wake_up_def PIPE_CAP_def)
qed

lemma do_task_frame:
  "do_task s me x = Some s' \<Longrightarrow> sv_tq s' = sv_tq s \<and> sv_pipe s' = sv_pipe s \<and> sv_last_task s' = sv_last_task s"
  by (auto simp: do_task_def nn_rpc_service_run_def task_test_def write_back_def upd_task_def Let_def notice_wake_up_def
      split: bind_splits if_splits)

text \<open>The loop works off its ring up to the first test of the running flag that fails.\<close>

lemma do_task_loop_ok:
  assumes "\<And>x. x \<in> set q \<Longrightarrow> test_task (sv_task s x)" "cli_ready s" "distinct q"
    "\<And>j. j < length q \<Longrightarrow> running (k + j)" "r = [] \<or> \<not> running (k + length q)"
  shows "\<exists>s'. do_task_loop running k s me (q @ r) = Some (s', r) \<and>
    sv_bque s' = (sv_bque s)(ret_slot s me := rev q @ sv_bque s (ret_slot s me)) \<and> sv_tq s' = sv_tq s \<and>
    (q \<noteq> [] \<longrightarrow> 0 < sv_cli_pipe s') \<and> (q = [] \<longrightarrow> s' = s) \<and> cli_ready s' \<and> sv_owner s' = sv_owner s \<and> sv_cli_tq s' = sv_cli_tq s \<and>
    (\<forall>y. sv_task s' y = (if y \<in> set q then answered (sv_task s y) else sv_task s y))"
  using assms
proof (induction q arbitrary: s k)
  case Nil
  then show ?case by (cases r) auto
next
  case (Cons x q)
  obtain s1 where s1: "do_task s me x = Some s1" "sv_bque s1 = (sv_bque s)(ret_slot s me := x # sv_bque s (ret_slot s me))"
    "sv_tq s1 = sv_tq s" "0 < sv_cli_pipe s1" "cli_ready s1" "ret_slot s1 me = ret_slot s me" "sv_owner s1 = sv_owner s" "sv_cli_tq s1 = sv_cli_tq s"
    "\<forall>y. sv_task s1 y = (if y = x then answered (sv_task s x) else sv_task s y)"
    using do_task_ok[of s x me] Cons.prems by auto
  have "test_task (sv_task s1 y)" if "y \<in> set q" for y
    using that s1(9) Cons.prems(1,3) by auto
  moreover have "distinct q" using Cons.prems(3) by simp
  moreover have "running (Suc k + j)" if "j < length q" for j using Cons.prems(4)[of "Suc j"] that by simp
  moreover have "r = [] \<or> \<not> running (Suc k + length q)" using Cons.prems(5) by simp
  ultimately obtain s2 where
    s2: "do_task_loop running (Suc k) s1 me (q @ r) = Some (s2, r)"
    "sv_bque s2 = (sv_bque s1)(ret_slot s1 me := rev q @ sv_bque s1 (ret_slot s1 me))" "sv_tq s2 = sv_tq s1"
    "q \<noteq> [] \<longrightarrow> 0 < sv_cli_pipe s2" "q = [] \<longrightarrow> s2 = s1" "cli_ready s2" "sv_owner s2 = sv_owner s1" "sv_cli_tq s2 = sv_cli_tq s1"
    "\<forall>y. sv_task s2 y = (if y \<in> set q then answered (sv_task s1 y) else sv_task s1 y)"
    using Cons.IH[of s1 "Suc k"] s1(5) by blast
  have "0 < sv_cli_pipe s2" using s2(4,5) s1(4) by (cases "q = []") auto
  moreover have "\<forall>y. sv_task s2 y = (if y \<in> set (x # q) then answered (sv_task s y) else sv_task s y)"
    using s2(9) s1(9) Cons.prems(3) by auto
  moreover have "do_task_loop running k s me ((x # q) @ r) = Some (s2, r)"
    using s1(1) s2(1) Cons.prems(4)[of 0] by simp
  moreover have "sv_bque s2 = (sv_bque s)(ret_slot s me := rev (x # q) @ sv_bque s (ret_slot s me))"
    using s2(2) s1(2,6) by simp
  ultimately show ?case using s2(3,6,7,8) s1(3,7,8) by (intro exI[of _ s2] conjI) simp_all
qed

lemma do_task_loop_frame: "do_task_loop running k s me q = Some (s', r) \<Longrightarrow> sv_tq s' = sv_tq s"
  by (induction running k s me q rule: do_task_loop.induct)
    (auto dest: do_task_frame split: if_splits bind_splits)

lemma do_task_handler_eq:
  "do_task_handler running s me = do_task_loop running 0 (s\<lparr>sv_tq := (sv_tq s)(me := [])\<rparr>) me (sv_tq s me)"
  by (cases "do_task_loop running 0 (s\<lparr>sv_tq := (sv_tq s)(me := [])\<rparr>) me (sv_tq s me)")
    (simp_all add: do_task_handler_def do_task_prog_def)

lemma task_notice_handler_eq:
  "task_notice_handler running s me = do_task_handler running (s\<lparr>sv_pipe := (sv_pipe s)(me := 0)\<rparr>) me"
  by (simp add: task_notice_handler_def notice_prog_def do_task_handler_def do_task_prog_def)

lemma dispatch_task_eq:
  "dispatch_index s (t_key (sv_task s x)) = Some i \<Longrightarrow>
   dispatch_task s x = Some (s\<lparr>sv_last_task := i, sv_tq := (sv_tq s)(i := x # sv_tq s i),
             sv_pipe := (sv_pipe s)(i := snd (notice_wake_up (sv_pipe s i)))\<rparr>)"
  by (simp add: dispatch_task_def dispatch_prog_def Let_def)

fun dispatch_all :: "server_t \<Rightarrow> addr list \<Rightarrow> server_t option" where
  "dispatch_all s [] = Some s"
| "dispatch_all s (x # xs) = do { s \<leftarrow> dispatch_task s x; dispatch_all s xs }"

lemma dispatch_index_less: "dispatch_index s key = Some i \<Longrightarrow> i < sv_task_num s"
  by (auto simp: dispatch_index_def split: if_splits)

lemma dispatch_all_ok:
  assumes "\<And>x. x \<in> set xs \<Longrightarrow> dispatch_index s (t_key (sv_task s x)) = Some i"
  shows "\<exists>s'. dispatch_all s xs = Some s' \<and> sv_tq s' = (sv_tq s)(i := rev xs @ sv_tq s i) \<and> sv_bque s' = sv_bque s \<and>
    (xs \<noteq> [] \<longrightarrow> 0 < sv_pipe s' i) \<and> (xs = [] \<longrightarrow> s' = s) \<and> sv_task s' = sv_task s \<and> cli_ready s' = cli_ready s \<and>
    ret_slot s' = ret_slot s \<and> sv_owner s' = sv_owner s"
  using assms
proof (induction xs arbitrary: s)
  case (Cons x xs)
  let ?s = "s\<lparr>sv_last_task := i, sv_tq := (sv_tq s)(i := x # sv_tq s i),
    sv_pipe := (sv_pipe s)(i := snd (notice_wake_up (sv_pipe s i)))\<rparr>"
  have 1: "dispatch_task s x = Some ?s" using Cons.prems[of x] by (simp add: dispatch_task_eq)
  have 2: "sv_task ?s = sv_task s" "cli_ready ?s = cli_ready s" "ret_slot ?s = ret_slot s" "0 < sv_pipe ?s i"
    by (simp_all add: sv_task_def fun_eq_iff cli_ready_def ret_slot_def notice_wake_up_def PIPE_CAP_def)
  have "dispatch_index ?s (t_key (sv_task ?s y)) = Some i" if "y \<in> set xs" for y
    using Cons.prems[of y] that 2(1) by (auto simp: dispatch_index_def split: if_splits)
  from Cons.IH[OF this] obtain s' where
    s': "dispatch_all ?s xs = Some s'" "sv_tq s' = (sv_tq ?s)(i := rev xs @ sv_tq ?s i)" "sv_bque s' = sv_bque ?s"
    "xs \<noteq> [] \<longrightarrow> 0 < sv_pipe s' i" "xs = [] \<longrightarrow> s' = ?s" "sv_task s' = sv_task ?s" "cli_ready s' = cli_ready ?s"
    "ret_slot s' = ret_slot ?s" "sv_owner s' = sv_owner ?s" by blast
  have "0 < sv_pipe s' i" using s'(4,5) 2(4) by (cases "xs = []") auto
  moreover have "dispatch_all s (x # xs) = Some s'" using 1 s'(1) by simp
  moreover have "sv_tq s' = (sv_tq s)(i := rev (x # xs) @ sv_tq s i)" using s'(2) by simp
  ultimately show ?case using s'(3,6-9) 2(1-3) by (intro exI[of _ s'] conjI) simp_all
qed simp

section \<open>Waking up\<close>

text \<open>
  The hand-over between the client thread and the task threads as a step relation over the same lists of actions:
  \<open>cf_send\<close> is what the client thread still has to do of a dispatch (it is the only thread that dispatches),
  \<open>cf_recv i\<close> what task thread \<open>i\<close> still has to do of the handler of its notice pipe, with the ring it holds; with
  nothing to do the thread waits in \<^verbatim>\<open>epoll_wait\<close> until its pipe is readable. One step is one action: one \<^verbatim>\<open>read\<close>
  of the pipe, one \<^verbatim>\<open>pop_all\<close>, one task. The threads are not told to stop.
\<close>

record conf_t =
  cf_sv :: server_t
  cf_send :: "send_act list"
  cf_recv :: "nat \<Rightarrow> recv_act list \<times> addr list"

text \<open>One round of an action of task thread \<open>me\<close>; the flag tells that the action is finished.\<close>

fun recv_step :: "nat \<Rightarrow> recv_act \<Rightarrow> server_t \<times> addr list \<Rightarrow> ((server_t \<times> addr list) \<times> bool) option" where
  "recv_step me Read (s, q) = Some (if sv_pipe s me = 0 then ((s, q), True)
     else ((s\<lparr>sv_pipe := (sv_pipe s)(me := sv_pipe s me - min NOTICE_BUFF_SIZE (sv_pipe s me))\<rparr>, q), False))"
| "recv_step me Pop_all (s, q) = Some ((s\<lparr>sv_tq := (sv_tq s)(me := [])\<rparr>, sv_tq s me), True)"
| "recv_step me Work (s, []) = Some ((s, []), True)"
| "recv_step me Work (s, x # q) = do { s \<leftarrow> do_task s me x; Some ((s, q), False) }"

inductive wake_step :: "conf_t \<Rightarrow> conf_t \<Rightarrow> bool" where
  dispatch: "cf_send c = [] \<Longrightarrow> dispatch_index (cf_sv c) (t_key (sv_task (cf_sv c) x)) = Some i \<Longrightarrow>
    wake_step c (c\<lparr>cf_send := dispatch_prog i x\<rparr>)"
| send: "cf_send c = a # p \<Longrightarrow> wake_step c (c\<lparr>cf_sv := exec_send a (cf_sv c), cf_send := p\<rparr>)"
| wake: "fst (cf_recv c i) = [] \<Longrightarrow> 0 < sv_pipe (cf_sv c) i \<Longrightarrow>
    wake_step c (c\<lparr>cf_recv := (cf_recv c)(i := (notice_prog do_task_prog, []))\<rparr>)"
| recv: "cf_recv c i = (a # p, q) \<Longrightarrow> recv_step i a (cf_sv c, q) = Some ((s', q'), fin) \<Longrightarrow>
    wake_step c (c\<lparr>cf_sv := s', cf_recv := (cf_recv c)(i := (if fin then p else a # p, q'))\<rparr>)"

inductive wake_reach :: "conf_t \<Rightarrow> bool" where
  start: "(\<And>i. sv_tq s i = []) \<Longrightarrow> wake_reach \<lparr>cf_sv = s, cf_send = [], cf_recv = (\<lambda>i. ([], []))\<rparr>"
| step: "wake_reach c \<Longrightarrow> wake_step c c' \<Longrightarrow> wake_reach c'"

text \<open>
  The invariant: a dispatch under way has a notice behind its push, a handler under way has \<^verbatim>\<open>pop_all\<close> behind
  its reads, and a queue is empty, or its pipe is readable, or its notice is about to be sent, or its thread is
  on the way to \<^verbatim>\<open>pop_all\<close>.
\<close>

definition send_ok :: "send_act list \<Rightarrow> bool" where
  "send_ok p \<longleftrightarrow> (\<exists>i x. p = dispatch_prog i x) \<or> (\<exists>x. p = [Push x, Notify]) \<or> p = [Notify] \<or> p = []"

definition recv_ok :: "recv_act list \<Rightarrow> bool" where
  "recv_ok p \<longleftrightarrow> p = notice_prog do_task_prog \<or> p = do_task_prog \<or> p = [Work] \<or> p = []"

definition noticed :: "conf_t \<Rightarrow> nat \<Rightarrow> bool" where
  "noticed c i \<longleftrightarrow> sv_tq (cf_sv c) i = [] \<or> 0 < sv_pipe (cf_sv c) i \<or>
     (cf_send c = [Notify] \<and> sv_last_task (cf_sv c) = i) \<or> Pop_all \<in> set (fst (cf_recv c i))"

definition wake_inv :: "conf_t \<Rightarrow> bool" where
  "wake_inv c \<longleftrightarrow> send_ok (cf_send c) \<and> (\<forall>i. recv_ok (fst (cf_recv c i))) \<and> (\<forall>i. noticed c i)"

lemma send_keeps:
  assumes "wake_inv c" "cf_send c = a # p"
  shows "wake_inv (c\<lparr>cf_sv := exec_send a (cf_sv c), cf_send := p\<rparr>)"
proof -
  have "send_ok (a # p)" using assms by (simp add: wake_inv_def)
  then consider i x where "a = Choose i" "p = [Push x, Notify]" | x where "a = Push x" "p = [Notify]" | "a = Notify" "p = []"
    by (auto simp: send_ok_def dispatch_prog_def)
  then show ?thesis using assms
    by cases (auto simp: wake_inv_def noticed_def send_ok_def Let_def notice_wake_up_def PIPE_CAP_def)
qed

lemma recv_keeps:
  assumes "wake_inv c" "cf_recv c i = (a # p, q)" "recv_step i a (cf_sv c, q) = Some ((s', q'), fin)"
  shows "wake_inv (c\<lparr>cf_sv := s', cf_recv := (cf_recv c)(i := (if fin then p else a # p, q'))\<rparr>)"
proof -
  have "recv_ok (fst (cf_recv c i))" using assms(1) by (simp add: wake_inv_def)
  then have "recv_ok (a # p)" using assms(2) by simp
  then consider "a = Read" "p = do_task_prog" | "a = Pop_all" "p = [Work]" | "a = Work" "p = []"
    by (auto simp: recv_ok_def notice_prog_def do_task_prog_def)
  then show ?thesis
  proof cases
    case 1
    then show ?thesis using assms
      by (auto simp: wake_inv_def noticed_def recv_ok_def notice_prog_def do_task_prog_def split: if_splits)
  next
    case 2
    then show ?thesis using assms by (auto simp: wake_inv_def noticed_def recv_ok_def)
  next
    case 3
    then show ?thesis using assms
      by (cases q) (fastforce simp: wake_inv_def noticed_def recv_ok_def dest: do_task_frame split: bind_splits)+
  qed
qed

lemma wake_step_inv: "wake_step c c' \<Longrightarrow> wake_inv c \<Longrightarrow> wake_inv c'"
proof (induction rule: wake_step.induct)
  case (dispatch c x i)
  then show ?case by (auto simp: wake_inv_def noticed_def send_ok_def)
next
  case (wake c i)
  then show ?case by (auto simp: wake_inv_def noticed_def recv_ok_def)
qed (simp_all add: send_keeps recv_keeps)

lemma wake_reach_inv: "wake_reach c \<Longrightarrow> wake_inv c"
proof (induction rule: wake_reach.induct)
  case (start s)
  then show ?case by (simp add: wake_inv_def noticed_def send_ok_def recv_ok_def)
qed (simp add: wake_step_inv)

text \<open>Left alone, the rounds of an action are what \<open>exec_recv\<close> does.\<close>

definition with_recv :: "conf_t \<Rightarrow> nat \<Rightarrow> server_t \<Rightarrow> recv_act list \<Rightarrow> addr list \<Rightarrow> conf_t" where
  "with_recv c i s p q = c\<lparr>cf_sv := s, cf_recv := (cf_recv c)(i := (p, q))\<rparr>"

lemma recv_more: "recv_step i a (s, q) = Some ((s', q'), fin) \<Longrightarrow>
   wake_step (with_recv c i s (a # p) q) (with_recv c i s' (if fin then p else a # p) q')"
  using wake_step.recv[of "with_recv c i s (a # p) q" i a p q s' q' fin] by (simp add: with_recv_def)

lemma recv_read: "wake_step\<^sup>*\<^sup>* (with_recv c i s (Read # p) q)
   (with_recv c i (s\<lparr>sv_pipe := (sv_pipe s)(i := 0)\<rparr>) p q)"
proof (induction "sv_pipe s i" arbitrary: s rule: less_induct)
  case less
  show ?case
  proof (cases "sv_pipe s i = 0")
    case True
    then have "s\<lparr>sv_pipe := (sv_pipe s)(i := 0)\<rparr> = s" by (simp add: fun_upd_idem)
    then show ?thesis using recv_more[of i Read s q s q True c p] True by (simp add: r_into_rtranclp)
  next
    case False
    let ?n = "sv_pipe s i - min NOTICE_BUFF_SIZE (sv_pipe s i)" and ?c = "with_recv c i"
    let ?s = "s\<lparr>sv_pipe := (sv_pipe s)(i := ?n)\<rparr>"
    have "wake_step (?c s (Read # p) q) (?c ?s (Read # p) q)"
      using recv_more[of i Read s q ?s q False c p] False by simp
    moreover have "wake_step\<^sup>*\<^sup>* (?c ?s (Read # p) q) (?c (?s\<lparr>sv_pipe := (sv_pipe ?s)(i := 0)\<rparr>) p q)"
      using less[of ?s] False by (simp add: NOTICE_BUFF_SIZE_def)
    ultimately show ?thesis by (simp add: converse_rtranclp_into_rtranclp)
  qed
qed

lemma recv_work:
  assumes "\<And>k. running k" "do_task_loop running k s i q = Some (s', q')"
  shows "wake_step\<^sup>*\<^sup>* (with_recv c i s (Work # p) q) (with_recv c i s' p q')"
  using assms(2)
proof (induction q arbitrary: k s)
  case Nil
  then show ?case using recv_more[of i Work s "[]" s "[]" True c p] by (simp add: r_into_rtranclp)
next
  case (Cons x q)
  then obtain s1 where s1: "do_task s i x = Some s1" "do_task_loop running (Suc k) s1 i q = Some (s', q')"
    using Cons.prems assms(1)[of k] by (auto split: bind_splits)
  have "wake_step (with_recv c i s (Work # p) (x # q)) (with_recv c i s1 (Work # p) q)"
    using recv_more[of i Work s "x # q" s1 q False c p] s1(1) by simp
  then show ?case using Cons.IH[OF s1(2)] by (simp add: converse_rtranclp_into_rtranclp)
qed

lemma recv_exec:
  assumes "\<And>k. running k" "exec_recv running i a (s, q) = Some (s', q')"
  shows "wake_step\<^sup>*\<^sup>* (with_recv c i s (a # p) q) (with_recv c i s' p q')"
proof (cases a)
  case Read
  then show ?thesis using recv_read assms(2) by auto
next
  case Pop_all
  then show ?thesis using recv_more[of i Pop_all s q s' q' True c p] assms(2) by (auto simp: r_into_rtranclp)
next
  case Work
  then show ?thesis using recv_work[OF assms(1)] assms(2) by auto
qed

lemma recvs_exec:
  assumes "\<And>k. running k" "exec_recvs running i p (s, q) = Some (s', q')"
  shows "wake_step\<^sup>*\<^sup>* (with_recv c i s p q) (with_recv c i s' [] q')"
  using assms(2)
proof (induction p arbitrary: s q)
  case (Cons a p)
  then obtain s1 q1 where 1: "exec_recv running i a (s, q) = Some (s1, q1)" "exec_recvs running i p (s1, q1) = Some (s', q')"
    by (auto split: bind_splits)
  show ?case using recv_exec[where p = p, OF assms(1) 1(1)] Cons.IH[OF 1(2)] by (rule rtranclp_trans)
qed simp

section \<open>Properties\<close>

text \<open>C6: answers of a batch. A batch of test tasks with terminated keys, all hashed to the same task thread whose
  queue is empty, is dispatched task by task and then executed in one run of the handler of the notice pipe, the
  thread not being stopped meanwhile. The handler takes the queue newest first and pushes every answer to
  the return queue of the client thread, which reverses the order once more: there the batch stands in the order of
  its dispatch, each task answered exactly once, in front of older answers that the client thread has not fetched yet (so
  a newer batch overtakes an older one), and the client thread is notified. Tasks with another command get no answer at
  all (\<open>unknown_command_dropped\<close>).\<close>

theorem batch_answered_in_order:
  assumes "cli_ready s" "sv_tq s i = []" "distinct xs" "xs \<noteq> []" "\<forall>k. running k"
    "\<forall>x\<in>set xs. dispatch_index s (t_key (sv_task s x)) = Some i \<and> test_task (sv_task s x)"
  shows "\<exists>s1 s2. dispatch_all s xs = Some s1 \<and> 0 < sv_pipe s1 i \<and> task_notice_handler running s1 i = Some (s2, []) \<and>
    sv_tq s2 i = [] \<and> sv_bque s2 (ret_slot s i) = xs @ sv_bque s (ret_slot s i) \<and> 0 < sv_cli_pipe s2 \<and>
    (\<forall>x\<in>set xs. sv_task s2 x = answered (sv_task s x))"
proof -
  obtain s1 where s1: "dispatch_all s xs = Some s1" "sv_tq s1 = (sv_tq s)(i := rev xs @ sv_tq s i)" "sv_bque s1 = sv_bque s"
    "0 < sv_pipe s1 i" "sv_task s1 = sv_task s" "cli_ready s1" "ret_slot s1 = ret_slot s"
    using dispatch_all_ok[of xs s i] assms by auto
  let ?t = "s1\<lparr>sv_pipe := (sv_pipe s1)(i := 0), sv_tq := (sv_tq s1)(i := [])\<rparr>"
  have t: "sv_task ?t = sv_task s" "cli_ready ?t" "ret_slot ?t i = ret_slot s i" "sv_bque ?t = sv_bque s"
    using s1 by (simp_all add: sv_task_def fun_eq_iff cli_ready_def ret_slot_def)
  have q: "sv_tq s1 i = rev xs" using s1(2) assms(2) by simp
  obtain s2 where "do_task_loop running 0 ?t i (rev xs) = Some (s2, [])"
    "sv_bque s2 = (sv_bque ?t)(ret_slot ?t i := rev (rev xs) @ sv_bque ?t (ret_slot ?t i))" "sv_tq s2 = sv_tq ?t"
    "0 < sv_cli_pipe s2" "\<forall>y. sv_task s2 y = (if y \<in> set (rev xs) then answered (sv_task ?t y) else sv_task ?t y)"
    using do_task_loop_ok[of "rev xs" ?t running 0 "[]" i] t assms(3-6) by auto
  then show ?thesis using s1(1,4) t q
    by (intro exI[of _ s1] exI[of _ s2]) (simp add: task_notice_handler_eq do_task_handler_eq)
qed

definition ex_server :: "u32 \<Rightarrow> server_t" where
  "ex_server cmd = \<lparr>sv_conn = (\<lambda>c. (ex_mc (ex_buffer [] 0) (ex_buffer [] 0) [] [])\<lparr>mc_task := (\<lambda>x. task_zero\<lparr>t_cmd := cmd\<rparr>)\<rparr>),
     sv_owner = (\<lambda>x. 0), sv_task_num = 4, sv_tq = (\<lambda>i. []), sv_pipe = (\<lambda>i. 0), sv_thread_id = (\<lambda>i. of_nat i),
     sv_last_task = 0, sv_cli_type = THREAD_CLI_TEST, sv_cli_tq = [], sv_bque = (\<lambda>i. []), sv_queue_size = 4,
     sv_cli_pipe = 0\<rparr>"

lemma task_zero_key: "t_key task_zero = replicate 256 0"
  by (simp add: task_zero_def task_of_repr_def task_lens)

theorem batch_answered_in_order_witness:
  "\<exists>s1 s2. dispatch_all (ex_server 16) [1000, 2000] = Some s1 \<and> task_notice_handler (\<lambda>k. True) s1 0 = Some (s2, []) \<and>
    sv_bque s2 0 = [1000, 2000]"
proof -
  have "test_task (sv_task (ex_server 16) x)" "dispatch_index (ex_server 16) (t_key (sv_task (ex_server 16) x)) = Some 0" for x
    by (simp_all add: test_task_def sv_task_def ex_server_def TASK_TEST_def dispatch_index_def hash_task_key_def task_zero_key)
  moreover have "cli_ready (ex_server 16)" "ret_slot (ex_server 16) 0 = 0" "sv_tq (ex_server 16) 0 = []" "sv_bque (ex_server 16) 0 = []"
    by (simp_all add: cli_ready_def ret_slot_def ex_server_def)
  ultimately show ?thesis
    using batch_answered_in_order[of "ex_server 16" 0 "[1000, 2000]" "\<lambda>k. True"] by auto
qed

text \<open>C7: no lost wake-up. The client thread dispatches by the actions of \<open>dispatch_prog\<close> (the ones that
  \<open>dispatch_task\<close> executes), the task threads react by those of \<open>notice_prog do_task_prog\<close> (the ones that
  \<open>task_notice_handler\<close> executes), interleaved in any way, starting from empty queues and with no thread told to
  stop. When no dispatch is under way and task thread \<open>i\<close> sleeps although its queue holds nodes, its pipe is
  readable, and the thread on its own gets to take all of these nodes, and to execute them whenever the
  sequential handler is defined: it ends asleep with an empty queue and in the state that \<open>task_notice_handler\<close> yields.\<close>

theorem no_lost_wakeup:
  assumes "wake_reach c" "cf_send c = []" "fst (cf_recv c i) = []" "sv_tq (cf_sv c) i \<noteq> []"
  shows "0 < sv_pipe (cf_sv c) i \<and>
    (\<exists>c'. wake_step\<^sup>*\<^sup>* c c' \<and> snd (cf_recv c' i) = sv_tq (cf_sv c) i \<and> sv_tq (cf_sv c') i = []) \<and>
    (\<forall>s' r. task_notice_handler (\<lambda>k. True) (cf_sv c) i = Some (s', r) \<longrightarrow>
       (\<exists>c'. wake_step\<^sup>*\<^sup>* c c' \<and> cf_sv c' = s' \<and> fst (cf_recv c' i) = [] \<and> sv_tq s' i = []))"
proof -
  let ?s = "cf_sv c"
  have pipe: "0 < sv_pipe ?s i" using wake_reach_inv[OF assms(1)] assms(2-4) by (auto simp: wake_inv_def noticed_def)
  have wake: "wake_step c (with_recv c i ?s (notice_prog do_task_prog) [])"
    using wake_step.wake[OF assms(3) pipe] by (simp add: with_recv_def)
  let ?s1 = "?s\<lparr>sv_pipe := (sv_pipe ?s)(i := 0)\<rparr>" and ?s2 = "?s\<lparr>sv_pipe := (sv_pipe ?s)(i := 0), sv_tq := (sv_tq ?s)(i := [])\<rparr>"
  have "wake_step\<^sup>*\<^sup>* (with_recv c i ?s (notice_prog do_task_prog) []) (with_recv c i ?s1 (Pop_all # [Work]) [])"
    using recv_read[of c i ?s "[Pop_all, Work]" "[]"] by (simp add: notice_prog_def do_task_prog_def)
  also have "wake_step (with_recv c i ?s1 (Pop_all # [Work]) []) (with_recv c i ?s2 [Work] (sv_tq ?s i))"
    using recv_more[of i Pop_all ?s1 "[]" ?s2 "sv_tq ?s i" True c "[Work]"] by simp
  finally have pop: "wake_step\<^sup>*\<^sup>* c (with_recv c i ?s2 [Work] (sv_tq ?s i))"
    using wake by (simp add: converse_rtranclp_into_rtranclp)
  have run: "\<exists>c'. wake_step\<^sup>*\<^sup>* c c' \<and> cf_sv c' = s' \<and> fst (cf_recv c' i) = [] \<and> sv_tq s' i = []"
    if h: "task_notice_handler (\<lambda>k. True) ?s i = Some (s', r)" for s' r
  proof (intro exI conjI)
    show "wake_step\<^sup>*\<^sup>* c (with_recv c i s' [] r)"
      using recvs_exec[of "\<lambda>k. True" i "notice_prog do_task_prog" ?s "[]" s' r c] h wake
      by (simp add: task_notice_handler_def converse_rtranclp_into_rtranclp)
    show "sv_tq s' i = []" using h do_task_loop_frame[of "\<lambda>k. True" 0 ?s2 i "sv_tq ?s i" s' r]
      by (simp add: task_notice_handler_eq do_task_handler_eq)
  qed (simp_all add: with_recv_def)
  show ?thesis using pipe pop run
    by (intro conjI exI[of _ "with_recv c i ?s2 [Work] (sv_tq ?s i)"]) (auto simp: with_recv_def)
qed

text \<open>In the example the client thread has pushed a node and sent the notice, and the task thread has not moved.\<close>

theorem no_lost_wakeup_witness:
  "\<exists>c. wake_reach c \<and> sv_tq (cf_sv c) 0 = [1000] \<and>
    (\<exists>c'. wake_step\<^sup>*\<^sup>* c c' \<and> snd (cf_recv c' 0) = [1000] \<and> sv_tq (cf_sv c') 0 = [])"
proof -
  let ?s = "ex_server 16" and ?r = "\<lambda>i::nat. ([] :: recv_act list, [] :: addr list)"
  let ?c = "\<lambda>s p. \<lparr>cf_sv = s, cf_send = p, cf_recv = ?r\<rparr>"
  have idx: "dispatch_index ?s (t_key (sv_task ?s 1000)) = Some 0"
    by (simp add: sv_task_def ex_server_def dispatch_index_def hash_task_key_def task_zero_key)
  have r0: "wake_reach (?c ?s [])" by (rule wake_reach.start) (simp add: ex_server_def)
  have r1: "wake_reach (?c ?s (dispatch_prog 0 1000))"
    using wake_reach.step[OF r0 wake_step.dispatch[of _ 1000 0]] idx by simp
  have r2: "wake_reach (?c (fold exec_send p s) [])" if "wake_reach (?c s p)" for p s
    using that by (induction p arbitrary: s) (auto dest: wake_reach.step[OF _ wake_step.send])
  let ?d = "?c (fold exec_send (dispatch_prog 0 1000) ?s) []"
  have d: "sv_tq (cf_sv ?d) 0 = [1000]" by (simp add: dispatch_prog_def ex_server_def Let_def)
  show ?thesis using no_lost_wakeup[OF r2[OF r1], of 0] r2[OF r1] d by (intro exI[of _ ?d]) auto
qed

text \<open>a task with an unknown command is dropped: \<^verbatim>\<open>nn_rpc_service_run\<close> returns an error, and the node
  is in no queue afterwards, so it is neither answered nor given back to its connection.\<close>

theorem unknown_command_dropped:
  assumes "sv_tq s me = [x]" "t_cmd (sv_task s x) \<noteq> TASK_TEST" "\<forall>i. x \<notin> set (sv_bque s i)" "\<forall>i. i \<noteq> me \<longrightarrow> x \<notin> set (sv_tq s i)" "running 0"
  shows "\<exists>s'. do_task_handler running s me = Some (s', []) \<and> (\<forall>i. x \<notin> set (sv_tq s' i)) \<and> (\<forall>i. x \<notin> set (sv_bque s' i)) \<and>
    sv_conn s' = sv_conn s"
proof -
  have "t_cmd (sv_task (s\<lparr>sv_tq := (sv_tq s)(me := [])\<rparr>) x) \<noteq> TASK_TEST" using assms(2) by (simp add: sv_task_def)
  then show ?thesis using assms(1,3,4,5)
    by (simp add: do_task_handler_eq do_task_def nn_rpc_service_run_def)
qed

theorem unknown_command_dropped_witness:
  "\<exists>s'. do_task_handler (\<lambda>k. True) ((ex_server 3)\<lparr>sv_tq := (\<lambda>i. [])(0 := [1000])\<rparr>) 0 = Some (s', []) \<and>
    (\<forall>i. 1000 \<notin> set (sv_tq s' i)) \<and> (\<forall>i. 1000 \<notin> set (sv_bque s' i))"
  using unknown_command_dropped[of "(ex_server 3)\<lparr>sv_tq := (\<lambda>i. [])(0 := [1000])\<rparr>" 0 1000 "\<lambda>k. True"]
  by (auto simp: ex_server_def sv_task_def TASK_TEST_def)



end
