(* ===== verification/Dfs_Des.thy ===== *)
theory Dfs_Des
  imports Dfs_Prelude
begin

text \<open>
  DES and triple DES of \<^verbatim>\<open>src/src/core/dfs_math.cpp\<close>: the tables, the weak-key check, the key schedule
  and the block operations, on 32-bit words. The lemmas show that the permutations are inverse to
  each other, that a pass of rounds with the reversed subkeys undoes a pass, and from that the
  round trips of encryption and decryption; the binary search over the table of weak keys decides
  membership.
\<close>

unbundle bit_operations_syntax

section \<open>Tables\<close>

definition sbox1 :: "u32 list" where
  "sbox1 = [
    0x01010400, 0x00000000, 0x00010000, 0x01010404, 0x01010004, 0x00010404, 0x00000004, 0x00010000,
    0x00000400, 0x01010400, 0x01010404, 0x00000400, 0x01000404, 0x01010004, 0x01000000, 0x00000004,
    0x00000404, 0x01000400, 0x01000400, 0x00010400, 0x00010400, 0x01010000, 0x01010000, 0x01000404,
    0x00010004, 0x01000004, 0x01000004, 0x00010004, 0x00000000, 0x00000404, 0x00010404, 0x01000000,
    0x00010000, 0x01010404, 0x00000004, 0x01010000, 0x01010400, 0x01000000, 0x01000000, 0x00000400,
    0x01010004, 0x00010000, 0x00010400, 0x01000004, 0x00000400, 0x00000004, 0x01000404, 0x00010404,
    0x01010404, 0x00010004, 0x01010000, 0x01000404, 0x01000004, 0x00000404, 0x00010404, 0x01010400,
    0x00000404, 0x01000400, 0x01000400, 0x00000000, 0x00010004, 0x00010400, 0x00000000, 0x01010004]"

definition sbox2 :: "u32 list" where
  "sbox2 = [
    0x80108020, 0x80008000, 0x00008000, 0x00108020, 0x00100000, 0x00000020, 0x80100020, 0x80008020,
    0x80000020, 0x80108020, 0x80108000, 0x80000000, 0x80008000, 0x00100000, 0x00000020, 0x80100020,
    0x00108000, 0x00100020, 0x80008020, 0x00000000, 0x80000000, 0x00008000, 0x00108020, 0x80100000,
    0x00100020, 0x80000020, 0x00000000, 0x00108000, 0x00008020, 0x80108000, 0x80100000, 0x00008020,
    0x00000000, 0x00108020, 0x80100020, 0x00100000, 0x80008020, 0x80100000, 0x80108000, 0x00008000,
    0x80100000, 0x80008000, 0x00000020, 0x80108020, 0x00108020, 0x00000020, 0x00008000, 0x80000000,
    0x00008020, 0x80108000, 0x00100000, 0x80000020, 0x00100020, 0x80008020, 0x80000020, 0x00100020,
    0x00108000, 0x00000000, 0x80008000, 0x00008020, 0x80000000, 0x80100020, 0x80108020, 0x00108000]"

definition sbox3 :: "u32 list" where
  "sbox3 = [
    0x00000208, 0x08020200, 0x00000000, 0x08020008, 0x08000200, 0x00000000, 0x00020208, 0x08000200,
    0x00020008, 0x08000008, 0x08000008, 0x00020000, 0x08020208, 0x00020008, 0x08020000, 0x00000208,
    0x08000000, 0x00000008, 0x08020200, 0x00000200, 0x00020200, 0x08020000, 0x08020008, 0x00020208,
    0x08000208, 0x00020200, 0x00020000, 0x08000208, 0x00000008, 0x08020208, 0x00000200, 0x08000000,
    0x08020200, 0x08000000, 0x00020008, 0x00000208, 0x00020000, 0x08020200, 0x08000200, 0x00000000,
    0x00000200, 0x00020008, 0x08020208, 0x08000200, 0x08000008, 0x00000200, 0x00000000, 0x08020008,
    0x08000208, 0x00020000, 0x08000000, 0x08020208, 0x00000008, 0x00020208, 0x00020200, 0x08000008,
    0x08020000, 0x08000208, 0x00000208, 0x08020000, 0x00020208, 0x00000008, 0x08020008, 0x00020200]"

definition sbox4 :: "u32 list" where
  "sbox4 = [
    0x00802001, 0x00002081, 0x00002081, 0x00000080, 0x00802080, 0x00800081, 0x00800001, 0x00002001,
    0x00000000, 0x00802000, 0x00802000, 0x00802081, 0x00000081, 0x00000000, 0x00800080, 0x00800001,
    0x00000001, 0x00002000, 0x00800000, 0x00802001, 0x00000080, 0x00800000, 0x00002001, 0x00002080,
    0x00800081, 0x00000001, 0x00002080, 0x00800080, 0x00002000, 0x00802080, 0x00802081, 0x00000081,
    0x00800080, 0x00800001, 0x00802000, 0x00802081, 0x00000081, 0x00000000, 0x00000000, 0x00802000,
    0x00002080, 0x00800080, 0x00800081, 0x00000001, 0x00802001, 0x00002081, 0x00002081, 0x00000080,
    0x00802081, 0x00000081, 0x00000001, 0x00002000, 0x00800001, 0x00002001, 0x00802080, 0x00800081,
    0x00002001, 0x00002080, 0x00800000, 0x00802001, 0x00000080, 0x00800000, 0x00002000, 0x00802080]"

definition sbox5 :: "u32 list" where
  "sbox5 = [
    0x00000100, 0x02080100, 0x02080000, 0x42000100, 0x00080000, 0x00000100, 0x40000000, 0x02080000,
    0x40080100, 0x00080000, 0x02000100, 0x40080100, 0x42000100, 0x42080000, 0x00080100, 0x40000000,
    0x02000000, 0x40080000, 0x40080000, 0x00000000, 0x40000100, 0x42080100, 0x42080100, 0x02000100,
    0x42080000, 0x40000100, 0x00000000, 0x42000000, 0x02080100, 0x02000000, 0x42000000, 0x00080100,
    0x00080000, 0x42000100, 0x00000100, 0x02000000, 0x40000000, 0x02080000, 0x42000100, 0x40080100,
    0x02000100, 0x40000000, 0x42080000, 0x02080100, 0x40080100, 0x00000100, 0x02000000, 0x42080000,
    0x42080100, 0x00080100, 0x42000000, 0x42080100, 0x02080000, 0x00000000, 0x40080000, 0x42000000,
    0x00080100, 0x02000100, 0x40000100, 0x00080000, 0x00000000, 0x40080000, 0x02080100, 0x40000100]"

definition sbox6 :: "u32 list" where
  "sbox6 = [
    0x20000010, 0x20400000, 0x00004000, 0x20404010, 0x20400000, 0x00000010, 0x20404010, 0x00400000,
    0x20004000, 0x00404010, 0x00400000, 0x20000010, 0x00400010, 0x20004000, 0x20000000, 0x00004010,
    0x00000000, 0x00400010, 0x20004010, 0x00004000, 0x00404000, 0x20004010, 0x00000010, 0x20400010,
    0x20400010, 0x00000000, 0x00404010, 0x20404000, 0x00004010, 0x00404000, 0x20404000, 0x20000000,
    0x20004000, 0x00000010, 0x20400010, 0x00404000, 0x20404010, 0x00400000, 0x00004010, 0x20000010,
    0x00400000, 0x20004000, 0x20000000, 0x00004010, 0x20000010, 0x20404010, 0x00404000, 0x20400000,
    0x00404010, 0x20404000, 0x00000000, 0x20400010, 0x00000010, 0x00004000, 0x20400000, 0x00404010,
    0x00004000, 0x00400010, 0x20004010, 0x00000000, 0x20404000, 0x20000000, 0x00400010, 0x20004010]"

definition sbox7 :: "u32 list" where
  "sbox7 = [
    0x00200000, 0x04200002, 0x04000802, 0x00000000, 0x00000800, 0x04000802, 0x00200802, 0x04200800,
    0x04200802, 0x00200000, 0x00000000, 0x04000002, 0x00000002, 0x04000000, 0x04200002, 0x00000802,
    0x04000800, 0x00200802, 0x00200002, 0x04000800, 0x04000002, 0x04200000, 0x04200800, 0x00200002,
    0x04200000, 0x00000800, 0x00000802, 0x04200802, 0x00200800, 0x00000002, 0x04000000, 0x00200800,
    0x04000000, 0x00200800, 0x00200000, 0x04000802, 0x04000802, 0x04200002, 0x04200002, 0x00000002,
    0x00200002, 0x04000000, 0x04000800, 0x00200000, 0x04200800, 0x00000802, 0x00200802, 0x04200800,
    0x00000802, 0x04000002, 0x04200802, 0x04200000, 0x00200800, 0x00000000, 0x00000002, 0x04200802,
    0x00000000, 0x00200802, 0x04200000, 0x00000800, 0x04000002, 0x04000800, 0x00000800, 0x00200002]"

definition sbox8 :: "u32 list" where
  "sbox8 = [
    0x10001040, 0x00001000, 0x00040000, 0x10041040, 0x10000000, 0x10001040, 0x00000040, 0x10000000,
    0x00040040, 0x10040000, 0x10041040, 0x00041000, 0x10041000, 0x00041040, 0x00001000, 0x00000040,
    0x10040000, 0x10000040, 0x10001000, 0x00001040, 0x00041000, 0x00040040, 0x10040040, 0x10041000,
    0x00001040, 0x00000000, 0x00000000, 0x10040040, 0x10000040, 0x10001000, 0x00041040, 0x00040000,
    0x00041040, 0x00040000, 0x10041000, 0x00001000, 0x00000040, 0x10040040, 0x00001000, 0x00041040,
    0x10001000, 0x00000040, 0x10000040, 0x10040000, 0x10040040, 0x10000000, 0x00040000, 0x10001040,
    0x00000000, 0x10041040, 0x00040040, 0x10000040, 0x10040000, 0x10001000, 0x10001040, 0x00000000,
    0x10041040, 0x00041000, 0x00041000, 0x00001040, 0x00001040, 0x00040040, 0x10000000, 0x10041000]"

definition leftkey_swap :: "u32 list" where
  "leftkey_swap = [
    0x00000000, 0x00000001, 0x00000100, 0x00000101, 0x00010000, 0x00010001, 0x00010100, 0x00010101,
    0x01000000, 0x01000001, 0x01000100, 0x01000101, 0x01010000, 0x01010001, 0x01010100, 0x01010101]"

definition rightkey_swap :: "u32 list" where
  "rightkey_swap = [
    0x00000000, 0x01000000, 0x00010000, 0x01010000, 0x00000100, 0x01000100, 0x00010100, 0x01010100,
    0x00000001, 0x01000001, 0x00010001, 0x01010001, 0x00000101, 0x01000101, 0x00010101, 0x01010101]"

definition encrypt_rotate_tab :: "nat list" where
  "encrypt_rotate_tab = [1, 1, 2, 2, 2, 2, 2, 2, 1, 2, 2, 2, 2, 2, 2, 1]"

definition weak_keys :: "u8 list list" where
  "weak_keys = [
    [0x00, 0x00, 0x00, 0x00, 0x00, 0x00, 0x00, 0x00], [0x00, 0x00, 0x1e, 0x1e, 0x00, 0x00, 0x0e, 0x0e],
    [0x00, 0x00, 0xe0, 0xe0, 0x00, 0x00, 0xf0, 0xf0], [0x00, 0x00, 0xfe, 0xfe, 0x00, 0x00, 0xfe, 0xfe],
    [0x00, 0x1e, 0x00, 0x1e, 0x00, 0x0e, 0x00, 0x0e], [0x00, 0x1e, 0x1e, 0x00, 0x00, 0x0e, 0x0e, 0x00],
    [0x00, 0x1e, 0xe0, 0xfe, 0x00, 0x0e, 0xf0, 0xfe], [0x00, 0x1e, 0xfe, 0xe0, 0x00, 0x0e, 0xfe, 0xf0],
    [0x00, 0xe0, 0x00, 0xe0, 0x00, 0xf0, 0x00, 0xf0], [0x00, 0xe0, 0x1e, 0xfe, 0x00, 0xf0, 0x0e, 0xfe],
    [0x00, 0xe0, 0xe0, 0x00, 0x00, 0xf0, 0xf0, 0x00], [0x00, 0xe0, 0xfe, 0x1e, 0x00, 0xf0, 0xfe, 0x0e],
    [0x00, 0xfe, 0x00, 0xfe, 0x00, 0xfe, 0x00, 0xfe], [0x00, 0xfe, 0x1e, 0xe0, 0x00, 0xfe, 0x0e, 0xf0],
    [0x00, 0xfe, 0xe0, 0x1e, 0x00, 0xfe, 0xf0, 0x0e], [0x00, 0xfe, 0xfe, 0x00, 0x00, 0xfe, 0xfe, 0x00],
    [0x1e, 0x00, 0x00, 0x1e, 0x0e, 0x00, 0x00, 0x0e], [0x1e, 0x00, 0x1e, 0x00, 0x0e, 0x00, 0x0e, 0x00],
    [0x1e, 0x00, 0xe0, 0xfe, 0x0e, 0x00, 0xf0, 0xfe], [0x1e, 0x00, 0xfe, 0xe0, 0x0e, 0x00, 0xfe, 0xf0],
    [0x1e, 0x1e, 0x00, 0x00, 0x0e, 0x0e, 0x00, 0x00], [0x1e, 0x1e, 0x1e, 0x1e, 0x0e, 0x0e, 0x0e, 0x0e],
    [0x1e, 0x1e, 0xe0, 0xe0, 0x0e, 0x0e, 0xf0, 0xf0], [0x1e, 0x1e, 0xfe, 0xfe, 0x0e, 0x0e, 0xfe, 0xfe],
    [0x1e, 0xe0, 0x00, 0xfe, 0x0e, 0xf0, 0x00, 0xfe], [0x1e, 0xe0, 0x1e, 0xe0, 0x0e, 0xf0, 0x0e, 0xf0],
    [0x1e, 0xe0, 0xe0, 0x1e, 0x0e, 0xf0, 0xf0, 0x0e], [0x1e, 0xe0, 0xfe, 0x00, 0x0e, 0xf0, 0xfe, 0x00],
    [0x1e, 0xfe, 0x00, 0xe0, 0x0e, 0xfe, 0x00, 0xf0], [0x1e, 0xfe, 0x1e, 0xfe, 0x0e, 0xfe, 0x0e, 0xfe],
    [0x1e, 0xfe, 0xe0, 0x00, 0x0e, 0xfe, 0xf0, 0x00], [0x1e, 0xfe, 0xfe, 0x1e, 0x0e, 0xfe, 0xfe, 0x0e],
    [0xe0, 0x00, 0x00, 0xe0, 0xf0, 0x00, 0x00, 0xf0], [0xe0, 0x00, 0x1e, 0xfe, 0xf0, 0x00, 0x0e, 0xfe],
    [0xe0, 0x00, 0xe0, 0x00, 0xf0, 0x00, 0xf0, 0x00], [0xe0, 0x00, 0xfe, 0x1e, 0xf0, 0x00, 0xfe, 0x0e],
    [0xe0, 0x1e, 0x00, 0xfe, 0xf0, 0x0e, 0x00, 0xfe], [0xe0, 0x1e, 0x1e, 0xe0, 0xf0, 0x0e, 0x0e, 0xf0],
    [0xe0, 0x1e, 0xe0, 0x1e, 0xf0, 0x0e, 0xf0, 0x0e], [0xe0, 0x1e, 0xfe, 0x00, 0xf0, 0x0e, 0xfe, 0x00],
    [0xe0, 0xe0, 0x00, 0x00, 0xf0, 0xf0, 0x00, 0x00], [0xe0, 0xe0, 0x1e, 0x1e, 0xf0, 0xf0, 0x0e, 0x0e],
    [0xe0, 0xe0, 0xe0, 0xe0, 0xf0, 0xf0, 0xf0, 0xf0], [0xe0, 0xe0, 0xfe, 0xfe, 0xf0, 0xf0, 0xfe, 0xfe],
    [0xe0, 0xfe, 0x00, 0x1e, 0xf0, 0xfe, 0x00, 0x0e], [0xe0, 0xfe, 0x1e, 0x00, 0xf0, 0xfe, 0x0e, 0x00],
    [0xe0, 0xfe, 0xe0, 0xfe, 0xf0, 0xfe, 0xf0, 0xfe], [0xe0, 0xfe, 0xfe, 0xe0, 0xf0, 0xfe, 0xfe, 0xf0],
    [0xfe, 0x00, 0x00, 0xfe, 0xfe, 0x00, 0x00, 0xfe], [0xfe, 0x00, 0x1e, 0xe0, 0xfe, 0x00, 0x0e, 0xf0],
    [0xfe, 0x00, 0xe0, 0x1e, 0xfe, 0x00, 0xf0, 0x0e], [0xfe, 0x00, 0xfe, 0x00, 0xfe, 0x00, 0xfe, 0x00],
    [0xfe, 0x1e, 0x00, 0xe0, 0xfe, 0x0e, 0x00, 0xf0], [0xfe, 0x1e, 0x1e, 0xfe, 0xfe, 0x0e, 0x0e, 0xfe],
    [0xfe, 0x1e, 0xe0, 0x00, 0xfe, 0x0e, 0xf0, 0x00], [0xfe, 0x1e, 0xfe, 0x1e, 0xfe, 0x0e, 0xfe, 0x0e],
    [0xfe, 0xe0, 0x00, 0x1e, 0xfe, 0xf0, 0x00, 0x0e], [0xfe, 0xe0, 0x1e, 0x00, 0xfe, 0xf0, 0x0e, 0x00],
    [0xfe, 0xe0, 0xe0, 0xfe, 0xfe, 0xf0, 0xf0, 0xfe], [0xfe, 0xe0, 0xfe, 0xe0, 0xfe, 0xf0, 0xfe, 0xf0],
    [0xfe, 0xfe, 0x00, 0x00, 0xfe, 0xfe, 0x00, 0x00], [0xfe, 0xfe, 0x1e, 0x1e, 0xfe, 0xfe, 0x0e, 0x0e],
    [0xfe, 0xfe, 0xe0, 0xe0, 0xfe, 0xfe, 0xf0, 0xf0], [0xfe, 0xfe, 0xfe, 0xfe, 0xfe, 0xfe, 0xfe, 0xfe]]"


section \<open>Weak keys\<close>

function weak_search :: "u8 list \<Rightarrow> int \<Rightarrow> int \<Rightarrow> bool" where
  "weak_search work left right =
     (if left \<le> right then
        (let middle = (left + right) div 2;
             cmp_result = memcmp work (weak_keys ! nat middle) in
         if cmp_result = 0 then True
         else if cmp_result > 0 then weak_search work (middle + 1) right
         else weak_search work left (middle - 1))
      else False)"
  by auto

termination
  by (relation "measure (\<lambda>(work, left, right). nat (right - left + 1))") auto

declare weak_search.simps [simp del]

definition gl_des_is_weak_key :: "u8 list \<Rightarrow> bool" where
  "gl_des_is_weak_key key = weak_search (map (\<lambda>k. k AND 0xfe) key) 0 63"

section \<open>Permutations and rounds\<close>

definition DO_PERMUTATION :: "nat \<Rightarrow> u32 \<Rightarrow> u32 \<times> u32 \<Rightarrow> u32 \<times> u32" where
  "DO_PERMUTATION offset msk = (\<lambda>(a, b).
     let temp = (drop_bit offset a XOR b) AND msk in (a XOR push_bit offset temp, b XOR temp))"

definition rol1 :: "u32 \<Rightarrow> u32" where
  "rol1 w = push_bit 1 w OR drop_bit 31 w"

definition ror1 :: "u32 \<Rightarrow> u32" where
  "ror1 w = push_bit 31 w OR drop_bit 1 w"

definition swap_aa :: "u32 \<times> u32 \<Rightarrow> u32 \<times> u32" where
  "swap_aa = (\<lambda>(left, right). let temp = (left XOR right) AND 0xaaaaaaaa in (left XOR temp, right XOR temp))"

definition INITIAL_PERMUTATION :: "u32 \<times> u32 \<Rightarrow> u32 \<times> u32" where
  "INITIAL_PERMUTATION = (\<lambda>(left, right).
     let (left, right) = DO_PERMUTATION 4 0x0f0f0f0f (left, right);
         (left, right) = DO_PERMUTATION 16 0x0000ffff (left, right);
         (right, left) = DO_PERMUTATION 2 0x33333333 (right, left);
         (right, left) = DO_PERMUTATION 8 0x00ff00ff (right, left);
         right = rol1 right;
         (left, right) = swap_aa (left, right);
         left = rol1 left
     in (left, right))"

definition FINAL_PERMUTATION :: "u32 \<times> u32 \<Rightarrow> u32 \<times> u32" where
  "FINAL_PERMUTATION = (\<lambda>(left, right).
     let left = ror1 left;
         (left, right) = swap_aa (left, right);
         right = ror1 right;
         (right, left) = DO_PERMUTATION 8 0x00ff00ff (right, left);
         (right, left) = DO_PERMUTATION 2 0x33333333 (right, left);
         (left, right) = DO_PERMUTATION 16 0x0000ffff (left, right);
         (left, right) = DO_PERMUTATION 4 0x0f0f0f0f (left, right)
     in (left, right))"

definition sb :: "u32 list \<Rightarrow> u32 \<Rightarrow> u32" where
  "sb box w = box ! unat (w AND 0x3f)"

text \<open>One round: the new value of \<open>to\<close>, from the old one, \<open>from\<close> and two subkeys.\<close>

definition DES_ROUND :: "u32 \<Rightarrow> u32 \<Rightarrow> u32 \<Rightarrow> u32 \<Rightarrow> u32" where
  "DES_ROUND from to k0 k1 =
     (let work = from XOR k0;
          to = to XOR sb sbox8 work;
          to = to XOR sb sbox6 (drop_bit 8 work);
          to = to XOR sb sbox4 (drop_bit 16 work);
          to = to XOR sb sbox2 (drop_bit 24 work);
          work = (push_bit 28 from OR drop_bit 4 from) XOR k1;
          to = to XOR sb sbox7 work;
          to = to XOR sb sbox5 (drop_bit 8 work);
          to = to XOR sb sbox3 (drop_bit 16 work);
          to = to XOR sb sbox1 (drop_bit 24 work) in to)"

text \<open>The chain of the lines \<^verbatim>\<open>DES_ROUND (right, left) DES_ROUND (left, right)\<close>, four subkeys per line.\<close>

fun des_lines :: "u32 list \<Rightarrow> u32 \<times> u32 \<Rightarrow> u32 \<times> u32" where
  "des_lines (k0 # k1 # k2 # k3 # keys) (left, right) =
     (let left = DES_ROUND right left k0 k1;
          right = DES_ROUND left right k2 k3 in des_lines keys (left, right))"
| "des_lines _ lr = lr"

definition be32 :: "u8 \<Rightarrow> u8 \<Rightarrow> u8 \<Rightarrow> u8 \<Rightarrow> u32" where
  "be32 a b c d = push_bit 24 (ucast a) OR push_bit 16 (ucast b) OR push_bit 8 (ucast c) OR ucast d"

definition READ_64BIT_DATA :: "u8 list \<Rightarrow> u32 \<times> u32" where
  "READ_64BIT_DATA d = (be32 (d ! 0) (d ! 1) (d ! 2) (d ! 3), be32 (d ! 4) (d ! 5) (d ! 6) (d ! 7))"

definition WRITE_64BIT_DATA :: "u32 \<times> u32 \<Rightarrow> u8 list" where
  "WRITE_64BIT_DATA = (\<lambda>(left, right).
     [ucast (drop_bit 24 left), ucast (drop_bit 16 left), ucast (drop_bit 8 left), ucast left,
      ucast (drop_bit 24 right), ucast (drop_bit 16 right), ucast (drop_bit 8 right), ucast right])"

section \<open>Key schedule\<close>

definition leftkey :: "u32 \<Rightarrow> u32" where
  "leftkey left =
     (push_bit 3 (leftkey_swap ! unat (left AND 0xf)) OR
      push_bit 2 (leftkey_swap ! unat (drop_bit 8 left AND 0xf)) OR
      push_bit 1 (leftkey_swap ! unat (drop_bit 16 left AND 0xf)) OR
      (leftkey_swap ! unat (drop_bit 24 left AND 0xf)) OR
      push_bit 7 (leftkey_swap ! unat (drop_bit 5 left AND 0xf)) OR
      push_bit 6 (leftkey_swap ! unat (drop_bit 13 left AND 0xf)) OR
      push_bit 5 (leftkey_swap ! unat (drop_bit 21 left AND 0xf)) OR
      push_bit 4 (leftkey_swap ! unat (drop_bit 29 left AND 0xf))) AND 0x0fffffff"

definition rightkey :: "u32 \<Rightarrow> u32" where
  "rightkey right =
     (push_bit 3 (rightkey_swap ! unat (drop_bit 1 right AND 0xf)) OR
      push_bit 2 (rightkey_swap ! unat (drop_bit 9 right AND 0xf)) OR
      push_bit 1 (rightkey_swap ! unat (drop_bit 17 right AND 0xf)) OR
      (rightkey_swap ! unat (drop_bit 25 right AND 0xf)) OR
      push_bit 7 (rightkey_swap ! unat (drop_bit 4 right AND 0xf)) OR
      push_bit 6 (rightkey_swap ! unat (drop_bit 12 right AND 0xf)) OR
      push_bit 5 (rightkey_swap ! unat (drop_bit 20 right AND 0xf)) OR
      push_bit 4 (rightkey_swap ! unat (drop_bit 28 right AND 0xf))) AND 0x0fffffff"

definition rot28 :: "nat \<Rightarrow> u32 \<Rightarrow> u32" where
  "rot28 n w = (push_bit n w OR drop_bit (28 - n) w) AND 0x0fffffff"

definition subkey_even :: "u32 \<Rightarrow> u32 \<Rightarrow> u32" where
  "subkey_even left right =
     (push_bit 4 left AND 0x24000000) OR (push_bit 28 left AND 0x10000000) OR (push_bit 14 left AND 0x08000000) OR
     (push_bit 18 left AND 0x02080000) OR (push_bit 6 left AND 0x01000000) OR (push_bit 9 left AND 0x00200000) OR
     (drop_bit 1 left AND 0x00100000) OR (push_bit 10 left AND 0x00040000) OR (push_bit 2 left AND 0x00020000) OR
     (drop_bit 10 left AND 0x00010000) OR (drop_bit 13 right AND 0x00002000) OR (drop_bit 4 right AND 0x00001000) OR
     (push_bit 6 right AND 0x00000800) OR (drop_bit 1 right AND 0x00000400) OR (drop_bit 14 right AND 0x00000200) OR
     (right AND 0x00000100) OR (drop_bit 5 right AND 0x00000020) OR (drop_bit 10 right AND 0x00000010) OR
     (drop_bit 3 right AND 0x00000008) OR (drop_bit 18 right AND 0x00000004) OR (drop_bit 26 right AND 0x00000002) OR
     (drop_bit 24 right AND 0x00000001)"

definition subkey_odd :: "u32 \<Rightarrow> u32 \<Rightarrow> u32" where
  "subkey_odd left right =
     (push_bit 15 left AND 0x20000000) OR (push_bit 17 left AND 0x10000000) OR (push_bit 10 left AND 0x08000000) OR
     (push_bit 22 left AND 0x04000000) OR (drop_bit 2 left AND 0x02000000) OR (push_bit 1 left AND 0x01000000) OR
     (push_bit 16 left AND 0x00200000) OR (push_bit 11 left AND 0x00100000) OR (push_bit 3 left AND 0x00080000) OR
     (drop_bit 6 left AND 0x00040000) OR (push_bit 15 left AND 0x00020000) OR (drop_bit 4 left AND 0x00010000) OR
     (drop_bit 2 right AND 0x00002000) OR (push_bit 8 right AND 0x00001000) OR (drop_bit 14 right AND 0x00000808) OR
     (drop_bit 9 right AND 0x00000400) OR (right AND 0x00000200) OR (push_bit 7 right AND 0x00000100) OR
     (drop_bit 7 right AND 0x00000020) OR (drop_bit 3 right AND 0x00000011) OR (push_bit 2 right AND 0x00000004) OR
     (drop_bit 21 right AND 0x00000002)"

fun schedule_rounds :: "nat list \<Rightarrow> u32 \<Rightarrow> u32 \<Rightarrow> u32 list" where
  "schedule_rounds [] left right = []"
| "schedule_rounds (n # ns) left right =
     (let left = rot28 n left; right = rot28 n right in
      subkey_even left right # subkey_odd left right # schedule_rounds ns left right)"

definition des_key_schedule :: "u8 list \<Rightarrow> u32 list" where
  "des_key_schedule rawkey =
     (let (left, right) = READ_64BIT_DATA rawkey;
          (right, left) = DO_PERMUTATION 4 0x0f0f0f0f (right, left);
          (right, left) = DO_PERMUTATION 0 0x10101010 (right, left) in
      schedule_rounds encrypt_rotate_tab (leftkey left) (rightkey right))"

text \<open>The loops that fill 32 words with the subkey pairs of \<open>ks\<close> in reverse order.\<close>

definition reversed_pairs :: "u32 list \<Rightarrow> u32 list" where
  "reversed_pairs ks = concat (map (\<lambda>i. [ks ! (30 - 2 * i), ks ! (31 - 2 * i)]) [0..<16])"

section \<open>Contexts and block operations\<close>

record des_ctx =
  encrypt_subkeys :: "u32 list"
  decrypt_subkeys :: "u32 list"

definition gl_des_setkey :: "u8 list \<Rightarrow> des_ctx" where
  "gl_des_setkey key =
     (let ks = des_key_schedule key in \<lparr>encrypt_subkeys = ks, decrypt_subkeys = reversed_pairs ks\<rparr>)"

definition gl_des_makekey :: "u8 list \<Rightarrow> nat \<Rightarrow> bool \<times> des_ctx option" where
  "gl_des_makekey key keylen =
     (if keylen \<noteq> 8 then (False, None) else (\<not> gl_des_is_weak_key key, Some (gl_des_setkey key)))"

text \<open>The bytes written, and the return value: the length up to the first zero when the last byte is zero.\<close>

definition gl_des_ecb_crypt :: "des_ctx \<Rightarrow> u8 list \<Rightarrow> bool \<Rightarrow> nat \<times> u8 list" where
  "gl_des_ecb_crypt ctx from mode =
     (let keys = (if mode then decrypt_subkeys ctx else encrypt_subkeys ctx);
          (left, right) = INITIAL_PERMUTATION (READ_64BIT_DATA from);
          (left, right) = des_lines keys (left, right);
          (right, left) = FINAL_PERMUTATION (right, left);
          to = WRITE_64BIT_DATA (right, left) in
      (if to ! 7 = 0 then length (takeWhile (\<lambda>ch. ch \<noteq> 0) to) else 8, to))"

definition gl_3des_set2keys :: "u8 list \<Rightarrow> u8 list \<Rightarrow> des_ctx" where
  "gl_3des_set2keys key1 key2 =
     (let ks1 = des_key_schedule key1; ks2 = des_key_schedule key2 in
      \<lparr>encrypt_subkeys = ks1 @ reversed_pairs ks2 @ ks1,
       decrypt_subkeys = reversed_pairs ks1 @ ks2 @ reversed_pairs ks1\<rparr>)"

definition gl_3des_set3keys :: "u8 list \<Rightarrow> u8 list \<Rightarrow> u8 list \<Rightarrow> des_ctx" where
  "gl_3des_set3keys key1 key2 key3 =
     (let ks1 = des_key_schedule key1; ks2 = des_key_schedule key2; ks3 = des_key_schedule key3 in
      \<lparr>encrypt_subkeys = ks1 @ reversed_pairs ks2 @ ks3,
       decrypt_subkeys = reversed_pairs ks3 @ ks2 @ reversed_pairs ks1\<rparr>)"

definition gl_3des_ecb_crypt :: "des_ctx \<Rightarrow> u8 list \<Rightarrow> bool \<Rightarrow> u8 list" where
  "gl_3des_ecb_crypt ctx from mode =
     (let keys = (if mode then decrypt_subkeys ctx else encrypt_subkeys ctx);
          (left, right) = INITIAL_PERMUTATION (READ_64BIT_DATA from);
          (left, right) = des_lines (take 32 keys) (left, right);
          (right, left) = des_lines (take 32 (drop 32 keys)) (right, left);
          (left, right) = des_lines (take 32 (drop 64 keys)) (left, right);
          (right, left) = FINAL_PERMUTATION (right, left) in
      WRITE_64BIT_DATA (right, left))"

definition gl_3des_makekey :: "u8 list \<Rightarrow> nat \<Rightarrow> bool \<times> des_ctx option" where
  "gl_3des_makekey key keylen =
     (if keylen \<noteq> 24 then (False, None)
      else (\<not> (gl_des_is_weak_key (take 8 key) \<or> gl_des_is_weak_key (take 8 (drop 8 key)) \<or>
               gl_des_is_weak_key (take 8 (drop 16 key))),
            Some (gl_3des_set3keys (take 8 key) (take 8 (drop 8 key)) (take 8 (drop 16 key)))))"

section \<open>The reversal of the subkeys and the byte order as specifications\<close>

text \<open>Pairs in reverse order, by recursion, and the strict order that \<^verbatim>\<open>memcmp\<close> decides.\<close>

fun revpairs :: "u32 list \<Rightarrow> u32 list" where
  "revpairs (a # b # ks) = revpairs ks @ [a, b]"
| "revpairs _ = []"

definition memcmp_less :: "u8 list \<Rightarrow> u8 list \<Rightarrow> bool" where
  "memcmp_less xs ys \<longleftrightarrow> length xs = length ys \<and> memcmp xs ys < 0"

section \<open>Permutations are inverse to each other\<close>

lemma bit_of_take_bit_eq: "take_bit k (m :: u32) = m \<Longrightarrow> bit m n \<Longrightarrow> n < k"
  by (metis bit_take_bit_iff)

lemma DO_PERMUTATION_eq:
  "(drop_bit offset a XOR b) AND msk = t \<Longrightarrow>
   DO_PERMUTATION offset msk (a, b) = (a XOR push_bit offset t, b XOR t)"
  by (simp only: DO_PERMUTATION_def Let_def prod.case)

lemma xor_twice_32 [simp]: "((a :: u32) XOR b) XOR b = a"
  by (simp add: xor.assoc)

lemma DO_PERMUTATION_twice:
  assumes "take_bit (32 - offset) msk = msk"
  shows "DO_PERMUTATION offset msk (DO_PERMUTATION offset msk ab) = ab"
proof -
  obtain a b where ab: "ab = (a, b)" by (cases ab)
  define t where "t = (drop_bit offset a XOR b) AND msk"
  have lt: "n + offset < 32" if "bit t n" for n
    using that bit_of_take_bit_eq [OF assms, of n] by (auto simp: t_def bit_and_iff)
  have "drop_bit offset (push_bit offset t) = t"
    by (rule bit_word_eqI) (auto simp: bit_simps dest: lt)
  hence "drop_bit offset (a XOR push_bit offset t) XOR (b XOR t) = drop_bit offset a XOR b"
    by (metis (no_types) drop_bit_xor xor.assoc xor.commute xor_twice_32)
  thus ?thesis
    unfolding ab DO_PERMUTATION_eq [OF t_def [symmetric]]
    by (subst DO_PERMUTATION_eq [of _ _ _ _ t]) (simp_all add: t_def [symmetric])
qed

lemma bit_rol1: "n < 32 \<Longrightarrow> bit (rol1 w) n = bit w (if n = 0 then 31 else n - 1)"
proof -
  assume n: "n < 32"
  have hi: "\<not> bit w (31 + n)" if "n \<noteq> 0"
    using that bit_imp_le_length [of w "31 + n"] by auto
  show ?thesis
    unfolding rol1_def bit_or_iff bit_push_bit_iff bit_drop_bit_eq o_def using n hi
    by (cases n) auto
qed

lemma bit_ror1: "n < 32 \<Longrightarrow> bit (ror1 w) n = bit w (if n = 31 then 0 else n + 1)"
proof -
  assume n: "n < 32"
  have hi: "\<not> bit w 32"
    using bit_imp_le_length [of w 32] by auto
  show ?thesis
    unfolding ror1_def bit_or_iff bit_push_bit_iff bit_drop_bit_eq o_def using n hi
    by (cases "n = 31") auto
qed

lemma rol1_ror1 [simp]: "rol1 (ror1 w) = w"
  by (rule bit_word_eqI) (auto simp: bit_rol1 bit_ror1)

lemma ror1_rol1 [simp]: "ror1 (rol1 w) = w"
  by (rule bit_word_eqI) (auto simp: bit_rol1 bit_ror1)

lemma swap_aa_twice [simp]: "swap_aa (swap_aa lr) = lr"
  by (cases lr) (simp add: swap_aa_def Let_def, auto intro!: bit_word_eqI simp: bit_simps)

lemma DO_PERMUTATION_masks [simp]:
  "DO_PERMUTATION 4 0x0f0f0f0f (DO_PERMUTATION 4 0x0f0f0f0f ab) = ab"
  "DO_PERMUTATION 16 0x0000ffff (DO_PERMUTATION 16 0x0000ffff ab) = ab"
  "DO_PERMUTATION 2 0x33333333 (DO_PERMUTATION 2 0x33333333 ab) = ab"
  "DO_PERMUTATION 8 0x00ff00ff (DO_PERMUTATION 8 0x00ff00ff ab) = ab"
  by (rule DO_PERMUTATION_twice; simp)+

lemma FINAL_INITIAL [simp]: "FINAL_PERMUTATION (INITIAL_PERMUTATION lr) = lr"
  by (cases lr) (simp add: FINAL_PERMUTATION_def INITIAL_PERMUTATION_def Let_def split_beta)

lemma INITIAL_FINAL [simp]: "INITIAL_PERMUTATION (FINAL_PERMUTATION lr) = lr"
  by (cases lr) (simp add: FINAL_PERMUTATION_def INITIAL_PERMUTATION_def Let_def split_beta)

section \<open>Bytes and words\<close>

lemma be32_bytes [simp]:
  "be32 (ucast (drop_bit 24 w)) (ucast (drop_bit 16 w)) (ucast (drop_bit 8 w)) (ucast w) = (w :: u32)"
proof (rule bit_word_eqI)
  fix n assume "n < LENGTH(32)"
  hence n: "n < 32" by simp
  consider "n < 8" | "8 \<le> n" "n < 16" | "16 \<le> n" "n < 24" | "24 \<le> n" using n by linarith
  thus "bit (be32 (ucast (drop_bit 24 w)) (ucast (drop_bit 16 w)) (ucast (drop_bit 8 w)) (ucast w)) n = bit w n"
    using n by cases (auto simp: be32_def bit_simps)
qed

lemma bytes_be32 [simp]:
  "(ucast (drop_bit 24 (be32 a b c d)) :: u8) = a"
  "(ucast (drop_bit 16 (be32 a b c d)) :: u8) = b"
  "(ucast (drop_bit 8 (be32 a b c d)) :: u8) = c"
  "(ucast (be32 a b c d) :: u8) = d"
proof -
  have hi: "\<not> bit (x :: u8) n" if "8 \<le> n" for x n
    using that bit_imp_le_length [of x n] by auto
  show "(ucast (drop_bit 24 (be32 a b c d)) :: u8) = a" "(ucast (drop_bit 16 (be32 a b c d)) :: u8) = b"
    "(ucast (drop_bit 8 (be32 a b c d)) :: u8) = c" "(ucast (be32 a b c d) :: u8) = d"
    by (rule bit_word_eqI; auto simp: be32_def bit_simps hi)+
qed

lemma READ_WRITE [simp]: "READ_64BIT_DATA (WRITE_64BIT_DATA lr) = lr"
  by (cases lr) (simp add: READ_64BIT_DATA_def WRITE_64BIT_DATA_def)

lemma length_WRITE [simp]: "length (WRITE_64BIT_DATA lr) = 8"
  by (cases lr) (simp add: WRITE_64BIT_DATA_def)

lemma WRITE_READ:
  assumes "length d = 8"
  shows "WRITE_64BIT_DATA (READ_64BIT_DATA d) = d"
proof -
  have "WRITE_64BIT_DATA (READ_64BIT_DATA d) = [d ! 0, d ! 1, d ! 2, d ! 3, d ! 4, d ! 5, d ! 6, d ! 7]"
    by (simp add: READ_64BIT_DATA_def WRITE_64BIT_DATA_def)
  also have "\<dots> = d"
    using assms by (intro nth_equalityI) (auto simp: less_Suc_eq numeral_eq_Suc)
  finally show ?thesis .
qed

section \<open>A pass of rounds with the reversed subkeys undoes the pass\<close>

lemma DES_ROUND_xor: "DES_ROUND from to k0 k1 = to XOR DES_ROUND from 0 k0 k1"
  by (simp add: DES_ROUND_def Let_def xor.assoc)

lemma DES_ROUND_twice [simp]: "DES_ROUND from (DES_ROUND from to k0 k1) k0 k1 = to"
  by (subst DES_ROUND_xor, subst DES_ROUND_xor) simp

lemma length_revpairs: "length ks = 2 * n \<Longrightarrow> length (revpairs ks) = 2 * n"
  by (induction ks arbitrary: n rule: revpairs.induct) (auto, presburger)

lemma revpairs_snoc: "even (length ks) \<Longrightarrow> revpairs (ks @ [a, b]) = a # b # revpairs ks"
  by (induction ks rule: revpairs.induct) auto

lemma revpairs_revpairs: "even (length ks) \<Longrightarrow> revpairs (revpairs ks) = ks"
  by (induction ks rule: revpairs.induct)
     (auto simp: revpairs_snoc length_revpairs elim!: evenE)

lemma four_dvd_Suc [simp]:
  "4 dvd Suc (Suc (Suc (Suc n))) \<longleftrightarrow> 4 dvd n" "\<not> 4 dvd Suc (Suc 0)" "\<not> 4 dvd Suc (Suc (Suc 0))"
  by presburger+

lemma des_lines_append:
  "4 dvd length xs \<Longrightarrow> des_lines (xs @ ys) lr = des_lines ys (des_lines xs lr)"
  by (induction xs lr rule: des_lines.induct) (simp_all add: Let_def)

lemma des_lines_revpairs:
  "4 dvd length ks \<Longrightarrow> des_lines ks (l, r) = (l', r') \<Longrightarrow> des_lines (revpairs ks) (r', l') = (r, l)"
proof (induction ks "(l, r)" arbitrary: l r rule: des_lines.induct)
  case (1 k0 k1 k2 k3 keys left right)
  let ?l1 = "DES_ROUND right left k0 k1" let ?r1 = "DES_ROUND ?l1 right k2 k3"
  have "des_lines (revpairs keys) (r', l') = (?r1, ?l1)"
    using 1 by (simp add: Let_def)
  moreover have "4 dvd length (revpairs keys)"
    using 1(2) length_revpairs [of keys "length keys div 2"] by (simp, presburger)
  ultimately show ?case
    by (simp add: des_lines_append Let_def)
qed simp_all

lemma revpairs_conv_nth:
  "length ks = 2 * n \<Longrightarrow>
   revpairs ks = concat (map (\<lambda>i. [ks ! (2 * n - 2 - 2 * i), ks ! (2 * n - 1 - 2 * i)]) [0..<n])"
proof (induction ks arbitrary: n rule: revpairs.induct)
  case (1 a b ks)
  then obtain m where n: "n = Suc m" "length ks = 2 * m" by (cases n) auto
  have "map (\<lambda>i. [(a # b # ks) ! (2 * m - 2 * i), (a # b # ks) ! (Suc (2 * m) - 2 * i)]) [0..<m] =
        map (\<lambda>i. [ks ! (2 * m - 2 - 2 * i), ks ! (2 * m - 1 - 2 * i)]) [0..<m]"
    by (auto simp: n nth_Cons split: nat.splits intro!: arg_cong [of _ _ "nth ks"])
  thus ?case
    using 1(1) [OF n(2)] by (simp add: n del: map_eq_conv)
qed auto

lemma length_schedule_rounds [simp]: "length (schedule_rounds ns l r) = 2 * length ns"
  by (induction ns arbitrary: l r) (simp_all add: Let_def)

lemma length_des_key_schedule [simp]: "length (des_key_schedule k) = 32"
  by (simp add: des_key_schedule_def Let_def split_beta encrypt_rotate_tab_def)

lemma reversed_pairs_revpairs: "length ks = 32 \<Longrightarrow> reversed_pairs ks = revpairs ks"
  using revpairs_conv_nth [of ks 16] by (simp add: reversed_pairs_def)

lemma length_reversed_pairs [simp]: "length (reversed_pairs ks) = 32"
  by (simp add: reversed_pairs_def length_concat o_def sum_list_triv)

lemma reversed_pairs_undo:
  assumes "length ks = 32" "des_lines ks (l, r) = (l', r')"
  shows "des_lines (reversed_pairs ks) (r', l') = (r, l)"
  using assms des_lines_revpairs [of ks l r l' r'] by (simp add: reversed_pairs_revpairs)

lemma reversed_pairs_undo':
  assumes "length ks = 32" "des_lines (reversed_pairs ks) (l, r) = (l', r')"
  shows "des_lines ks (r', l') = (r, l)"
  using assms des_lines_revpairs [of "reversed_pairs ks" l r l' r']
  by (simp add: reversed_pairs_revpairs revpairs_revpairs length_revpairs [of ks 16])

lemma ecb_crypt_bytes:
  "snd (gl_des_ecb_crypt ctx from mode) =
     (let (l, r) = des_lines (if mode then decrypt_subkeys ctx else encrypt_subkeys ctx)
                     (INITIAL_PERMUTATION (READ_64BIT_DATA from)) in
      WRITE_64BIT_DATA (FINAL_PERMUTATION (r, l)))"
  by (simp add: gl_des_ecb_crypt_def Let_def split_beta)

section \<open>Round trips\<close>

text \<open>C28: DES decryption undoes encryption: for every key and every block of eight bytes, decrypting the
  encrypted block with the context that gl_des_setkey made from the key gives the block back.\<close>

theorem des_roundtrip:
  assumes "length block = 8"
  shows "snd (gl_des_ecb_crypt (gl_des_setkey key) (snd (gl_des_ecb_crypt (gl_des_setkey key) block False)) True) = block"
proof -
  obtain l r where lr: "INITIAL_PERMUTATION (READ_64BIT_DATA block) = (l, r)" by fastforce
  obtain l' r' where e: "des_lines (des_key_schedule key) (l, r) = (l', r')" by fastforce
  have "FINAL_PERMUTATION (l, r) = READ_64BIT_DATA block"
    by (metis lr FINAL_INITIAL)
  thus ?thesis
    using assms by (simp add: ecb_crypt_bytes gl_des_setkey_def Let_def lr e
        reversed_pairs_undo [OF _ e] WRITE_READ)
qed

theorem des_roundtrip_witness:
  "snd (gl_des_ecb_crypt (gl_des_setkey [0x13, 0x34, 0x57, 0x79, 0x9b, 0xbc, 0xdf, 0xf1])
     (snd (gl_des_ecb_crypt (gl_des_setkey [0x13, 0x34, 0x57, 0x79, 0x9b, 0xbc, 0xdf, 0xf1])
        [0x01, 0x23, 0x45, 0x67, 0x89, 0xab, 0xcd, 0xef] False)) True) =
   [0x01, 0x23, 0x45, 0x67, 0x89, 0xab, 0xcd, 0xef]"
  by (rule des_roundtrip) simp

lemma triple_roundtrip:
  assumes len: "length block = 8" "length a = 32" "length b = 32" "length c = 32"
    and enc: "encrypt_subkeys ctx = a @ reversed_pairs b @ c"
    and dec: "decrypt_subkeys ctx = reversed_pairs c @ b @ reversed_pairs a"
  shows "gl_3des_ecb_crypt ctx (gl_3des_ecb_crypt ctx block False) True = block"
proof -
  obtain l r where lr: "INITIAL_PERMUTATION (READ_64BIT_DATA block) = (l, r)" by fastforce
  obtain l1 r1 where e1: "des_lines a (l, r) = (l1, r1)" by fastforce
  obtain r2 l2 where e2: "des_lines (reversed_pairs b) (r1, l1) = (r2, l2)" by fastforce
  obtain l3 r3 where e3: "des_lines c (l2, r2) = (l3, r3)" by fastforce
  note undo = reversed_pairs_undo [OF len(2) e1] reversed_pairs_undo' [OF len(3) e2] reversed_pairs_undo [OF len(4) e3]
  have "FINAL_PERMUTATION (l, r) = READ_64BIT_DATA block"
    by (metis lr FINAL_INITIAL)
  thus ?thesis
    unfolding gl_3des_ecb_crypt_def enc dec using len(2-4)
    by (simp add: Let_def lr e1 e2 e3 undo WRITE_READ [OF len(1)])
qed

text \<open>C29: Triple DES decryption undoes encryption, with three keys as with two.\<close>

theorem triple_des_roundtrip:
  assumes "length block = 8"
  shows "gl_3des_ecb_crypt (gl_3des_set3keys key1 key2 key3)
           (gl_3des_ecb_crypt (gl_3des_set3keys key1 key2 key3) block False) True = block \<and>
         gl_3des_ecb_crypt (gl_3des_set2keys key1 key2)
           (gl_3des_ecb_crypt (gl_3des_set2keys key1 key2) block False) True = block"
  using triple_roundtrip [OF assms, of "des_key_schedule key1" "des_key_schedule key2" "des_key_schedule key3"
      "gl_3des_set3keys key1 key2 key3"]
    triple_roundtrip [OF assms, of "des_key_schedule key1" "des_key_schedule key2" "des_key_schedule key1"
      "gl_3des_set2keys key1 key2"]
  by (simp add: gl_3des_set3keys_def gl_3des_set2keys_def Let_def)

theorem triple_des_roundtrip_witness:
  "gl_3des_ecb_crypt (gl_3des_set2keys [1, 2, 3, 4, 5, 6, 7, 8] [9, 10, 11, 12, 13, 14, 15, 16])
     (gl_3des_ecb_crypt (gl_3des_set2keys [1, 2, 3, 4, 5, 6, 7, 8] [9, 10, 11, 12, 13, 14, 15, 16])
        [0, 1, 2, 3, 4, 5, 6, 7] False) True = [0, 1, 2, 3, 4, 5, 6, 7]"
  using triple_des_roundtrip [of "[0, 1, 2, 3, 4, 5, 6, 7]"] by simp

text \<open>Triple DES with three equal keys is DES: the three passes are one encryption pass, its inverse and
  the pass again, so both operations agree on every block in both directions.\<close>

theorem triple_des_equal_keys:
  "gl_3des_ecb_crypt (gl_3des_set3keys key key key) block mode =
   snd (gl_des_ecb_crypt (gl_des_setkey key) block mode)"
proof -
  let ?ks = "des_key_schedule key" and ?rs = "reversed_pairs (des_key_schedule key)"
  obtain l r where lr: "INITIAL_PERMUTATION (READ_64BIT_DATA block) = (l, r)" by fastforce
  obtain l1 r1 where e: "des_lines ?ks (l, r) = (l1, r1)" by fastforce
  obtain l2 r2 where d: "des_lines ?rs (l, r) = (l2, r2)" by fastforce
  show ?thesis
    using reversed_pairs_undo [OF _ e] reversed_pairs_undo' [OF _ d]
    by (cases mode)
       (simp_all add: ecb_crypt_bytes gl_3des_ecb_crypt_def gl_3des_set3keys_def gl_des_setkey_def Let_def lr e d)
qed

section \<open>The weak-key check\<close>

lemma memcmp_sym: "memcmp ys xs = - memcmp xs ys"
  by (induction xs ys rule: memcmp.induct) auto

lemma memcmp_trans:
  "length xs = length ys \<Longrightarrow> length ys = length zs \<Longrightarrow> memcmp xs ys < 0 \<Longrightarrow> memcmp ys zs < 0 \<Longrightarrow> memcmp xs zs < 0"
  by (induction xs ys arbitrary: zs rule: memcmp.induct)
     (case_tac zs; auto split: if_splits)+

lemma transp_memcmp_less: "transp memcmp_less"
  unfolding transp_def memcmp_less_def using memcmp_trans by metis

lemma weak_keys_sorted: "sorted_wrt memcmp_less weak_keys"
proof -
  have "successively memcmp_less weak_keys"
    unfolding weak_keys_def by (simp add: memcmp_less_def)
  thus ?thesis
    by (simp add: successively_iff_sorted_wrt_strong transp_memcmp_less [unfolded transp_def, rule_format])
qed

lemma length_weak_keys [simp]: "length weak_keys = 64"
  by (simp add: weak_keys_def)

lemma length_weak_key: "k \<in> set weak_keys \<Longrightarrow> length k = 8"
  unfolding weak_keys_def by (simp, elim disjE; simp)

lemma length_weak_keys_nth: "i < 64 \<Longrightarrow> length (weak_keys ! nat i) = 8"
  by (intro length_weak_key nth_mem) auto

lemma weak_keys_less:
  "0 \<le> i \<Longrightarrow> i < j \<Longrightarrow> j < 64 \<Longrightarrow> memcmp (weak_keys ! nat i) (weak_keys ! nat j) < 0"
  using sorted_wrt_nth_less [OF weak_keys_sorted, of "nat i" "nat j"] by (simp add: memcmp_less_def)

lemma weak_keys_order:
  assumes "0 \<le> i" "i < 64" "0 \<le> j" "j < 64"
  shows "memcmp (weak_keys ! nat i) (weak_keys ! nat j) < 0 \<longleftrightarrow> i < j"
    and "0 < memcmp (weak_keys ! nat i) (weak_keys ! nat j) \<longleftrightarrow> j < i"
  using assms weak_keys_less [of i j] weak_keys_less [of j i]
    memcmp_sym [of "weak_keys ! nat i" "weak_keys ! nat j"] memcmp_sym [of "weak_keys ! nat i" "weak_keys ! nat i"]
  by (cases i j rule: linorder_cases; simp)+

lemma weak_search_iff:
  assumes "length work = 8" "0 \<le> left" "right < 64"
  shows "weak_search work left right \<longleftrightarrow> (\<exists>i. left \<le> i \<and> i \<le> right \<and> work = weak_keys ! nat i)"
  using assms
proof (induction work left right rule: weak_search.induct)
  case (1 work left right)
  show ?case
  proof (cases "left \<le> right")
    case True
    define m where "m = (left + right) div 2"
    have m: "left \<le> m" "m \<le> right" "0 \<le> m" "m < 64"
      using True 1(3-5) by (auto simp: m_def)
    note ord = weak_keys_order [OF _ _ m(3,4)]
    consider "memcmp work (weak_keys ! nat m) = 0" | "memcmp work (weak_keys ! nat m) > 0"
      | "memcmp work (weak_keys ! nat m) < 0" by linarith
    thus ?thesis
    proof cases
      case 1
      hence "work = weak_keys ! nat m"
        using memcmp_eq_0 [of work "weak_keys ! nat m"] length_weak_keys_nth [OF m(4)] \<open>length work = 8\<close> by simp
      thus ?thesis
        using True 1 m by (subst weak_search.simps) (auto simp flip: m_def)
    next
      case 2
      hence "weak_search work left right = weak_search work (m + 1) right"
        using True by (subst weak_search.simps) (simp flip: m_def)
      also have "\<dots> = (\<exists>i. m + 1 \<le> i \<and> i \<le> right \<and> work = weak_keys ! nat i)"
        using 1(1) [OF True m_def refl] 2 1(3-5) m by simp
      also have "\<dots> = (\<exists>i. left \<le> i \<and> i \<le> right \<and> work = weak_keys ! nat i)"
        using m 2 ord(2) 1(4,5) by (intro ex_cong1) fastforce
      finally show ?thesis .
    next
      case 3
      hence "weak_search work left right = weak_search work left (m - 1)"
        using True by (subst weak_search.simps) (simp flip: m_def)
      also have "\<dots> = (\<exists>i. left \<le> i \<and> i \<le> m - 1 \<and> work = weak_keys ! nat i)"
        using 1(2) [OF True m_def refl] 3 1(3-5) m by simp
      also have "\<dots> = (\<exists>i. left \<le> i \<and> i \<le> right \<and> work = weak_keys ! nat i)"
        using m 3 ord(1) 1(4,5) by (intro ex_cong1) fastforce
      finally show ?thesis .
    qed
  qed (auto simp: weak_search.simps)
qed

lemma weak_search_all:
  assumes "length work = 8"
  shows "weak_search work 0 63 \<longleftrightarrow> work \<in> set weak_keys"
proof -
  have "(\<exists>i. 0 \<le> i \<and> i \<le> 63 \<and> work = weak_keys ! nat i) \<longleftrightarrow> (\<exists>n<64. weak_keys ! n = work)" (is "?L \<longleftrightarrow> ?R")
  proof
    assume ?L
    then obtain i where "0 \<le> i" "i \<le> 63" "work = weak_keys ! nat i" by blast
    thus ?R by (intro exI [of _ "nat i"]) auto
  next
    assume ?R
    then obtain n where "n < 64" "weak_keys ! n = work" by blast
    thus ?L by (intro exI [of _ "int n"]) auto
  qed
  thus ?thesis
    using weak_search_iff [of work 0 63] assms by (simp add: in_set_conv_nth)
qed


text \<open>The binary search of gl_des_is_weak_key decides membership: a key of eight bytes is reported as weak
  exactly when it is in the table of the 64 weak keys, parity bits ignored.\<close>

theorem weak_key_check:
  assumes "length key = 8"
  shows "gl_des_is_weak_key key \<longleftrightarrow> map (\<lambda>k. k AND 0xfe) key \<in> set weak_keys"
  using assms by (simp add: gl_des_is_weak_key_def weak_search_all)

theorem weak_key_check_witness:
  "gl_des_is_weak_key [0x01, 0x1f, 0xe0, 0xff, 0x00, 0x0f, 0xf1, 0xfe] \<and>
   \<not> gl_des_is_weak_key [0x13, 0x34, 0x57, 0x79, 0x9b, 0xbc, 0xdf, 0xf1]"
proof
  show "gl_des_is_weak_key [0x01, 0x1f, 0xe0, 0xff, 0x00, 0x0f, 0xf1, 0xfe]"
    by (subst weak_key_check) (simp_all add: weak_keys_def)
  show "\<not> gl_des_is_weak_key [0x13, 0x34, 0x57, 0x79, 0x9b, 0xbc, 0xdf, 0xf1]"
    by (subst weak_key_check) (simp_all add: weak_keys_def)
qed

end
