(* ===== verification/Dfs_Math.thy ===== *)
theory Dfs_Math
  imports Dfs_Prelude
begin

text \<open>
  The number routines of \<^verbatim>\<open>src/src/core/dfs_math.cpp\<close> on \<^verbatim>\<open>size_t\<close>: the binary logarithm rounded down or
  up, the primality test by trial division, whose square \<^verbatim>\<open>i * i\<close> wraps modulo \<open>2 ^ 64\<close>, and the
  search for the next prime. The loops that could run on are \<open>option\<close> values; the lemmas show that the
  test returns for every argument and when its answer is right.
\<close>

unbundle bit_operations_syntax

section \<open>Binary logarithm\<close>

lemma unat_half: "unat (drop_bit 1 (x :: u64)) = unat x div 2"
  unfolding unat_drop_bit_eq by (simp add: drop_bit_eq_div)

function log2_loop :: "nat \<Rightarrow> u64 \<Rightarrow> nat" where
  "log2_loop i x = (if x > 1 then log2_loop (i + 1) (drop_bit 1 x) else i)"
  by auto
termination
proof (relation "measure (\<lambda>(i, x). unat x)")
  fix i :: nat and x :: u64
  assume "x > 1"
  hence "1 < unat x" by (simp add: word_less_nat_alt)
  thus "((i + 1, drop_bit 1 x), i, x) \<in> measure (\<lambda>(i, x). unat x)"
    unfolding in_measure prod.case unat_half by simp
qed simp

declare log2_loop.simps [simp del]

definition dfs_math_dfslog2 :: "u64 \<Rightarrow> bool \<Rightarrow> nat" where
  "dfs_math_dfslog2 x round =
     (let i = (if round \<and> x AND (x - 1) \<noteq> 0 then 1 else 0) in log2_loop i x)"

section \<open>Primes\<close>

partial_function (option) prime_loop :: "u64 \<Rightarrow> u64 \<Rightarrow> bool option" where
  "prime_loop x i =
     (if i * i \<le> x then (if x mod i = 0 then Some False else prime_loop x (i + 1)) else Some True)"

definition dfs_math_is_prime :: "u64 \<Rightarrow> bool option" where
  "dfs_math_is_prime x = (if x \<le> 1 then Some False else prime_loop x 2)"

partial_function (option) dfs_math_find_prime :: "u64 \<Rightarrow> u64 option" where
  "dfs_math_find_prime x =
     (case dfs_math_is_prime x of
        None \<Rightarrow> None
      | Some found \<Rightarrow> if found then Some x else dfs_math_find_prime (x + 1))"

text \<open>The specification: a number with exactly two divisors.\<close>

definition prime_number :: "nat \<Rightarrow> bool" where
  "prime_number n \<longleftrightarrow> 1 < n \<and> (\<forall>d. d dvd n \<longrightarrow> d = 1 \<or> d = n)"

section \<open>Bounds of the logarithm\<close>

lemma log2_loop_bounds:
  "0 < x \<Longrightarrow> \<exists>k. log2_loop i x = i + k \<and> 2 ^ k \<le> unat x \<and> unat x < 2 ^ (k + 1)"
proof (induction i x rule: log2_loop.induct)
  case (1 i x)
  show ?case
  proof (cases "x > 1")
    case True
    let ?h = "drop_bit 1 x"
    note u = unat_half [of x]
    have "1 < unat x" using True by (simp add: word_less_nat_alt)
    hence "0 < ?h" using u by (simp add: word_less_nat_alt)
    then obtain k where k: "log2_loop (i + 1) ?h = i + 1 + k" "2 ^ k \<le> unat x div 2" "unat x div 2 < 2 ^ (k + 1)"
      using 1(1) [OF True] u by auto
    have "2 ^ (k + 1) \<le> unat x" "unat x < 2 ^ (k + 1 + 1)" using k(2,3) by auto
    thus ?thesis
      using True k(1) by (subst log2_loop.simps) (auto intro!: exI [of _ "k + 1"])
  next
    case False
    hence "unat x \<le> 1" "0 < unat x" using 1(2) by (auto simp: word_less_nat_alt)
    hence "unat x = 1" by simp
    thus ?thesis using False by (subst log2_loop.simps) simp
  qed
qed

lemma log2_loop_shift: "log2_loop (Suc i) x = Suc (log2_loop i x)"
proof (induction i x rule: log2_loop.induct)
  case (1 i x)
  thus ?case by (subst (1 2) log2_loop.simps) simp
qed

lemma bit_top_nat: "2 ^ k \<le> (n :: nat) \<Longrightarrow> n < 2 ^ (k + 1) \<Longrightarrow> bit n k"
proof -
  assume "2 ^ k \<le> n" "n < 2 ^ (k + 1)"
  hence "n div 2 ^ k = 1" by (intro div_nat_eqI) auto
  thus ?thesis by (simp add: bit_iff_odd)
qed

lemma and_pred_zero_iff:
  assumes "2 ^ k \<le> unat (x :: u64)" "unat x < 2 ^ (k + 1)"
  shows "x AND (x - 1) = 0 \<longleftrightarrow> unat x = 2 ^ k"
proof
  assume eq: "unat x = 2 ^ k"
  have "unat (x AND (x - 1)) = 2 ^ k AND mask k"
    using eq assms(1) by (subst unsigned_and_eq, subst unat_minus_one) (auto simp: mask_eq_exp_minus_1)
  also have "\<dots> = 0"
    by (rule bit_eqI) (auto simp: bit_and_iff bit_mask_iff bit_exp_iff)
  finally show "x AND (x - 1) = 0" by (simp add: unsigned_eq_0_iff)
next
  assume z: "x AND (x - 1) = 0"
  show "unat x = 2 ^ k"
  proof (rule ccontr)
    assume "unat x \<noteq> 2 ^ k"
    moreover have "unat (x - 1) = unat x - 1"
      using assms(1) by (intro unat_minus_one) auto
    ultimately have "2 ^ k \<le> unat (x - 1)" "unat (x - 1) < 2 ^ (k + 1)"
      using assms by auto
    hence "bit (unat x AND unat (x - 1)) k"
      using assms by (simp add: bit_and_iff bit_top_nat del: power_Suc)
    hence "bit (unat (x AND (x - 1))) k" by (simp add: unsigned_and_eq)
    thus False by (simp add: z)
  qed
qed


text \<open>C35: The logarithm brackets its argument. Rounded down, the result \<open>i\<close> satisfies \<open>2 ^ i \<le> x < 2 ^ (i + 1)\<close>;
  rounded up, \<open>2 ^ i\<close> is the least power of two that is at least \<open>x\<close>; and \<open>i\<close> is at most 64.\<close>

theorem dfslog2_bounds:
  assumes "0 < x"
  shows "2 ^ dfs_math_dfslog2 x False \<le> unat x \<and> unat x < 2 ^ (dfs_math_dfslog2 x False + 1) \<and>
         unat x \<le> 2 ^ dfs_math_dfslog2 x True \<and>
         (\<forall>j. unat x \<le> 2 ^ j \<longrightarrow> dfs_math_dfslog2 x True \<le> j) \<and> dfs_math_dfslog2 x True \<le> 64"
proof -
  obtain k where k: "log2_loop 0 x = k" "2 ^ k \<le> unat x" "unat x < 2 ^ (k + 1)"
    using log2_loop_bounds [OF assms, of 0] by auto
  have down: "dfs_math_dfslog2 x False = k"
    by (simp add: dfs_math_dfslog2_def k(1))
  have up: "dfs_math_dfslog2 x True = (if unat x = 2 ^ k then k else k + 1)"
    using log2_loop_shift [of 0 x] by (simp add: dfs_math_dfslog2_def and_pred_zero_iff [OF k(2,3)] k(1))
  have least: "(if unat x = 2 ^ k then k else k + 1) \<le> j" if "unat x \<le> 2 ^ j" for j
  proof -
    have "(2 :: nat) ^ k \<le> 2 ^ j" using that k(2) by linarith
    moreover have "(2 :: nat) ^ k < 2 ^ j" if "unat x \<noteq> 2 ^ k"
      using that \<open>unat x \<le> 2 ^ j\<close> k(2) by linarith
    ultimately show ?thesis by auto
  qed
  have "unat x \<le> 2 ^ 64" using unsigned_less [of x, where 'a = nat] by simp
  thus ?thesis
    unfolding down up using k(2,3) least by auto
qed

theorem dfslog2_bounds_witness:
  "0 < (100 :: u64) \<and> unat (100 :: u64) \<le> 2 ^ dfs_math_dfslog2 100 True \<and> dfs_math_dfslog2 100 True \<le> 7"
  using dfslog2_bounds [of 100] by auto

section \<open>The primality test\<close>

text \<open>The loop with the counter as a natural number below the wrap of its square.\<close>

lemma unat_mult_small: "n < 2 ^ 32 \<Longrightarrow> unat ((of_nat n :: u64) * of_nat n) = n * n"
proof -
  assume n: "n < 2 ^ 32"
  have "n * n < 2 ^ 32 * 2 ^ 32" using n by (intro mult_strict_mono) auto
  thus ?thesis by (simp add: unsigned_of_nat take_bit_nat_eq_self flip: of_nat_mult)
qed

lemma prime_loop_step:
  assumes "n < 2 ^ 32" "n * n \<le> unat x"
  shows "prime_loop x (of_nat n) = (if n dvd unat x then Some False else prime_loop x (of_nat (Suc n)))"
proof -
  have "(of_nat n * of_nat n :: u64) \<le> x"
    using assms unat_mult_small [of n] by (simp add: word_le_nat_alt)
  moreover have "x mod of_nat n = 0 \<longleftrightarrow> n dvd unat x"
    using assms(1) unat_mod [of x "of_nat n"]
    by (simp add: unsigned_of_nat take_bit_nat_eq_self dvd_eq_mod_eq_0 flip: unsigned_eq_0_iff [where 'a = nat])
  ultimately show ?thesis by (subst prime_loop.simps) (simp add: add.commute)
qed


lemma prime_loop_composite:
  assumes "2 \<le> n" "n \<le> p" "p * p \<le> unat x" "p dvd unat x"
  shows "prime_loop x (of_nat n) = Some False"
proof -
  have p: "p < 2 ^ 32"
  proof (rule ccontr)
    assume "\<not> p < 2 ^ 32"
    hence "2 ^ 32 * 2 ^ 32 \<le> p * p" by (intro mult_le_mono) auto
    thus False using assms(3) unsigned_less [of x, where 'a = nat] by simp
  qed
  show ?thesis
    using assms(2)
  proof (induction n rule: inc_induct)
    case base
    show ?case using assms p prime_loop_step [of p x] by simp
  next
    case (step m)
    have "m * m \<le> unat x" using step(2) assms(3) mult_le_mono [of m p m p] by linarith
    thus ?case using step p prime_loop_step [of m x] by simp
  qed
qed

lemma prime_loop_prime:
  assumes "prime_number (unat x)" "unat x < (2 ^ 32 - 1) * (2 ^ 32 - 1)" "2 \<le> n" "n \<le> 2 ^ 32 - 1"
  shows "prime_loop x (of_nat n) = Some True"
  using assms(4,3)
proof (induction n rule: inc_induct)
  case base
  have "unat ((of_nat (2 ^ 32 - 1) :: u64) * of_nat (2 ^ 32 - 1)) = (2 ^ 32 - 1) * (2 ^ 32 - 1)"
    by (rule unat_mult_small) simp
  thus ?case using assms(2) by (subst prime_loop.simps) (simp add: word_le_nat_alt)
next
  case (step n)
  show ?case
  proof (cases "n * n \<le> unat x")
    case True
    have "n \<noteq> 1" "n \<noteq> unat x" using True step(4) by auto
    hence "\<not> n dvd unat x"
      using assms(1) by (auto simp: prime_number_def)
    thus ?thesis using True step prime_loop_step [of n x] by simp
  next
    case False
    thus ?thesis using step(2) unat_mult_small [of n]
      by (subst prime_loop.simps) (simp add: word_le_nat_alt)
  qed
qed

lemma unat_succ: "i < x \<Longrightarrow> unat (i + 1) = unat (i :: u64) + 1"
  using unsigned_less [of x, where 'a = nat]
  by (simp add: word_less_nat_alt unat_word_ariths)

lemma prime_loop_returns:
  assumes "2 \<le> i" "i \<le> x"
  shows "\<exists>r. prime_loop x i = Some r"
  using assms
proof (induction "unat x - unat i" arbitrary: i rule: less_induct)
  case less
  show ?case
  proof (cases "i * i \<le> x \<and> x mod i \<noteq> 0")
    case True
    have lt: "i < x" using True less(3) by (cases "i = x") auto
    have s: "unat (i + 1) = unat i + 1"
      by (rule unat_succ [OF lt])
    have "\<exists>r. prime_loop x (i + 1) = Some r"
      using lt less(2) s by (intro less(1)) (auto simp: word_less_nat_alt word_le_nat_alt)
    thus ?thesis using True by (subst prime_loop.simps) simp
  qed (subst prime_loop.simps, auto)
qed

lemma composite_factor:
  assumes "1 < n" "\<not> prime_number n"
  shows "\<exists>p. 2 \<le> p \<and> p * p \<le> n \<and> p dvd n"
proof -
  obtain d where d: "d dvd n" "d \<noteq> 1" "d \<noteq> n" using assms by (auto simp: prime_number_def)
  then obtain e where e: "n = d * e" by (auto elim: dvdE)
  have "2 \<le> d" "2 \<le> e" using assms(1) d e by (cases d; cases e; auto; presburger)+
  hence "2 \<le> min d e" "min d e * min d e \<le> n" "min d e dvd n"
    using e by (auto simp: min_def)
  thus ?thesis by blast
qed


lemma is_prime_returns:
  "(\<exists>r. dfs_math_is_prime x = Some r) \<and>
   (unat x < (2 ^ 32 - 1) * (2 ^ 32 - 1) \<longrightarrow> dfs_math_is_prime x = Some (prime_number (unat x))) \<and>
   (\<not> prime_number (unat x) \<longrightarrow> dfs_math_is_prime x = Some False)"
proof (cases "x \<le> 1")
  case True
  hence "\<not> prime_number (unat x)" by (simp add: prime_number_def word_le_nat_alt)
  thus ?thesis using True by (auto simp: dfs_math_is_prime_def)
next
  case False
  hence x: "1 < unat x" "2 \<le> x" "dfs_math_is_prime x = prime_loop x (of_nat 2)"
    by (simp_all add: word_le_nat_alt dfs_math_is_prime_def)
  have "prime_loop x (of_nat 2) = Some False" if "\<not> prime_number (unat x)"
    using composite_factor [OF x(1) that] prime_loop_composite [of 2] by auto
  moreover have "prime_loop x (of_nat 2) = Some True"
    if "prime_number (unat x)" "unat x < (2 ^ 32 - 1) * (2 ^ 32 - 1)"
    using prime_loop_prime [OF that, of 2] by simp
  ultimately show ?thesis
    using prime_loop_returns [of 2 x] x by (cases "prime_number (unat x)") simp_all
qed

text \<open>C36: The primality test returns for every argument. Its answer is right for every argument below
  \<open>(2 ^ 32 - 1) ^ 2\<close>, where the square of the counter cannot wrap, and for composite numbers over the whole
  range of \<^verbatim>\<open>size_t\<close>.\<close>

theorem is_prime_correct:
  "(\<exists>r. dfs_math_is_prime x = Some r) \<and>
   (unat x < (2 ^ 32 - 1) * (2 ^ 32 - 1) \<longrightarrow> dfs_math_is_prime x = Some (prime_number (unat x))) \<and>
   (\<not> prime_number (unat x) \<longrightarrow> dfs_math_is_prime x = Some False)"
  by (rule is_prime_returns)

theorem is_prime_correct_witness: "dfs_math_is_prime 97 = Some (prime_number 97) \<and> dfs_math_is_prime 91 = Some False"
  using is_prime_correct [of 97] is_prime_correct [of 91]
  by (auto simp: prime_number_def dvd_def intro: exI [of _ 7])

lemma find_prime_least:
  assumes "prime_number (unat q)" "unat q < (2 ^ 32 - 1) * (2 ^ 32 - 1)"
    and "x \<le> q" "\<And>y. x \<le> y \<Longrightarrow> y < q \<Longrightarrow> \<not> prime_number (unat y)"
  shows "dfs_math_find_prime x = Some q"
  using assms(3,4)
proof (induction "unat q - unat x" arbitrary: x rule: less_induct)
  case less
  have t: "dfs_math_is_prime x = Some (prime_number (unat x))"
    using is_prime_returns [of x] assms(2) less(2) by (simp add: word_le_nat_alt)
  show ?case
  proof (cases "x = q")
    case True
    thus ?thesis using t assms(1) by (subst dfs_math_find_prime.simps) simp
  next
    case False
    hence lt: "x < q" using less(2) by simp
    note s = unat_succ [OF lt]
    have "dfs_math_find_prime (x + 1) = Some q"
      using lt s by (intro less(1) less(3)) (auto simp: word_less_nat_alt word_le_nat_alt)
    thus ?thesis using t lt less(3) by (subst dfs_math_find_prime.simps) simp
  qed
qed

text \<open>When there is a prime at or above \<open>x\<close> in the range where the test is exact, the search returns
  the least such prime.\<close>

theorem find_prime_least_prime:
  assumes "\<exists>q. x \<le> q \<and> prime_number (unat q) \<and> unat q < (2 ^ 32 - 1) * (2 ^ 32 - 1)"
  shows "\<exists>q. dfs_math_find_prime x = Some q \<and> x \<le> q \<and> prime_number (unat q) \<and>
             (\<forall>y. x \<le> y \<and> y < q \<longrightarrow> \<not> prime_number (unat y))"
proof -
  let ?P = "\<lambda>q. x \<le> q \<and> prime_number (unat q)"
  obtain p where p: "?P p" "unat p < (2 ^ 32 - 1) * (2 ^ 32 - 1)" using assms by blast
  define q where "q = (LEAST q. ?P q)"
  have q: "?P q" "q \<le> p" unfolding q_def using LeastI [of ?P p] Least_le [of ?P p] p(1) by simp_all
  have least: "\<not> prime_number (unat y)" if "x \<le> y" "y < q" for y
    using that not_less_Least [of y ?P] by (auto simp: q_def)
  moreover have "unat q < (2 ^ 32 - 1) * (2 ^ 32 - 1)"
    using p(2) q(2) by (simp add: word_le_nat_alt)
  ultimately show ?thesis
    using q(1) find_prime_least [of q x] by blast
qed

lemma prime_number_5: "prime_number 5"
proof -
  have "d = 1 \<or> d = 5" if "d dvd 5" for d :: nat
  proof -
    have "d \<le> 5" using that by (simp add: dvd_imp_le)
    hence "d \<in> {0, 1, 2, 3, 4, 5}" by auto
    thus ?thesis using that by auto
  qed
  thus ?thesis by (simp add: prime_number_def)
qed

theorem find_prime_least_prime_witness:
  "\<exists>q. dfs_math_find_prime 4 = Some q \<and> 4 \<le> q \<and> prime_number (unat q)"
  using find_prime_least_prime [of 4] prime_number_5 by (force intro: exI [of _ 5])

end
