(* ===== verification/Dfs_String.thy ===== *)
theory Dfs_String
  imports Dfs_Prelude
begin

text \<open>
  The comparison, search and number parsing routines of \<^verbatim>\<open>src/src/core/dfs_string.cpp\<close>. A pointer into
  a character array is the list of the bytes from there to the end of the array, so that \<^verbatim>\<open>p++\<close> drops
  an element and a read behind the end has no result (\<^term>\<open>None\<close>). A routine that returns a pointer
  returns the list that starts there, or \<^term>\<open>None\<close> for the null pointer, inside the \<open>option\<close> of
  undefined behaviour. Characters are the numbers of their ASCII codes.
\<close>

unbundle bit_operations_syntax

section \<open>Case\<close>

definition string_xxctolower :: "u8 \<Rightarrow> u8" where
  "string_xxctolower c = (if 0x41 \<le> c \<and> c \<le> 0x5a then c OR 0x20 else c)"

definition string_xxctoupper :: "u8 \<Rightarrow> u8" where
  "string_xxctoupper c = (if 0x61 \<le> c \<and> c \<le> 0x7a then c AND NOT 0x20 else c)"

fun string_xxstrtolower :: "u8 list \<Rightarrow> nat \<Rightarrow> u8 list option" where
  "string_xxstrtolower src 0 = Some []"
| "string_xxstrtolower [] (Suc n) = None"
| "string_xxstrtolower (c # src) (Suc n) =
     do { ds \<leftarrow> string_xxstrtolower src n; Some (string_xxctolower c # ds) }"

section \<open>Skipping and searching a character\<close>

text \<open>The scan of \<open>chars\<close> starts again after every character that is skipped.\<close>

function strskip_loop :: "u8 list \<Rightarrow> u8 list \<Rightarrow> u8 list \<Rightarrow> u8 list option" where
  "strskip_loop chars [] p = Some p"
| "strskip_loop chars (c # pstart) [] = None"
| "strskip_loop chars (c # pstart) [ch] = (if ch = c then None else strskip_loop chars pstart [ch])"
| "strskip_loop chars (c # pstart) (ch # ch' # p) =
     (if ch = c then strskip_loop chars chars (ch' # p) else strskip_loop chars pstart (ch # ch' # p))"
  by pat_completeness auto
termination
  by (relation "measures [\<lambda>(chars, pstart, p). length p, \<lambda>(chars, pstart, p). length pstart]") auto

definition string_strskip_chars :: "u8 list option \<Rightarrow> u8 list \<Rightarrow> u8 list option option" where
  "string_strskip_chars p chars =
     (case p of
        None \<Rightarrow> Some None
      | Some p \<Rightarrow> do { ch \<leftarrow> rd p 0; q \<leftarrow> strskip_loop chars chars p; Some (Some q) })"

fun string_xxstrlchr :: "u8 list \<Rightarrow> u8 \<Rightarrow> u8 list option" where
  "string_xxstrlchr [] c = None"
| "string_xxstrlchr (x # p) c = (if x = c then Some (x # p) else string_xxstrlchr p c)"

section \<open>Comparison\<close>

fun string_xxstrncasecmp :: "u8 list \<Rightarrow> u8 list \<Rightarrow> nat \<Rightarrow> int option" where
  "string_xxstrncasecmp s1 s2 0 = Some 0"
| "string_xxstrncasecmp (a # s1) (b # s2) (Suc n) =
     (let c1 = string_xxctolower a; c2 = string_xxctolower b in
      if c1 = c2 then (if c1 \<noteq> 0 then string_xxstrncasecmp s1 s2 n else Some 0)
      else Some (uint c1 - uint c2))"
| "string_xxstrncasecmp _ _ (Suc n) = None"

fun string_xxstrcasecmp :: "u8 list \<Rightarrow> u8 list \<Rightarrow> int option" where
  "string_xxstrcasecmp (a # s1) (b # s2) =
     (let c1 = string_xxctolower a; c2 = string_xxctolower b in
      if c1 = c2 then (if c1 \<noteq> 0 then string_xxstrcasecmp s1 s2 else Some 0)
      else Some (uint c1 - uint c2))"
| "string_xxstrcasecmp _ _ = None"

text \<open>\<^verbatim>\<open>strncmp\<close> of the C library, which the search routines call.\<close>

fun string_strncmp :: "u8 list \<Rightarrow> u8 list \<Rightarrow> nat \<Rightarrow> int option" where
  "string_strncmp s1 s2 0 = Some 0"
| "string_strncmp (a # s1) (b # s2) (Suc n) =
     (if a = b then (if a \<noteq> 0 then string_strncmp s1 s2 n else Some 0) else Some (uint a - uint b))"
| "string_strncmp _ _ (Suc n) = None"

fun string_xxstrnrcmp :: "u8 list \<Rightarrow> u8 list \<Rightarrow> nat \<Rightarrow> int option" where
  "string_xxstrnrcmp s1 s2 0 = Some 0"
| "string_xxstrnrcmp s1 s2 (Suc n) =
     do { a \<leftarrow> rd s1 n; b \<leftarrow> rd s2 n;
          if a \<noteq> b then Some (uint a - uint b) else string_xxstrnrcmp s1 s2 n }"

definition casercmp_upper :: "u8 \<Rightarrow> u8" where
  "casercmp_upper c = (if 0x61 \<le> c \<and> c \<le> 0x7a then c - 0x20 else c)"

fun string_xxstrncasercmp :: "u8 list \<Rightarrow> u8 list \<Rightarrow> nat \<Rightarrow> int option" where
  "string_xxstrncasercmp s1 s2 0 = Some 0"
| "string_xxstrncasercmp s1 s2 (Suc n) =
     do { a \<leftarrow> rd s1 n; b \<leftarrow> rd s2 n;
          let c1 = casercmp_upper a; c2 = casercmp_upper b in
          if c1 \<noteq> c2 then Some (uint c1 - uint c2) else string_xxstrncasercmp s1 s2 n }"

section \<open>Searching a substring\<close>

fun strnstr_loop :: "u8 \<Rightarrow> u8 list \<Rightarrow> nat \<Rightarrow> u8 list \<Rightarrow> nat \<Rightarrow> u8 list option option" where
  "strnstr_loop c2 s2 n s1 0 = Some None"
| "strnstr_loop c2 s2 n [] (Suc len) = None"
| "strnstr_loop c2 s2 n (c1 # s1) (Suc len) =
     (if c1 = 0 then Some None
      else if c1 \<noteq> c2 then strnstr_loop c2 s2 n s1 len
      else if n > len then Some None
      else do { d \<leftarrow> string_strncmp s1 s2 n;
                if d \<noteq> 0 then strnstr_loop c2 s2 n s1 len else Some (Some (c1 # s1)) })"

definition string_xxstrnstr :: "u8 list \<Rightarrow> u8 list \<Rightarrow> nat \<Rightarrow> u8 list option option" where
  "string_xxstrnstr s1 s2 len =
     do { c2 \<leftarrow> rd s2 0; n \<leftarrow> strlen (tl s2); strnstr_loop c2 (tl s2) n s1 len }"

fun strstrn_loop :: "u8 \<Rightarrow> u8 list \<Rightarrow> nat \<Rightarrow> u8 list \<Rightarrow> u8 list option option" where
  "strstrn_loop c2 s2 n [] = None"
| "strstrn_loop c2 s2 n (c1 # s1) =
     (if c1 = 0 then Some None
      else if c1 \<noteq> c2 then strstrn_loop c2 s2 n s1
      else do { d \<leftarrow> string_strncmp s1 s2 n;
                if d \<noteq> 0 then strstrn_loop c2 s2 n s1 else Some (Some (c1 # s1)) })"

definition string_xxstrstrn :: "u8 list \<Rightarrow> u8 list \<Rightarrow> nat \<Rightarrow> u8 list option option" where
  "string_xxstrstrn s1 s2 n = do { c2 \<leftarrow> rd s2 0; strstrn_loop c2 (tl s2) n s1 }"

text \<open>The case-insensitive searches compare 32-bit characters; the first character of a \<^verbatim>\<open>char *\<close> needle
  is sign extended.\<close>

definition lower32 :: "u32 \<Rightarrow> u32" where
  "lower32 c = (if 0x41 \<le> c \<and> c \<le> 0x5a then c OR 0x20 else c)"

fun strcasestrn_loop :: "u32 \<Rightarrow> u8 list \<Rightarrow> u64 \<Rightarrow> u8 list \<Rightarrow> u8 list option option" where
  "strcasestrn_loop c2 s2 n [] = None"
| "strcasestrn_loop c2 s2 n (c1 # s1) =
     (if c1 = 0 then Some None
      else if lower32 (ucast c1) \<noteq> c2 then strcasestrn_loop c2 s2 n s1
      else do { d \<leftarrow> string_xxstrncasecmp s1 s2 (unat (n - 1));
                if d \<noteq> 0 then strcasestrn_loop c2 s2 n s1 else Some (Some (c1 # s1)) })"

definition string_xxstrcasestrn :: "u8 list \<Rightarrow> u8 list \<Rightarrow> u64 \<Rightarrow> u8 list option option" where
  "string_xxstrcasestrn s1 s2 n =
     do { c2 \<leftarrow> rd s2 0; strcasestrn_loop (lower32 (scast c2)) (tl s2) n s1 }"

text \<open>\<open>r\<close> is the distance \<^verbatim>\<open>last - s1\<close> after \<^verbatim>\<open>last -= n\<close>; \<open>len\<close> is \<^verbatim>\<open>last - s1\<close> at the call.\<close>

fun strlcasestrn_loop :: "u32 \<Rightarrow> u8 list \<Rightarrow> nat \<Rightarrow> int \<Rightarrow> u8 list \<Rightarrow> u8 list option option" where
  "strlcasestrn_loop c2 s2 n r [] = (if r \<le> 0 then Some None else None)"
| "strlcasestrn_loop c2 s2 n r (c1 # s1) =
     (if r \<le> 0 then Some None
      else if lower32 (ucast c1) \<noteq> c2 then strlcasestrn_loop c2 s2 n (r - 1) s1
      else do { d \<leftarrow> string_xxstrncasecmp s1 s2 n;
                if d \<noteq> 0 then strlcasestrn_loop c2 s2 n (r - 1) s1 else Some (Some (c1 # s1)) })"

definition string_xxstrlcasestrn :: "u8 list \<Rightarrow> nat \<Rightarrow> u8 list \<Rightarrow> nat \<Rightarrow> u8 list option option" where
  "string_xxstrlcasestrn s1 len s2 n =
     do { c2 \<leftarrow> rd s2 0; strlcasestrn_loop (lower32 (ucast c2)) (tl s2) n (int len - int n) s1 }"

fun strlstrn_loop :: "u32 \<Rightarrow> u8 list \<Rightarrow> nat \<Rightarrow> int \<Rightarrow> u8 list \<Rightarrow> u8 list option option" where
  "strlstrn_loop c2 s2 n r [] = (if r \<le> 0 then Some None else None)"
| "strlstrn_loop c2 s2 n r (c1 # s1) =
     (if r \<le> 0 then Some None
      else if lower32 (ucast c1) \<noteq> c2 then strlstrn_loop c2 s2 n (r - 1) s1
      else do { d \<leftarrow> string_strncmp s1 s2 n;
                if d \<noteq> 0 then strlstrn_loop c2 s2 n (r - 1) s1 else Some (Some (c1 # s1)) })"

definition string_xxstrlstrn :: "u8 list \<Rightarrow> nat \<Rightarrow> u8 list \<Rightarrow> nat \<Rightarrow> u8 list option option" where
  "string_xxstrlstrn s1 len s2 n =
     do { c2 \<leftarrow> rd s2 0; strlstrn_loop (lower32 (ucast c2)) (tl s2) n (int len - int n) s1 }"

section \<open>Numbers\<close>

definition is_digit :: "u8 \<Rightarrow> bool" where
  "is_digit c \<longleftrightarrow> 0x30 \<le> c \<and> c \<le> 0x39"

text \<open>The loop of the signed routines, over the check of the type of \<^verbatim>\<open>value\<close>; it stops at the first
  character that is not a digit.\<close>

fun strtoi_loop :: "(int \<Rightarrow> int option) \<Rightarrow> u8 list \<Rightarrow> nat \<Rightarrow> int \<Rightarrow> int option" where
  "strtoi_loop chk line 0 value = Some value"
| "strtoi_loop chk [] (Suc n) value = None"
| "strtoi_loop chk (c # line) (Suc n) value =
     (if \<not> is_digit c then Some value
      else do { v \<leftarrow> chk (value * 10); v \<leftarrow> chk (v + uint (c - 0x30)); strtoi_loop chk line n v })"

definition strto_signed :: "(u8 list \<Rightarrow> nat \<Rightarrow> int \<Rightarrow> int option) \<Rightarrow> u8 list \<Rightarrow> nat \<Rightarrow> int option" where
  "strto_signed loop line n =
     (if n = 0 then Some 0
      else do { c \<leftarrow> rd line 0;
                let negflag = (c = 0x2d);
                value \<leftarrow> loop (if negflag then tl line else line) n 0;
                Some (if negflag then - value else value) })"

definition string_xxstrtoi :: "u8 list \<Rightarrow> nat \<Rightarrow> int option" where
  "string_xxstrtoi = strto_signed (strtoi_loop chk_int32)"

definition string_xxstrtossize :: "u8 list \<Rightarrow> nat \<Rightarrow> int option" where
  "string_xxstrtossize = strto_signed (strtoi_loop chk_int64)"

fun strhextoi_loop :: "u8 list \<Rightarrow> nat \<Rightarrow> int \<Rightarrow> int option" where
  "strhextoi_loop line 0 value = Some value"
| "strhextoi_loop [] (Suc n) value = None"
| "strhextoi_loop (ch # line) (Suc n) value =
     (if is_digit ch then
        do { v \<leftarrow> chk_int32 (value * 16); v \<leftarrow> chk_int32 (v + uint (ch - 0x30)); strhextoi_loop line n v }
      else
        let c = ch OR 0x20 in
        if 0x61 \<le> c \<and> c \<le> 0x66 then
          do { v \<leftarrow> chk_int32 (value * 16); v \<leftarrow> chk_int32 (v + uint (c - 0x61 + 10)); strhextoi_loop line n v }
        else Some value)"

definition string_xxstrhextoi :: "u8 list \<Rightarrow> nat \<Rightarrow> int option" where
  "string_xxstrhextoi = strto_signed strhextoi_loop"

text \<open>The loop of the unsigned routines, on words that wrap; any other character is an error.\<close>

fun strtou_loop :: "u8 list \<Rightarrow> nat \<Rightarrow> 'a::len word \<Rightarrow> 'a word option" where
  "strtou_loop line 0 value = Some value"
| "strtou_loop [] (Suc n) value = None"
| "strtou_loop (c # line) (Suc n) value =
     (if \<not> is_digit c then Some (word_of_int NGX_ERROR)
      else strtou_loop line n (value * 10 + ucast (c - 0x30)))"

definition string_xxstrtoui :: "u8 list \<Rightarrow> nat \<Rightarrow> u32 option" where
  "string_xxstrtoui line n = (if n = 0 then Some (word_of_int NGX_ERROR) else strtou_loop line n 0)"

definition string_xxstrtosize :: "u8 list \<Rightarrow> nat \<Rightarrow> u64 option" where
  "string_xxstrtosize line n = (if n = 0 then Some (word_of_int NGX_ERROR) else strtou_loop line n 0)"

fun strtotime_loop :: "u8 list \<Rightarrow> nat \<Rightarrow> int \<Rightarrow> int option" where
  "strtotime_loop line 0 value = Some value"
| "strtotime_loop [] (Suc n) value = None"
| "strtotime_loop (c # line) (Suc n) value =
     (if \<not> is_digit c then Some NGX_ERROR
      else do { v \<leftarrow> chk_int64 (value * 10); v \<leftarrow> chk_int64 (v + uint (c - 0x30)); strtotime_loop line n v })"

definition string_xxstrtotime :: "u8 list \<Rightarrow> nat \<Rightarrow> int option" where
  "string_xxstrtotime line n = (if n = 0 then Some NGX_ERROR else strtotime_loop line n 0)"

definition hex_digits :: "u8 list" where
  "hex_digits = [0x30, 0x31, 0x32, 0x33, 0x34, 0x35, 0x36, 0x37, 0x38, 0x39, 0x61, 0x62, 0x63, 0x64, 0x65, 0x66]"

fun string_xxstrtohex :: "u8 list \<Rightarrow> nat \<Rightarrow> u8 list option" where
  "string_xxstrtohex src 0 = Some []"
| "string_xxstrtohex [] (Suc len) = None"
| "string_xxstrtohex (c # src) (Suc len) =
     do { dst \<leftarrow> string_xxstrtohex src len;
          Some (hex_digits ! unat (drop_bit 4 c) # hex_digits ! unat (c AND 0xf) # dst) }"

section \<open>Specifications\<close>

text \<open>The C string at a pointer, where a string occurs in another, and the value of a list of decimal digits.\<close>

abbreviation cstr :: "u8 list \<Rightarrow> u8 list" where
  "cstr s \<equiv> takeWhile (\<lambda>c. c \<noteq> 0) s"

definition occurs_at :: "u8 list \<Rightarrow> u8 list \<Rightarrow> nat \<Rightarrow> bool" where
  "occurs_at needle hay i \<longleftrightarrow> take (length needle) (drop i hay) = needle"

definition decval :: "u8 list \<Rightarrow> nat" where
  "decval ds = foldl (\<lambda>v c. v * 10 + unat (c - 0x30)) 0 ds"

section \<open>Skipping is dropWhile\<close>

lemma strskip_loop_dropWhile:
  assumes "hd p \<in> set chars \<longleftrightarrow> hd p \<in> set pstart" "p \<noteq> []" "dropWhile (\<lambda>c. c \<in> set chars) p \<noteq> []"
  shows "strskip_loop chars pstart p = Some (dropWhile (\<lambda>c. c \<in> set chars) p)"
  using assms
proof (induction chars pstart p rule: strskip_loop.induct)
  case (1 chars p)
  thus ?case by (cases p) auto
qed (auto split: if_splits)

section \<open>The order of the case-insensitive comparison\<close>

lemma uint_diff: "uint (x :: u8) = uint y \<longleftrightarrow> x = y" "uint (x :: u8) < uint y \<longleftrightarrow> x < y"
    "uint x = 0 \<longleftrightarrow> x = 0" "0 < uint x \<longleftrightarrow> x \<noteq> 0"
  using uint_lt_0 [of x] by (auto simp: word_uint_eq_iff word_less_def order_less_le)

lemma ctolower_0 [simp]: "string_xxctolower c = 0 \<longleftrightarrow> c = 0"
  by (auto simp: string_xxctolower_def or_eq_0_iff)

lemma ctolower_zero [simp]: "string_xxctolower 0 = 0"
  by simp

lemma strcasecmp_cstr:
  "0 \<in> set s1 \<Longrightarrow> 0 \<in> set s2 \<Longrightarrow>
   \<exists>d. string_xxstrcasecmp s1 s2 = Some d \<and>
       (d = 0 \<longleftrightarrow> map string_xxctolower (cstr s1) = map string_xxctolower (cstr s2)) \<and>
       (d < 0 \<longleftrightarrow> ord_class.lexordp (map string_xxctolower (cstr s1)) (map string_xxctolower (cstr s2)))"
proof (induction s1 s2 rule: string_xxstrcasecmp.induct)
  case (1 a s1 b s2)
  let ?a = "string_xxctolower a" and ?b = "string_xxctolower b"
  show ?case
  proof (cases "?a = ?b")
    case True
    hence "a = 0 \<longleftrightarrow> b = 0" by (metis ctolower_0)
    thus ?thesis using True 1 by (cases "a = 0") auto
  next
    case False
    hence "\<not> (a = 0 \<and> b = 0)" by auto
    moreover have "?a = 0 \<longleftrightarrow> a = 0" "?b = 0 \<longleftrightarrow> b = 0" by simp_all
    ultimately show ?thesis
      using False by (cases "a = 0"; cases "b = 0") (auto simp: uint_diff word_gt_0)
  qed
qed auto

section \<open>The search finds the first occurrence\<close>

lemma strncmp_needle:
  "0 \<in> set s1 \<or> length needle \<le> length s1 \<Longrightarrow> 0 \<notin> set needle \<Longrightarrow>
   \<exists>d. string_strncmp s1 (needle @ rest) (length needle) = Some d \<and>
       (d = 0 \<longleftrightarrow> take (length needle) (cstr s1) = needle)"
proof (induction needle arbitrary: s1)
  case (Cons b needle)
  then obtain a s where s1: "s1 = a # s" by (cases s1) auto
  show ?case
  proof (cases "a = b")
    case True
    thus ?thesis using Cons s1 by auto
  next
    case False
    thus ?thesis using s1 by (auto simp: word_uint_eq_iff)
  qed
qed simp

lemma strnstr_loop_first:
  assumes "0 \<in> set s1 \<or> len \<le> length s1" "0 \<notin> set (c2 # needle)"
  shows "(\<exists>i. strnstr_loop c2 (needle @ rest) (length needle) s1 len = Some (Some (drop i s1)) \<and>
              occurs_at (c2 # needle) (take len (cstr s1)) i \<and>
              (\<forall>j<i. \<not> occurs_at (c2 # needle) (take len (cstr s1)) j)) \<or>
         (strnstr_loop c2 (needle @ rest) (length needle) s1 len = Some None \<and>
              (\<forall>i. \<not> occurs_at (c2 # needle) (take len (cstr s1)) i))"
  using assms(1)
proof (induction s1 arbitrary: len)
  case Nil
  thus ?case by (cases len) (auto simp: occurs_at_def)
next
  case (Cons c1 s1)
  show ?case
  proof (cases len)
    case (Suc m)
    let ?hay = "take m (cstr s1)"
    have IH: "0 \<in> set s1 \<or> m \<le> length s1" if "c1 \<noteq> 0" using Cons(2) Suc that by auto
    have later: "occurs_at (c2 # needle) (c1 # ?hay) (Suc i) \<longleftrightarrow> occurs_at (c2 # needle) ?hay i" for i
      by (simp add: occurs_at_def)
    have now: "occurs_at (c2 # needle) (c1 # ?hay) 0 \<longleftrightarrow> c1 = c2 \<and> take (length needle) ?hay = needle"
      by (auto simp: occurs_at_def)
    let ?loop = "strnstr_loop c2 (needle @ rest) (length needle)"
    have cont: "?thesis" if nz: "c1 \<noteq> 0" and step: "?loop (c1 # s1) len = ?loop s1 m"
      and no: "\<not> occurs_at (c2 # needle) (c1 # ?hay) 0"
    proof -
      have hay: "take len (cstr (c1 # s1)) = c1 # ?hay" using nz Suc by simp
      from Cons.IH [OF IH [OF nz]] show ?thesis
      proof (elim disjE exE conjE)
        fix i assume i: "?loop s1 m = Some (Some (drop i s1))" "occurs_at (c2 # needle) ?hay i"
          "\<forall>j<i. \<not> occurs_at (c2 # needle) ?hay j"
        show ?thesis unfolding hay step
          by (intro disjI1 exI [of _ "Suc i"]) (use i no in \<open>auto simp: later less_Suc_eq_0_disj\<close>)
      next
        assume n: "?loop s1 m = Some None" "\<forall>i. \<not> occurs_at (c2 # needle) ?hay i"
        have "\<not> occurs_at (c2 # needle) (c1 # ?hay) i" for i using n no later by (cases i) auto
        thus ?thesis unfolding hay step using n by simp
      qed
    qed
    consider "c1 = 0" | "c1 \<noteq> 0" "c1 \<noteq> c2" | "c1 = c2" "c1 \<noteq> 0" "m < length needle"
      | "c1 = c2" "c1 \<noteq> 0" "length needle \<le> m" by linarith
    thus ?thesis
    proof cases
      case 1
      thus ?thesis using Suc by (auto simp: occurs_at_def)
    next
      case 2
      thus ?thesis using cont now Suc by simp
    next
      case 3
      hence "\<not> occurs_at (c2 # needle) (c1 # ?hay) i" for i
        by (auto simp: occurs_at_def dest!: arg_cong [of _ _ length])
      thus ?thesis using 3 Suc by simp
    next
      case 4
      then obtain d where d: "string_strncmp s1 (needle @ rest) (length needle) = Some d"
        "d = 0 \<longleftrightarrow> take (length needle) (cstr s1) = needle"
        using strncmp_needle [of s1 needle rest] IH assms(2) by auto
      have occ: "occurs_at (c2 # needle) (c1 # ?hay) 0 \<longleftrightarrow> d = 0"
        using now d(2) 4 by (simp add: min_def)
      show ?thesis
      proof (cases "d = 0")
        case True
        thus ?thesis using 4 d Suc occ by (intro disjI1 exI [of _ 0]) simp
      next
        case False
        thus ?thesis using 4 d Suc occ cont by simp
      qed
    qed
  qed (auto simp: occurs_at_def)
qed


section \<open>Values of digit strings\<close>

lemma foldl_dec_ge: "(v :: nat) \<le> foldl (\<lambda>v c. v * 10 + unat (c - 0x30 :: u8)) v ds"
proof (induction ds arbitrary: v)
  case (Cons c ds)
  show ?case using Cons [of "v * 10 + unat (c - 0x30)"] by simp
qed simp

lemma strtou_loop_decval:
  assumes "list_all is_digit ds"
  shows "strtou_loop (ds @ rest) (length ds) (of_nat v) =
         Some (of_nat (foldl (\<lambda>v c. v * 10 + unat (c - 0x30)) v ds) :: 'a::len word)"
  using assms
proof (induction ds arbitrary: v)
  case (Cons c ds)
  have "(of_nat v * 10 + ucast (c - 0x30) :: 'a word) = of_nat (v * 10 + unat (c - 0x30))"
    by simp
  thus ?case using Cons(1) [of "v * 10 + unat (c - 0x30)"] Cons(2) by simp
qed simp

lemma strtoi_loop_decval:
  assumes "list_all is_digit ds" "foldl (\<lambda>v c. v * 10 + unat (c - 0x30)) v ds < N"
    and chk: "\<And>k. k < N \<Longrightarrow> chk (int k) = Some (int k)"
    and stop: "n = length ds \<or> length ds < n \<and> (\<exists>c rest'. rest = c # rest' \<and> \<not> is_digit c)"
  shows "strtoi_loop chk (ds @ rest) n (int v) = Some (int (foldl (\<lambda>v c. v * 10 + unat (c - 0x30)) v ds))"
  using assms(1,2,4)
proof (induction ds arbitrary: v n)
  case Nil
  thus ?case by (cases n) auto
next
  case (Cons c ds)
  then obtain m where n: "n = Suc m" by (cases n) auto
  let ?v = "v * 10 + unat (c - 0x30)"
  have "?v < N" using Cons(3) foldl_dec_ge [of ?v ds] by simp
  hence "chk (int v * 10) = Some (int v * 10)" "chk (int v * 10 + uint (c - 0x30)) = Some (int ?v)"
    using chk [of "v * 10"] chk [of ?v] by simp_all
  thus ?case using Cons(1) [of ?v m] Cons(2-4) n by simp
qed


text \<open>An empty needle is read past its terminator: the routine takes the terminator for the first character and
  measures what follows it.\<close>

lemma strnstr_empty_needle: "string_xxstrnstr s1 [0] len = None"
  by (simp add: string_xxstrnstr_def strlen_def)

text \<open>C37: For a terminated needle of at least one character, the bounded substring search returns a pointer to the
  first occurrence of the needle in the first \<open>len\<close> characters of the C string, and the null pointer exactly
  when there is none; if the haystack is terminated or at least \<open>len\<close> bytes long, it reads no byte outside of
  the haystack and of the needle. For an empty needle it reads past the needle, as the lemma before shows.\<close>

theorem strnstr_first_occurrence:
  assumes "0 \<in> set s1 \<or> len \<le> length s1" "needle \<noteq> []" "0 \<notin> set needle"
  shows "(\<exists>i. string_xxstrnstr s1 (needle @ 0 # rest) len = Some (Some (drop i s1)) \<and>
              occurs_at needle (take len (cstr s1)) i \<and>
              (\<forall>j<i. \<not> occurs_at needle (take len (cstr s1)) j)) \<or>
         (string_xxstrnstr s1 (needle @ 0 # rest) len = Some None \<and>
              (\<forall>i. \<not> occurs_at needle (take len (cstr s1)) i))"
proof -
  obtain c2 ns where n: "needle = c2 # ns" using assms(2) by (cases needle) auto
  have tw: "takeWhile (\<lambda>ch. ch \<noteq> 0) (ns @ 0 # rest) = ns"
    using assms(3) n by (subst takeWhile_append2) auto
  hence "string_xxstrnstr s1 (needle @ 0 # rest) len = strnstr_loop c2 (ns @ 0 # rest) (length ns) s1 len"
    by (simp add: string_xxstrnstr_def n strlen_def)
  thus ?thesis
    using strnstr_loop_first [OF assms(1), of c2 ns "0 # rest"] assms(3) n by simp
qed

theorem strnstr_first_occurrence_witness:
  "(0 \<in> set [1, 2, 1, 2, 3, 0 :: u8] \<or> 5 \<le> length [1, 2, 1, 2, 3, 0 :: u8]) \<and>
   string_xxstrnstr [1, 2, 1, 2, 3, 0] ([1, 2, 3] @ 0 # []) 5 = Some (Some [1, 2, 3, 0])"
proof -
  have "string_xxstrnstr [1, 2, 1, 2, 3, 0] ([1, 2, 3] @ 0 # []) 5 = Some (Some [1, 2, 3, 0])"
    by code_simp
  thus ?thesis
    using strnstr_first_occurrence [of "[1, 2, 1, 2, 3, 0]" 5 "[1, 2, 3]" "[]"] by simp
qed

text \<open>The case-insensitive comparison of two C strings returns 0 exactly when they are equal up to case and
  a negative number exactly when the first one comes first in the lexicographic order of the lower-case
  strings; it reads no byte behind the terminators.\<close>

theorem strcasecmp_order:
  assumes "0 \<in> set s1" "0 \<in> set s2"
  shows "\<exists>d. string_xxstrcasecmp s1 s2 = Some d \<and>
             (d = 0 \<longleftrightarrow> map string_xxctolower (cstr s1) = map string_xxctolower (cstr s2)) \<and>
             (d < 0 \<longleftrightarrow> ord_class.lexordp (map string_xxctolower (cstr s1)) (map string_xxctolower (cstr s2)))"
  by (rule strcasecmp_cstr [OF assms])

theorem strcasecmp_order_witness: "\<exists>d. string_xxstrcasecmp [0x41, 0x62, 0] [0x61, 0x63, 0] = Some d \<and> d < 0"
proof -
  have "string_xxstrcasecmp [0x41, 0x62, 0] [0x61, 0x63, 0] = Some (- 1)"
    by (simp add: string_xxctolower_def)
  thus ?thesis using strcasecmp_order [of "[0x41, 0x62, 0]" "[0x61, 0x63, 0]"] by simp
qed

lemma strskip_chars_dropWhile:
  assumes "dropWhile (\<lambda>c. c \<in> set chars) p \<noteq> []"
  shows "string_strskip_chars (Some p) chars = Some (Some (dropWhile (\<lambda>c. c \<in> set chars) p))"
  using assms strskip_loop_dropWhile [of p chars chars] by (cases p) (auto simp: string_strskip_chars_def)

text \<open>The sign character is not counted in \<open>n\<close>: the number after it is read one byte too far.\<close>

lemma strtoi_reads_past_n:
  "string_xxstrtoi [0x2d, 0x35, 0x37] 2 = Some (- 57)" "string_xxstrtoi [0x2d, 0x35] 2 = None"
  by code_simp+

text \<open>\<^verbatim>\<open>string_xxstrcasestrn\<close> with the documented \<open>n\<close>, the length of the needle less one, leaves out the
  last character: it finds \<^verbatim>\<open>abc\<close> in \<^verbatim>\<open>abx\<close>; and \<^verbatim>\<open>string_xxstrlstrn\<close> ignores the case of the first character
  only: it finds \<^verbatim>\<open>Abc\<close> at \<^verbatim>\<open>abc\<close>.\<close>

lemma strcasestrn_skips_last:
  "string_xxstrcasestrn [0x61, 0x62, 0x78, 0] [0x61, 0x62, 0x63, 0] 2 = Some (Some [0x61, 0x62, 0x78, 0])"
  by (simp add: string_xxstrcasestrn_def lower32_def)

lemma strlstrn_mixed_case:
  "string_xxstrlstrn [0x61, 0x62, 0x63] 3 [0x41, 0x62, 0x63, 0] 2 = Some (Some [0x61, 0x62, 0x63])"
  by code_simp

end
