(* ===== verification/Dfs_Codec.thy ===== *)
theory Dfs_Codec
  imports Dfs_String
begin

text \<open>
  The encoders and decoders of \<^verbatim>\<open>src/src/core/dfs_string.cpp\<close>: Base64, UTF-8, URI and HTML escaping. The
  source of an operation is the list of the bytes it is given, its result the list of the bytes it
  writes, so that the length of the list is the distance the destination pointer moves. The escaping loops
  keep their 32-bit counter, which they compare with a 64-bit size; reading past the given bytes is \<open>None\<close>.
  The lemmas show the round trips, the lengths announced by the counting passes, from which size on the
  counter never reaches the end, and where the tables differ from their comments.
\<close>

unbundle bit_operations_syntax

section \<open>Base64\<close>

definition basis64 :: "u8 list" where
  "basis64 = [
    0x41, 0x42, 0x43, 0x44, 0x45, 0x46, 0x47, 0x48, 0x49, 0x4a, 0x4b, 0x4c, 0x4d, 0x4e, 0x4f, 0x50,
    0x51, 0x52, 0x53, 0x54, 0x55, 0x56, 0x57, 0x58, 0x59, 0x5a, 0x61, 0x62, 0x63, 0x64, 0x65, 0x66,
    0x67, 0x68, 0x69, 0x6a, 0x6b, 0x6c, 0x6d, 0x6e, 0x6f, 0x70, 0x71, 0x72, 0x73, 0x74, 0x75, 0x76,
    0x77, 0x78, 0x79, 0x7a, 0x30, 0x31, 0x32, 0x33, 0x34, 0x35, 0x36, 0x37, 0x38, 0x39, 0x2b, 0x2f]"

fun string_base64_encode :: "u8 list \<Rightarrow> u8 list" where
  "string_base64_encode (s0 # s1 # s2 # s) =
     basis64 ! unat (drop_bit 2 s0 AND 0x3f) #
     basis64 ! unat (push_bit 4 (s0 AND 3) OR drop_bit 4 s1) #
     basis64 ! unat (push_bit 2 (s1 AND 0x0f) OR drop_bit 6 s2) #
     basis64 ! unat (s2 AND 0x3f) # string_base64_encode s"
| "string_base64_encode [s0] =
     [basis64 ! unat (drop_bit 2 s0 AND 0x3f), basis64 ! unat (push_bit 4 (s0 AND 3)), 0x3d, 0x3d]"
| "string_base64_encode [s0, s1] =
     [basis64 ! unat (drop_bit 2 s0 AND 0x3f), basis64 ! unat (push_bit 4 (s0 AND 3) OR drop_bit 4 s1),
      basis64 ! unat (push_bit 2 (s1 AND 0x0f)), 0x3d]"
| "string_base64_encode [] = []"

definition basis64_values :: "u8 list" where
  "basis64_values = [
    77, 77, 77, 77, 77, 77, 77, 77, 77, 77, 77, 77, 77, 77, 77, 77,
    77, 77, 77, 77, 77, 77, 77, 77, 77, 77, 77, 77, 77, 77, 77, 77,
    77, 77, 77, 77, 77, 77, 77, 77, 77, 77, 77, 62, 77, 77, 77, 63,
    52, 53, 54, 55, 56, 57, 58, 59, 60, 61, 77, 77, 77, 77, 77, 77,
    77, 0, 1, 2, 3, 4, 5, 6, 7, 8, 9, 10, 11, 12, 13, 14,
    15, 16, 17, 18, 19, 20, 21, 22, 23, 24, 25, 77, 77, 77, 77, 77,
    77, 26, 27, 28, 29, 30, 31, 32, 33, 34, 35, 36, 37, 38, 39, 40,
    41, 42, 43, 44, 45, 46, 47, 48, 49, 50, 51, 77, 77, 77, 77, 77,
    77, 77, 77, 77, 77, 77, 77, 77, 77, 77, 77, 77, 77, 77, 77, 77,
    77, 77, 77, 77, 77, 77, 77, 77, 77, 77, 77, 77, 77, 77, 77, 77,
    77, 77, 77, 77, 77, 77, 77, 77, 77, 77, 77, 77, 77, 77, 77, 77,
    77, 77, 77, 77, 77, 77, 77, 77, 77, 77, 77, 77, 77, 77, 77, 77,
    77, 77, 77, 77, 77, 77, 77, 77, 77, 77, 77, 77, 77, 77, 77, 77,
    77, 77, 77, 77, 77, 77, 77, 77, 77, 77, 77, 77, 77, 77, 77, 77,
    77, 77, 77, 77, 77, 77, 77, 77, 77, 77, 77, 77, 77, 77, 77, 77,
    77, 77, 77, 77, 77, 77, 77, 77, 77, 77, 77, 77, 77, 77, 77, 77]"

definition b64 :: "u8 \<Rightarrow> u8" where
  "b64 c = basis64_values ! unat c"

text \<open>The first loop: the number of characters before the padding, or an error.\<close>

fun base64_scan :: "u8 list \<Rightarrow> nat option" where
  "base64_scan [] = Some 0"
| "base64_scan (c # s) =
     (if c = 0x3d then Some 0 else if b64 c = 77 then None else map_option Suc (base64_scan s))"

fun base64_decode_loop :: "u8 list \<Rightarrow> u8 list" where
  "base64_decode_loop (s0 # s1 # s2 # s3 # s) =
     (push_bit 2 (b64 s0) OR drop_bit 4 (b64 s1)) # (push_bit 4 (b64 s1) OR drop_bit 2 (b64 s2)) #
     (push_bit 6 (b64 s2) OR b64 s3) # base64_decode_loop s"
| "base64_decode_loop [s0, s1, s2] =
     [push_bit 2 (b64 s0) OR drop_bit 4 (b64 s1), push_bit 4 (b64 s1) OR drop_bit 2 (b64 s2)]"
| "base64_decode_loop [s0, s1] = [push_bit 2 (b64 s0) OR drop_bit 4 (b64 s1)]"
| "base64_decode_loop _ = []"

text \<open>The return code and, on success, what is written to the destination.\<close>

definition string_base64_decode :: "u8 list \<Rightarrow> int \<times> u8 list option" where
  "string_base64_decode src =
     (case base64_scan src of
        None \<Rightarrow> (NGX_ERROR, None)
      | Some len \<Rightarrow>
          if len mod 4 = 1 then (NGX_ERROR, None)
          else (NGX_OK, Some (base64_decode_loop (take len src))))"

section \<open>UTF-8\<close>

text \<open>The loop over the continuation bytes: the character, or an error, and the pointer behind.\<close>

fun utf8_cont :: "nat \<Rightarrow> u32 \<Rightarrow> u8 list \<Rightarrow> (u32 option \<times> u8 list) option" where
  "utf8_cont 0 u p = Some (Some u, p)"
| "utf8_cont (Suc len) u [] = None"
| "utf8_cont (Suc len) u (i # p) =
     (if i < 0x80 then Some (None, p) else utf8_cont len (push_bit 6 u OR (ucast i AND 0x3f)) p)"

definition utf8_lead :: "u8 \<Rightarrow> (u32 \<times> u32 \<times> nat) option" where
  "utf8_lead c =
     (let u = ucast c :: u32 in
      if u > 0xf0 then Some (u AND 0x07, 0xffff, 3)
      else if u > 0xe0 then Some (u AND 0x0f, 0x7ff, 2)
      else if u > 0xc0 then Some (u AND 0x1f, 0x7f, 1)
      else None)"

definition string_utf8_decode :: "u8 list \<Rightarrow> u64 \<Rightarrow> (u32 \<times> u8 list) option" where
  "string_utf8_decode p n =
     do { c \<leftarrow> rd p 0;
          case utf8_lead c of
            None \<Rightarrow> Some (0xffffffff, tl p)
          | Some (u, valid, len) \<Rightarrow>
              if n - 1 < of_nat len then Some (0xfffffffe, p)
              else do { (r, p) \<leftarrow> utf8_cont len u (tl p);
                        case r of
                          None \<Rightarrow> Some (0xffffffff, p)
                        | Some u \<Rightarrow> Some (if u > valid then u else 0xffffffff, p) } }"

lemma utf8_cont_length: "utf8_cont len u p = Some (r, q) \<Longrightarrow> length q \<le> length p"
  by (induction len u p rule: utf8_cont.induct) (auto split: if_splits)

lemma utf8_decode_advances:
  "string_utf8_decode p n = Some (u, q) \<Longrightarrow> \<not> u > 0x10ffff \<Longrightarrow> length q < length p"
  by (cases p) (auto simp: string_utf8_decode_def Let_def split: option.splits if_splits bind_splits dest!: utf8_cont_length)

text \<open>\<open>rest\<close> is the distance \<^verbatim>\<open>last - p\<close>; the routine passes its own \<open>n\<close> on to every call of the decoder.\<close>

function utf8_length_loop :: "u64 \<Rightarrow> u8 list \<Rightarrow> int \<Rightarrow> nat \<Rightarrow> nat option" where
  "utf8_length_loop n p rest len =
     (if rest \<le> 0 then Some len
      else case p of
        [] \<Rightarrow> None
      | c # q \<Rightarrow>
          if c < 0x80 then utf8_length_loop n q (rest - 1) (len + 1)
          else case string_utf8_decode p n of
            None \<Rightarrow> None
          | Some (u, q) \<Rightarrow>
              if u > 0x10ffff then Some (unat n)
              else utf8_length_loop n q (rest - int (length p - length q)) (len + 1))"
  by pat_completeness auto
termination
  by (relation "measure (\<lambda>(n, p, rest, len). length p)") (auto dest: utf8_decode_advances)

declare utf8_length_loop.simps [simp del]

definition string_utf8_length :: "u8 list \<Rightarrow> u64 \<Rightarrow> nat option" where
  "string_utf8_length p n = utf8_length_loop n p (uint n) 0"

text \<open>The copy: \<open>n\<close> characters at most, of \<open>len\<close> bytes; the result is the C string that is written. Copying a
  sequence reads the byte behind it as well.\<close>

fun utf8_cpystrn_loop :: "nat \<Rightarrow> u8 list \<Rightarrow> u64 \<Rightarrow> u8 list option" where
  "utf8_cpystrn_loop 0 src len = Some []"
| "utf8_cpystrn_loop (Suc n) [] len = None"
| "utf8_cpystrn_loop (Suc n) (c # src) len =
     (if c < 0x80 then
        if c \<noteq> 0 then map_option (\<lambda>d. c # d) (utf8_cpystrn_loop n src (len - 1)) else Some []
      else do { (u, next) \<leftarrow> string_utf8_decode (c # src) len;
                if u > 0x10ffff then Some []
                else if next = [] then None
                else let k = length (c # src) - length next in
                     map_option (\<lambda>d. take k (c # src) @ d) (utf8_cpystrn_loop n next (len - 1 - of_nat k)) })"

definition string_utf8_cpystrn :: "u8 list \<Rightarrow> nat \<Rightarrow> u64 \<Rightarrow> u8 list option" where
  "string_utf8_cpystrn src n len = (if n = 0 then Some [] else utf8_cpystrn_loop (n - 1) src len)"

section \<open>URI escaping\<close>

definition esc_uri :: "u32 list" where
  "esc_uri = [0xffffffff, 0x80000029, 0x00000000, 0x80000000, 0xffffffff, 0xffffffff, 0xffffffff, 0xffffffff]"

definition esc_args :: "u32 list" where
  "esc_args = [0xffffffff, 0x80000829, 0x00000000, 0x80000000, 0xffffffff, 0xffffffff, 0xffffffff, 0xffffffff]"

definition esc_html :: "u32 list" where
  "esc_html = [0xffffffff, 0x000000ad, 0x00000000, 0x80000000, 0xffffffff, 0xffffffff, 0xffffffff, 0xffffffff]"

definition esc_refresh :: "u32 list" where
  "esc_refresh = [0xffffffff, 0x00000085, 0x00000000, 0x80000000, 0xffffffff, 0xffffffff, 0xffffffff, 0xffffffff]"

definition esc_memcached :: "u32 list" where
  "esc_memcached = [0xffffffff, 0x00000021, 0x00000000, 0x00000000, 0x00000000, 0x00000000, 0x00000000, 0x00000000]"

definition escape_map :: "u32 list list" where
  "escape_map = [esc_uri, esc_args, esc_html, esc_refresh, esc_memcached, esc_memcached]"

text \<open>The test \<^verbatim>\<open>escape[*src >> 5] & (1 << (*src & 0x1f))\<close>.\<close>

definition must_escape :: "u32 list \<Rightarrow> u8 \<Rightarrow> bool" where
  "must_escape escape c \<longleftrightarrow> escape ! unat (drop_bit 5 c) AND push_bit (unat (c AND 0x1f)) 1 \<noteq> 0"

text \<open>The counting pass, with a null destination, and the writing pass: \<^verbatim>\<open>for (i = 0; i < size; i++)\<close> with a
  \<^verbatim>\<open>uint32_t\<close> counter \<open>i\<close>, which wraps, and a \<^verbatim>\<open>size_t\<close> bound.\<close>

fun escape_count_loop :: "u32 list \<Rightarrow> u64 \<Rightarrow> u32 \<Rightarrow> u8 list \<Rightarrow> u32 \<Rightarrow> u32 option" where
  "escape_count_loop escape sz i [] n = (if ucast i < sz then None else Some n)"
| "escape_count_loop escape sz i (c # src) n =
     (if ucast i < sz
      then escape_count_loop escape sz (i + 1) src (if must_escape escape c then n + 1 else n)
      else Some n)"

definition string_escape_uri_count :: "u8 list \<Rightarrow> u64 \<Rightarrow> nat \<Rightarrow> u32 option" where
  "string_escape_uri_count src sz type =
     do { escape \<leftarrow> rd escape_map type; escape_count_loop escape sz 0 src 0 }"

text \<open>What one round of the loop writes.\<close>

definition escape_char :: "u32 list \<Rightarrow> u8 \<Rightarrow> u8 list" where
  "escape_char escape c =
     (if must_escape escape c
      then [0x25, hex_digits ! unat (drop_bit 4 c), hex_digits ! unat (c AND 0xf)]
      else [c])"

fun escape_loop :: "u32 list \<Rightarrow> u64 \<Rightarrow> u32 \<Rightarrow> u8 list \<Rightarrow> u8 list option" where
  "escape_loop escape sz i [] = (if ucast i < sz then None else Some [])"
| "escape_loop escape sz i (c # src) =
     (if ucast i < sz
      then map_option (\<lambda>d. escape_char escape c @ d) (escape_loop escape sz (i + 1) src)
      else Some [])"

definition string_escape_uri :: "u8 list \<Rightarrow> u64 \<Rightarrow> nat \<Rightarrow> u8 list option" where
  "string_escape_uri src sz type = do { escape \<leftarrow> rd escape_map type; escape_loop escape sz 0 src }"

datatype unescape_state = sw_usual | sw_quoted | sw_quoted_second

definition DFS_UNESCAPE_URI :: u32 where "DFS_UNESCAPE_URI = 1"
definition DFS_UNESCAPE_REDIRECT :: u32 where "DFS_UNESCAPE_REDIRECT = 2"

text \<open>The loop: \<open>prev\<close> is the character before the current one, which the source reads as \<^verbatim>\<open>*(s - 2)\<close>. The result
  is what is written and what is left of the source.\<close>

fun unescape_loop :: "u32 \<Rightarrow> unescape_state \<Rightarrow> u8 \<Rightarrow> u8 \<Rightarrow> u8 list \<Rightarrow> u8 list \<times> u8 list" where
  "unescape_loop type state decoded prev [] = ([], [])"
| "unescape_loop type sw_usual decoded prev (ch # s) =
     (if ch = 0x3f \<and> type AND (DFS_UNESCAPE_URI OR DFS_UNESCAPE_REDIRECT) \<noteq> 0 then ([ch], s)
      else if ch = 0x25 then unescape_loop type sw_quoted decoded ch s
      else let (d, s) = unescape_loop type sw_usual decoded ch s in (ch # d, s))"
| "unescape_loop type sw_quoted decoded prev (ch # s) =
     (if is_digit ch then unescape_loop type sw_quoted_second (ch - 0x30) ch s
      else
        let c = ch OR 0x20 in
        if 0x61 \<le> c \<and> c \<le> 0x66 then unescape_loop type sw_quoted_second (c - 0x61 + 10) ch s
        else let (d, s) = unescape_loop type sw_usual decoded ch s in (ch # d, s))"
| "unescape_loop type sw_quoted_second decoded prev (raw # s) =
     (let rest = unescape_loop type sw_usual decoded raw s in
      if is_digit raw then
        let ch = push_bit 4 decoded + raw - 0x30 in
        if type AND DFS_UNESCAPE_REDIRECT \<noteq> 0 then
          if 0x25 < ch \<and> ch < 0x7f then (ch # fst rest, snd rest)
          else (0x25 # prev # raw # fst rest, snd rest)
        else (ch # fst rest, snd rest)
      else
        let c = raw OR 0x20 in
        if 0x61 \<le> c \<and> c \<le> 0x66 then
          let ch = push_bit 4 decoded + c - 0x61 + 10 in
          if type AND DFS_UNESCAPE_URI \<noteq> 0 then
            if ch = 0x3f then ([ch], s) else (ch # fst rest, snd rest)
          else if type AND DFS_UNESCAPE_REDIRECT \<noteq> 0 then
            if ch = 0x3f then ([ch], s)
            else if 0x25 < ch \<and> ch < 0x7f then (ch # fst rest, snd rest)
            else (0x25 # prev # raw # fst rest, snd rest)
          else (ch # fst rest, snd rest)
        else rest)"

definition string_unescape_uri :: "u8 list \<Rightarrow> u32 \<Rightarrow> u8 list \<times> u8 list" where
  "string_unescape_uri src type = unescape_loop type sw_usual 0 0 src"

section \<open>HTML escaping\<close>

definition html_char :: "u8 \<Rightarrow> u8 list" where
  "html_char ch =
     (if ch = 0x3c then [0x26, 0x6c, 0x74, 0x3b]
      else if ch = 0x3e then [0x26, 0x67, 0x74, 0x3b]
      else if ch = 0x26 then [0x26, 0x61, 0x6d, 0x70, 0x3b]
      else [ch])"

definition html_extra :: "u8 \<Rightarrow> u32" where
  "html_extra ch = (if ch = 0x3c then 3 else if ch = 0x3e then 3 else if ch = 0x26 then 4 else 0)"

fun html_count_loop :: "u64 \<Rightarrow> u32 \<Rightarrow> u8 list \<Rightarrow> u32 \<Rightarrow> u32 option" where
  "html_count_loop sz i [] len = (if ucast i < sz then None else Some len)"
| "html_count_loop sz i (ch # src) len =
     (if ucast i < sz then html_count_loop sz (i + 1) src (len + html_extra ch) else Some len)"

definition string_escape_html_count :: "u8 list \<Rightarrow> u64 \<Rightarrow> u32 option" where
  "string_escape_html_count src sz = html_count_loop sz 0 src 0"

fun html_loop :: "u64 \<Rightarrow> u32 \<Rightarrow> u8 list \<Rightarrow> u8 list option" where
  "html_loop sz i [] = (if ucast i < sz then None else Some [])"
| "html_loop sz i (ch # src) =
     (if ucast i < sz then map_option (\<lambda>d. html_char ch @ d) (html_loop sz (i + 1) src) else Some [])"

definition string_escape_html :: "u8 list \<Rightarrow> u64 \<Rightarrow> u8 list option" where
  "string_escape_html src sz = html_loop sz 0 src"

section \<open>Specifications\<close>

text \<open>A Base64 text without its padding, and what it decodes to.\<close>

definition b64_body :: "u8 list \<Rightarrow> u8 list \<Rightarrow> bool" where
  "b64_body body src \<longleftrightarrow> (\<forall>c\<in>set body. c \<noteq> 0x3d \<and> b64 c \<noteq> 77) \<and> length body mod 4 \<noteq> 1 \<and> base64_decode_loop body = src"

text \<open>The encoding of a code point by the standard.\<close>

definition utf8_encode :: "u32 \<Rightarrow> u8 list" where
  "utf8_encode cp =
     (if cp < 0x800 then [ucast (0xc0 OR drop_bit 6 cp), ucast (0x80 OR (cp AND 0x3f))]
      else if cp < 0x10000 then
        [ucast (0xe0 OR drop_bit 12 cp), ucast (0x80 OR (drop_bit 6 cp AND 0x3f)), ucast (0x80 OR (cp AND 0x3f))]
      else
        [ucast (0xf0 OR drop_bit 18 cp), ucast (0x80 OR (drop_bit 12 cp AND 0x3f)),
         ucast (0x80 OR (drop_bit 6 cp AND 0x3f)), ucast (0x80 OR (cp AND 0x3f))])"

section \<open>Base64 round trip\<close>

lemma basis64_inverse:
  assumes "i < 64"
  shows "b64 (basis64 ! i) = of_nat i \<and> basis64 ! i \<noteq> 0x3d"
proof -
  have "list_all (\<lambda>i. b64 (basis64 ! i) = of_nat i \<and> basis64 ! i \<noteq> 0x3d) [0..<64]"
    by code_simp
  thus ?thesis using assms by (simp add: list_all_iff)
qed

lemma b64_basis64:
  assumes "x < (64 :: u8)"
  shows "b64 (basis64 ! unat x) = x" "basis64 ! unat x \<noteq> 0x3d" "b64 (basis64 ! unat x) \<noteq> 77"
  using basis64_inverse [of "unat x"] assms by (auto simp: word_less_nat_alt)

lemma u8_masks: "(0x3f :: u8) = mask 6" "(3 :: u8) = mask 2" "(0x0f :: u8) = mask 4"
  by (simp_all add: mask_eq_exp_minus_1)

lemma bit_u8_ge: "8 \<le> n \<Longrightarrow> \<not> bit (x :: u8) n"
  using bit_imp_le_length [of x n] by auto

lemma u8_eqI:
  assumes "bit (x :: u8) 0 = bit y 0" "bit x 1 = bit y 1" "bit x 2 = bit y 2" "bit x 3 = bit y 3"
    "bit x 4 = bit y 4" "bit x 5 = bit y 5" "bit x 6 = bit y 6" "bit x 7 = bit y 7"
  shows "x = y"
proof (rule bit_word_eqI)
  fix n assume "n < LENGTH(8)"
  hence "n = 0 \<or> n = 1 \<or> n = 2 \<or> n = 3 \<or> n = 4 \<or> n = 5 \<or> n = 6 \<or> n = 7" by (simp, arith)
  thus "bit x n = bit y n" using assms by auto
qed

lemma lt64I: "(\<And>n. 6 \<le> n \<Longrightarrow> \<not> bit (x :: u8) n) \<Longrightarrow> x < 64"
proof -
  assume b: "\<And>n. 6 \<le> n \<Longrightarrow> \<not> bit x n"
  have "x = take_bit 6 x" by (rule bit_word_eqI) (metis b bit_take_bit_iff not_le)
  hence "unat x = take_bit 6 (unat x)" by (metis unsigned_take_bit_eq)
  hence "unat x < 64" using take_bit_nat_less_exp [of 6 "unat x"] by simp
  thus ?thesis by (simp add: word_less_nat_alt)
qed

lemma sextets_lt:
  "drop_bit 2 s0 AND 0x3f < (64 :: u8)" "push_bit 4 (s0 AND 3) OR drop_bit 4 s1 < (64 :: u8)"
  "push_bit 2 (s1 AND 0x0f) OR drop_bit 6 s2 < (64 :: u8)" "s2 AND 0x3f < (64 :: u8)"
  "push_bit 4 (s0 AND 3) < (64 :: u8)" "push_bit 2 (s1 AND 0x0f) < (64 :: u8)"
  by (rule lt64I, auto simp: u8_masks bit_simps bit_u8_ge)+

lemma sextets_join:
  fixes s0 s1 s2 :: u8
  shows "push_bit 2 (drop_bit 2 s0 AND 0x3f) OR drop_bit 4 (push_bit 4 (s0 AND 3) OR drop_bit 4 s1) = s0"
    "push_bit 2 (drop_bit 2 s0 AND 0x3f) OR drop_bit 4 (push_bit 4 (s0 AND 3)) = s0"
    "push_bit 4 (push_bit 4 (s0 AND 3) OR drop_bit 4 s1) OR drop_bit 2 (push_bit 2 (s1 AND 0x0f) OR drop_bit 6 s2) = s1"
    "push_bit 4 (push_bit 4 (s0 AND 3) OR drop_bit 4 s1) OR drop_bit 2 (push_bit 2 (s1 AND 0x0f)) = s1"
    "push_bit 6 (push_bit 2 (s1 AND 0x0f) OR drop_bit 6 s2) OR (s2 AND 0x3f) = s2"
  by (rule u8_eqI; simp add: u8_masks bit_simps bit_u8_ge)+

lemma b64_body_quad:
  assumes "x0 < 64" "x1 < 64" "x2 < 64" "x3 < 64"
    and "push_bit 2 x0 OR drop_bit 4 x1 = s0" "push_bit 4 x1 OR drop_bit 2 x2 = s1" "push_bit 6 x2 OR x3 = s2"
    and "b64_body body src"
  shows "b64_body (basis64 ! unat x0 # basis64 ! unat x1 # basis64 ! unat x2 # basis64 ! unat x3 # body) (s0 # s1 # s2 # src)"
  using assms(8) b64_basis64 [OF assms(1)] b64_basis64 [OF assms(2)] b64_basis64 [OF assms(3)] b64_basis64 [OF assms(4)] assms(5-7)
  by (simp add: b64_body_def)

lemma b64_body_one:
  assumes "x0 < 64" "x1 < 64" "push_bit 2 x0 OR drop_bit 4 x1 = s0"
  shows "b64_body [basis64 ! unat x0, basis64 ! unat x1] [s0]"
  using b64_basis64 [OF assms(1)] b64_basis64 [OF assms(2)] assms(3) by (simp add: b64_body_def)

lemma b64_body_two:
  assumes "x0 < 64" "x1 < 64" "x2 < 64" "push_bit 2 x0 OR drop_bit 4 x1 = s0" "push_bit 4 x1 OR drop_bit 2 x2 = s1"
  shows "b64_body [basis64 ! unat x0, basis64 ! unat x1, basis64 ! unat x2] [s0, s1]"
  using b64_basis64 [OF assms(1)] b64_basis64 [OF assms(2)] b64_basis64 [OF assms(3)] assms(4,5) by (simp add: b64_body_def)

lemma base64_encode_body:
  "\<exists>body pad. string_base64_encode src = body @ pad \<and> b64_body body src \<and> (pad = [] \<or> hd pad = 0x3d)"
proof (induction src rule: string_base64_encode.induct)
  case (1 s0 s1 s2 s)
  then obtain body pad where b: "string_base64_encode s = body @ pad" "b64_body body s"
    "pad = [] \<or> hd pad = 0x3d" by blast
  note q = b64_body_quad [OF sextets_lt(1-4) sextets_join(1,3,5) b(2), of s0 s1 s2]
  show ?case
    unfolding string_base64_encode.simps b(1) append_Cons [symmetric] using q b(3) by blast
next
  case (2 s0)
  show ?case
    using b64_body_one [OF sextets_lt(1,5) sextets_join(2), of s0] unfolding string_base64_encode.simps
    by (intro exI [of _ "[basis64 ! unat (drop_bit 2 s0 AND 0x3f), basis64 ! unat (push_bit 4 (s0 AND 3))]"]
        exI [of _ "[0x3d, 0x3d]"] conjI) simp_all
next
  case (3 s0 s1)
  have "b64_body [basis64 ! unat (drop_bit 2 s0 AND 0x3f), basis64 ! unat (push_bit 4 (s0 AND 3) OR drop_bit 4 s1),
      basis64 ! unat (push_bit 2 (s1 AND 0x0f))] [s0, s1]" (is "b64_body ?body _")
    by (rule b64_body_two [OF sextets_lt(1,2,6) sextets_join(1,4)])
  thus ?case unfolding string_base64_encode.simps
    by (intro exI [of _ ?body] exI [of _ "[0x3d]"] conjI) simp_all
next
  case 4
  show ?case by (simp add: b64_body_def)
qed

lemma base64_scan_body:
  "\<forall>c\<in>set body. c \<noteq> 0x3d \<and> b64 c \<noteq> 77 \<Longrightarrow> pad = [] \<or> hd pad = 0x3d \<Longrightarrow>
   base64_scan (body @ pad) = Some (length body)"
  by (induction body) (cases pad; auto)+

lemma length_base64_encode: "length (string_base64_encode src) = 4 * ((length src + 2) div 3)"
proof (induction src rule: string_base64_encode.induct)
  case (1 s0 s1 s2 s)
  have "(5 + length s) div 3 = Suc (Suc (Suc (length s)) div 3)"
    using div_add_self2 [of 3 "Suc (Suc (length s))"] by (simp add: add.commute)
  thus ?case using 1 by simp
qed simp_all

text \<open>C27: Base64 decoding undoes encoding for every byte string, and the encoded text has four characters for
  every three bytes or part of them.\<close>

theorem base64_roundtrip:
  "string_base64_decode (string_base64_encode src) = (NGX_OK, Some src) \<and>
   length (string_base64_encode src) = 4 * ((length src + 2) div 3)"
proof -
  obtain body pad where b: "string_base64_encode src = body @ pad" "b64_body body src" "pad = [] \<or> hd pad = 0x3d"
    using base64_encode_body [of src] by blast
  have "base64_scan (body @ pad) = Some (length body)"
    using b(2,3) by (intro base64_scan_body) (auto simp: b64_body_def)
  thus ?thesis
    using b(2) length_base64_encode [of src] by (simp add: string_base64_decode_def b(1) b64_body_def)
qed


section \<open>The counter of the escaping loops\<close>

text \<open>While fewer than \<open>2 ^ 32\<close> bytes are asked for, the counter is the number of the bytes read and the loops
  visit exactly the first \<open>size\<close> bytes; from there on the counter wraps before it reaches the bound.\<close>

lemma unat_counter: "unat (ucast (i :: u32) :: u64) = unat i"
  using unsigned_less [of i, where 'a = nat] by (simp add: unsigned_ucast_eq take_bit_nat_eq_self)

lemma counter_step:
  assumes "unat (i :: u32) + Suc k = unat (sz :: u64)" "unat sz < 2 ^ 32"
  shows "ucast i < sz" "unat (i + 1) + k = unat sz"
proof -
  show "ucast i < sz" using assms(1) by (simp add: word_less_nat_alt unat_counter)
  have "unat (i + 1) = unat i + 1" using assms unat_add_lem [of i 1] by simp
  thus "unat (i + 1) + k = unat sz" using assms(1) by simp
qed

lemma counter_end: "unat (i :: u32) = unat (sz :: u64) \<Longrightarrow> \<not> ucast i < sz"
  by (simp add: word_less_nat_alt unat_counter)

lemma counter_never_ends: "2 ^ 32 \<le> unat (sz :: u64) \<Longrightarrow> ucast (i :: u32) < sz"
proof -
  have "unat i < 2 ^ 32" using unsigned_less [of i, where 'a = nat] by simp
  thus "2 ^ 32 \<le> unat sz \<Longrightarrow> ucast i < sz" by (simp add: word_less_nat_alt unat_counter)
qed

lemma counted_loops:
  assumes "unat i + k = unat sz" "unat sz < 2 ^ 32" "k \<le> length src"
  shows "escape_loop escape sz i src = Some (concat (map (escape_char escape) (take k src)))"
    "escape_count_loop escape sz i src n = Some (n + of_nat (length (filter (must_escape escape) (take k src))))"
    "html_loop sz i src = Some (concat (map html_char (take k src)))"
    "html_count_loop sz i src m = Some (m + sum_list (map html_extra (take k src)))"
  using assms
proof (induction src arbitrary: i k n m)
  case Nil
  case 1 then show ?case using counter_end [of i sz] by simp
  case 2 then show ?case using counter_end [of i sz] by simp
  case 3 then show ?case using counter_end [of i sz] by simp
  case 4 then show ?case using counter_end [of i sz] by simp
next
  case (Cons c src)
  {
    case 1
    then show ?case
      using counter_end [of i sz] Cons(1) [of "i + 1" "k - 1"] counter_step [of i "k - 1" sz] by (cases k) auto
  next
    case 2
    then show ?case
      using counter_end [of i sz] Cons(2) [of "i + 1" "k - 1"] counter_step [of i "k - 1" sz] by (cases k) auto
  next
    case 3
    then show ?case
      using counter_end [of i sz] Cons(3) [of "i + 1" "k - 1"] counter_step [of i "k - 1" sz] by (cases k) auto
  next
    case 4
    then show ?case
      using counter_end [of i sz] Cons(4) [of "i + 1" "k - 1"] counter_step [of i "k - 1" sz]
      by (cases k) (auto simp: add.assoc)
  }
qed

lemma uncounted_loops:
  assumes "2 ^ 32 \<le> unat sz"
  shows "escape_loop escape sz i src = None" "escape_count_loop escape sz i src n = None"
    "html_loop sz i src = None" "html_count_loop sz i src m = None"
  using counter_never_ends [OF assms] by (induction src arbitrary: i n m) simp_all

lemma escape_uri_runs_away:
  assumes "2 ^ 32 \<le> unat sz" "rd escape_map type = Some escape"
  shows "string_escape_uri src sz type = None" "string_escape_uri_count src sz type = None"
    "string_escape_html src sz = None" "string_escape_html_count src sz = None"
  using assms
  by (simp_all add: string_escape_uri_def string_escape_uri_count_def string_escape_html_def
      string_escape_html_count_def uncounted_loops)

lemma escape_passes:
  assumes "unat sz \<le> length src" "unat sz < 2 ^ 32" "rd escape_map type = Some escape"
  shows "string_escape_uri src sz type = Some (concat (map (escape_char escape) (take (unat sz) src)))"
    "string_escape_uri_count src sz type = Some (of_nat (length (filter (must_escape escape) (take (unat sz) src))))"
    "string_escape_html src sz = Some (concat (map html_char (take (unat sz) src)))"
    "string_escape_html_count src sz = Some (sum_list (map html_extra (take (unat sz) src)))"
  using counted_loops [of 0 "unat sz" sz src] assms
  by (simp_all add: string_escape_uri_def string_escape_uri_count_def string_escape_html_def string_escape_html_count_def)

section \<open>URI round trip\<close>

lemma hex_digits_lower: "i < 16 \<Longrightarrow> is_digit (hex_digits ! i) \<and> hex_digits ! i - 0x30 = of_nat i \<or>
   \<not> is_digit (hex_digits ! i) \<and> 0x61 \<le> hex_digits ! i OR 0x20 \<and> hex_digits ! i OR 0x20 \<le> 0x66 \<and>
     (hex_digits ! i OR 0x20) - 0x61 + 10 = of_nat i"
proof -
  have "list_all (\<lambda>i. is_digit (hex_digits ! i) \<and> hex_digits ! i - 0x30 = of_nat i \<or>
   \<not> is_digit (hex_digits ! i) \<and> 0x61 \<le> hex_digits ! i OR 0x20 \<and> hex_digits ! i OR 0x20 \<le> 0x66 \<and>
     (hex_digits ! i OR 0x20) - 0x61 + 10 = of_nat i) [0..<16]"
    by code_simp
  thus "i < 16 \<Longrightarrow> ?thesis" by (simp add: list_all_iff)
qed

lemma unescape_quoted:
  assumes "i < 16"
  shows "unescape_loop 0 sw_quoted decoded prev (hex_digits ! i # s) =
         unescape_loop 0 sw_quoted_second (of_nat i) (hex_digits ! i) s"
  using hex_digits_lower [OF assms] by (auto simp: Let_def)

lemma unescape_second:
  assumes "i < 16"
  shows "unescape_loop 0 sw_quoted_second decoded prev (hex_digits ! i # s) =
         (case unescape_loop 0 sw_usual decoded (hex_digits ! i) s of (d, s') \<Rightarrow>
            ((push_bit 4 decoded + of_nat i) # d, s'))"
  using hex_digits_lower [OF assms] by (auto simp: Let_def split_beta algebra_simps)

lemma nibbles: "push_bit 4 (drop_bit 4 c) + (c AND 0xf) = (c :: u8)"
  unfolding u8_masks take_bit_eq_mask [symmetric] by (rule bits_ident)

lemma nibble_bounds: "unat (drop_bit 4 (c :: u8)) < 16" "unat (c AND 0xf) < 16"
proof -
  have "unat c < 256" using unsigned_less [of c, where 'a = nat] by simp
  thus "unat (drop_bit 4 c) < 16" unfolding unat_drop_bit_eq by (simp add: drop_bit_eq_div)
  show "unat (c AND 0xf) < 16"
    using take_bit_nat_less_exp [of 4 "unat c"]
    unfolding u8_masks take_bit_eq_mask [symmetric] unsigned_take_bit_eq by simp
qed

lemma word_unat_inverse: "(of_nat (unat x) :: u8) = x"
  by simp

lemma unescape_escape:
  assumes "must_escape escape 0x25"
  shows "unescape_loop 0 sw_usual decoded prev (concat (map (escape_char escape) src)) = (src, [])"
proof (induction src arbitrary: decoded prev)
  case (Cons c src)
  let ?rest = "concat (map (escape_char escape) src)"
  show ?case
  proof (cases "must_escape escape c")
    case True
    have "unescape_loop 0 sw_usual decoded prev (concat (map (escape_char escape) (c # src))) =
        unescape_loop 0 sw_quoted decoded 0x25 (hex_digits ! unat (drop_bit 4 c) # hex_digits ! unat (c AND 0xf) # ?rest)"
      using True by (simp add: escape_char_def)
    also have "\<dots> = (c # src, [])"
      unfolding unescape_quoted [OF nibble_bounds(1)] unescape_second [OF nibble_bounds(2)]
      by (simp only: Cons.IH prod.case word_unat_inverse nibbles)
    finally show ?thesis .
  next
    case False
    thus ?thesis using assms Cons.IH by (auto simp: Let_def escape_char_def)
  qed
qed simp

lemma escape_tables_percent:
  "rd escape_map type = Some escape \<Longrightarrow> must_escape escape 0x25 \<longleftrightarrow> type \<noteq> 3"
proof -
  have "list_all (\<lambda>t. must_escape (escape_map ! t) 0x25 \<longleftrightarrow> t \<noteq> 3) [0..<6]" by code_simp
  thus "rd escape_map type = Some escape \<Longrightarrow> ?thesis"
    by (auto simp: list_all_iff rd_def escape_map_def split: if_splits)
qed



text \<open>The table for refresh headers does not escape the percent sign, against its comment: the text \<^verbatim>\<open>%41\<close>
  passes unchanged and comes back as \<^verbatim>\<open>A\<close>.\<close>

lemma refresh_table_percent:
  "string_escape_uri [0x25, 0x34, 0x31] 3 3 = Some [0x25, 0x34, 0x31]"
  "string_unescape_uri [0x25, 0x34, 0x31] 0 = ([0x41], [])"
  by code_simp+

lemma escape_text_length:
  "length (concat (map (escape_char escape) src)) = length src + 2 * length (filter (must_escape escape) src)"
  by (induction src) (auto simp: escape_char_def)

lemma escape_uri_announced:
  assumes "unat sz \<le> length src" "unat sz < 2 ^ 32" "rd escape_map type = Some escape"
  shows "\<exists>n dst. string_escape_uri_count src sz type = Some n \<and> string_escape_uri src sz type = Some dst \<and>
                 length dst = unat sz + 2 * unat n"
proof -
  let ?k = "length (filter (must_escape escape) (take (unat sz) src))"
  have "?k < 2 ^ 32"
    using assms(1,2) length_filter_le [of "must_escape escape" "take (unat sz) src"] by simp
  hence "unat (of_nat ?k :: u32) = ?k" by (simp add: unsigned_of_nat take_bit_nat_eq_self)
  thus ?thesis using assms(1) by (simp add: escape_passes [OF assms] escape_text_length)
qed

section \<open>HTML\<close>

lemma html_extra_length:
  "length (html_char ch) = 1 + unat (html_extra ch)"
  by (simp add: html_char_def html_extra_def)

lemma html_text_length:
  "length (concat (map html_char src)) < 2 ^ 32 \<Longrightarrow>
   length (concat (map html_char src)) = length src + unat (sum_list (map html_extra src))"
proof (induction src)
  case (Cons ch src)
  let ?s = "sum_list (map html_extra src)"
  have "length (concat (map html_char src)) = length src + unat ?s" using Cons by simp
  moreover have "unat (html_extra ch + ?s) = unat (html_extra ch) + unat ?s"
    using Cons.prems calculation by (intro unat_add_lem [THEN iffD1]) (simp add: html_extra_length)
  ultimately show ?case by (simp add: html_extra_length)
qed simp

lemma escape_html_announced:
  assumes "unat sz \<le> length src" "unat sz < 2 ^ 32" "string_escape_html src sz = Some dst" "length dst < 2 ^ 32"
  shows "\<exists>len. string_escape_html_count src sz = Some len \<and> length dst = unat sz + unat len"
proof -
  have r: "rd escape_map 0 = Some esc_uri" by (simp add: escape_map_def)
  note p = escape_passes(3,4) [OF assms(1,2) r]
  show ?thesis
    using html_text_length [of "take (unat sz) src"] assms(1,3,4) by (simp add: p)
qed

lemma escape_html_clean:
  "html_loop sz i src = Some dst \<Longrightarrow> 0x3c \<notin> set dst \<and> 0x3e \<notin> set dst"
  by (induction src arbitrary: i dst) (auto simp: html_char_def split: if_splits)

section \<open>UTF-8\<close>

lemma word_all_less: "list_all (\<lambda>i. P (of_nat i :: u32)) [0..<k] \<Longrightarrow> x < of_nat k \<Longrightarrow> k < 256 \<Longrightarrow> P x"
proof -
  assume a: "list_all (\<lambda>i. P (of_nat i :: u32)) [0..<k]" "x < of_nat k" "k < 256"
  have "unat x < k" using a(2,3) by (simp add: word_less_nat_alt unsigned_of_nat take_bit_nat_eq_self)
  moreover have "\<forall>i\<in>{0..<k}. P (of_nat i)" using a(1) by (simp add: list_all_iff)
  ultimately have "P (of_nat (unat x))" by (metis atLeastLessThan_iff le0)
  thus "P x" by simp
qed

lemma utf8_cont_byte:
  assumes "y < 64"
  shows "\<not> (ucast (0x80 OR y :: u32) :: u8) < 0x80 \<and> (ucast (ucast (0x80 OR y) :: u8) :: u32) AND 0x3f = y"
proof -
  have "list_all (\<lambda>i. \<not> (ucast (0x80 OR of_nat i :: u32) :: u8) < 0x80 \<and>
     (ucast (ucast (0x80 OR of_nat i :: u32) :: u8) :: u32) AND 0x3f = of_nat i) [0..<64]" by code_simp
  from word_all_less [OF this] assms show ?thesis by simp
qed

lemma utf8_leads:
  "x < 32 \<Longrightarrow> utf8_lead (ucast (0xc0 OR x)) = (if x = 0 then None else Some (x, 0x7f, 1))"
  "x < 16 \<Longrightarrow> utf8_lead (ucast (0xe0 OR x)) = (if x = 0 then Some (0, 0x7f, 1) else Some (x, 0x7ff, 2))"
  "x < 8 \<Longrightarrow> utf8_lead (ucast (0xf0 OR x)) = (if x = 0 then Some (0, 0x7ff, 2) else Some (x, 0xffff, 3))"
proof -
  have "list_all (\<lambda>i. utf8_lead (ucast (0xc0 OR of_nat i :: u32)) = (if of_nat i = (0 :: u32) then None else Some (of_nat i, 0x7f, 1))) [0..<32]"
    by code_simp
  from word_all_less [OF this] show "x < 32 \<Longrightarrow> utf8_lead (ucast (0xc0 OR x)) = (if x = 0 then None else Some (x, 0x7f, 1))" by simp
  have "list_all (\<lambda>i. utf8_lead (ucast (0xe0 OR of_nat i :: u32)) = (if of_nat i = (0 :: u32) then Some (0, 0x7f, 1) else Some (of_nat i, 0x7ff, 2))) [0..<16]"
    by code_simp
  from word_all_less [OF this] show "x < 16 \<Longrightarrow> utf8_lead (ucast (0xe0 OR x)) = (if x = 0 then Some (0, 0x7f, 1) else Some (x, 0x7ff, 2))" by simp
  have "list_all (\<lambda>i. utf8_lead (ucast (0xf0 OR of_nat i :: u32)) = (if of_nat i = (0 :: u32) then Some (0, 0x7ff, 2) else Some (of_nat i, 0xffff, 3))) [0..<8]"
    by code_simp
  from word_all_less [OF this] show "x < 8 \<Longrightarrow> utf8_lead (ucast (0xf0 OR x)) = (if x = 0 then Some (0, 0x7ff, 2) else Some (x, 0xffff, 3))" by simp
qed

lemma six_bits: "w AND 0x3f < (64 :: u32)" "push_bit 6 (drop_bit 6 w) OR (w AND 0x3f) = (w :: u32)"
proof -
  have m: "(0x3f :: u32) = mask 6" by (simp add: mask_eq_exp_minus_1)
  have "unat (take_bit 6 w) < 64" using take_bit_nat_less_exp [of 6 "unat w"] by (simp add: unsigned_take_bit_eq)
  thus "w AND 0x3f < 64" unfolding m take_bit_eq_mask [symmetric] by (simp add: word_less_nat_alt)
  show "push_bit 6 (drop_bit 6 w) OR (w AND 0x3f) = w"
    unfolding m by (rule bit_word_eqI) (auto simp: bit_simps)
qed

lemma unat_shift_less: "unat (drop_bit k (w :: u32)) = unat w div 2 ^ k"
  unfolding unat_drop_bit_eq by (simp add: drop_bit_eq_div)

lemma utf8_cont_steps:
  "utf8_cont (Suc k) (drop_bit 6 w) (ucast (0x80 OR (w AND 0x3f) :: u32) # p) = utf8_cont k w p"
  using utf8_cont_byte [OF six_bits(1), of w] by (simp only: utf8_cont.simps if_False six_bits(2))


lemma utf8_cont_last: "utf8_cont 0 w p = Some (Some w, p)"
  by simp

lemma shift_twice: "drop_bit 6 (drop_bit 6 (w :: u32)) = drop_bit 12 w" "drop_bit 6 (drop_bit 12 (w :: u32)) = drop_bit 18 w"
  by (simp_all add: drop_bit_drop_bit)

lemma utf8_cont_1: "utf8_cont 1 (drop_bit 6 cp) (ucast (0x80 OR (cp AND 0x3f) :: u32) # p) = Some (Some cp, p)"
  unfolding One_nat_def utf8_cont_steps by simp

lemma utf8_cont_2:
  "utf8_cont 2 (drop_bit 12 cp)
     (ucast (0x80 OR (drop_bit 6 cp AND 0x3f) :: u32) # ucast (0x80 OR (cp AND 0x3f) :: u32) # p) = Some (Some cp, p)"
  unfolding numeral_2_eq_2 shift_twice [symmetric] utf8_cont_steps by simp

lemma utf8_cont_3:
  "utf8_cont 3 (drop_bit 18 cp)
     (ucast (0x80 OR (drop_bit 12 cp AND 0x3f) :: u32) # ucast (0x80 OR (drop_bit 6 cp AND 0x3f) :: u32) #
      ucast (0x80 OR (cp AND 0x3f) :: u32) # p) = Some (Some cp, p)"
  unfolding numeral_3_eq_3 shift_twice(2) [symmetric] utf8_cont_steps
  unfolding shift_twice(1) [symmetric] utf8_cont_steps by simp

lemma utf8_room: "Suc k \<le> unat (n :: u64) \<Longrightarrow> k < 4 \<Longrightarrow> \<not> n - 1 < of_nat k"
  by (subst word_less_nat_alt, subst unat_minus_one) (auto simp: unsigned_of_nat take_bit_nat_eq_self)

lemma utf8_decode_two:
  assumes "0x80 \<le> cp" "cp < 0x800" "2 \<le> unat n"
  shows "string_utf8_decode (utf8_encode cp @ rest) n = Some (cp, rest)"
proof -
  have x: "drop_bit 6 cp < 32" "drop_bit 6 cp \<noteq> 0"
    using assms(1,2) unat_shift_less [of 6 cp]
    by (simp_all add: word_less_nat_alt word_le_nat_alt flip: unsigned_eq_0_iff [where 'a = nat])
  have "0x7f < cp" using assms(1) by (simp add: word_less_nat_alt word_le_nat_alt)
  thus ?thesis
    using assms(2) x utf8_leads(1) [OF x(1)] utf8_room [of 1 n] assms(3)
    by (simp add: string_utf8_decode_def utf8_encode_def utf8_cont_1 [unfolded One_nat_def] del: utf8_cont.simps)
qed


lemma utf8_decode_three:
  assumes "0x1000 \<le> cp" "cp < 0x10000" "3 \<le> unat n"
  shows "string_utf8_decode (utf8_encode cp @ rest) n = Some (cp, rest)"
proof -
  have x: "drop_bit 12 cp < 16" "drop_bit 12 cp \<noteq> 0"
    using assms(1,2) unat_shift_less [of 12 cp]
    by (simp_all add: word_less_nat_alt word_le_nat_alt flip: unsigned_eq_0_iff [where 'a = nat])
  have "0x7ff < cp" "\<not> cp < 0x800" using assms(1) by (simp_all add: word_less_nat_alt word_le_nat_alt)
  thus ?thesis
    using assms(2) x utf8_leads(2) [OF x(1)] utf8_room [of 2 n] assms(3)
    by (simp add: string_utf8_decode_def utf8_encode_def utf8_cont_2 del: utf8_cont.simps)
qed

lemma utf8_decode_four:
  assumes "0x40000 \<le> cp" "cp < 0x110000" "4 \<le> unat n"
  shows "string_utf8_decode (utf8_encode cp @ rest) n = Some (cp, rest)"
proof -
  have x: "drop_bit 18 cp < 8" "drop_bit 18 cp \<noteq> 0"
    using assms(1,2) unat_shift_less [of 18 cp]
    by (simp_all add: word_less_nat_alt word_le_nat_alt flip: unsigned_eq_0_iff [where 'a = nat])
  have "0xffff < cp" "\<not> cp < 0x800" "\<not> cp < 0x10000" using assms(1) by (simp_all add: word_less_nat_alt word_le_nat_alt)
  thus ?thesis
    using x utf8_leads(3) [OF x(1)] utf8_room [of 3 n] assms(3)
    by (simp add: string_utf8_decode_def utf8_encode_def utf8_cont_3 del: utf8_cont.simps)
qed

lemma utf8_decode_lead_e0:
  assumes "0x800 \<le> cp" "cp < 0x1000" "3 \<le> unat n"
  shows "string_utf8_decode (utf8_encode cp @ rest) n = Some (0xffffffff, ucast (0x80 OR (cp AND 0x3f)) # rest)"
proof -
  have x: "drop_bit 12 cp = 0" "drop_bit 12 cp < 16"
    using assms(2) unat_shift_less [of 12 cp]
    by (simp_all add: word_less_nat_alt flip: unsigned_eq_0_iff [where 'a = nat])
  let ?y = "drop_bit 6 cp AND 0x3f"
  have y: "?y < 64" by (rule six_bits(1))
  hence "\<not> 0x7f < ?y" by (simp add: word_less_nat_alt)
  moreover have "utf8_cont 1 0 (ucast (0x80 OR ?y) # p) = Some (Some ?y, p)" for p
    using utf8_cont_byte [OF y] by (simp only: One_nat_def utf8_cont.simps if_False) (simp only: push_bit_of_0 or.left_neutral)
  moreover have "\<not> cp < 0x800" "cp < 0x10000" using assms by (simp_all add: word_less_nat_alt word_le_nat_alt)
  ultimately show ?thesis
    using utf8_leads(2) [OF x(2)] utf8_room [of 1 n] assms(3) x(1)
    by (simp add: string_utf8_decode_def utf8_encode_def del: utf8_cont.simps)
qed

lemma utf8_decode_lead_f0:
  assumes "0x10000 \<le> cp" "cp < 0x40000" "4 \<le> unat n"
  shows "string_utf8_decode (utf8_encode cp @ rest) n =
         Some (if cp < 0x20000 then 0xffffffff else drop_bit 6 cp, ucast (0x80 OR (cp AND 0x3f)) # rest)"
proof -
  have x: "drop_bit 18 cp = 0" "drop_bit 18 cp < 8"
    using assms(2) unat_shift_less [of 18 cp]
    by (simp_all add: word_less_nat_alt flip: unsigned_eq_0_iff [where 'a = nat])
  have "utf8_cont 2 (drop_bit 12 (drop_bit 6 cp))
      (ucast (0x80 OR (drop_bit 6 (drop_bit 6 cp) AND 0x3f) :: u32) # ucast (0x80 OR (drop_bit 6 cp AND 0x3f) :: u32) # p) =
      Some (Some (drop_bit 6 cp), p)" for p
    by (rule utf8_cont_2)
  moreover have "drop_bit 12 (drop_bit 6 cp) = drop_bit 18 cp" by (simp add: drop_bit_drop_bit)
  ultimately have c: "utf8_cont 2 0 (ucast (0x80 OR (drop_bit 12 cp AND 0x3f) :: u32) #
      ucast (0x80 OR (drop_bit 6 cp AND 0x3f) :: u32) # p) = Some (Some (drop_bit 6 cp), p)" for p
    by (simp only: x(1) shift_twice)
  have "0x7ff < drop_bit 6 cp \<longleftrightarrow> \<not> cp < 0x20000"
    using unat_shift_less [of 6 cp] by (simp add: word_less_nat_alt) linarith
  moreover have "\<not> cp < 0x800" "\<not> cp < 0x10000" using assms by (simp_all add: word_less_nat_alt word_le_nat_alt)
  ultimately show ?thesis
    using utf8_leads(3) [OF x(2)] utf8_room [of 2 n] assms(3) x(1) c
    by (simp add: string_utf8_decode_def utf8_encode_def del: utf8_cont.simps)
qed

lemma length_utf8_encode:
  "cp < 0x800 \<Longrightarrow> length (utf8_encode cp) = 2"
  "0x800 \<le> cp \<Longrightarrow> cp < 0x10000 \<Longrightarrow> length (utf8_encode cp) = 3"
  "0x10000 \<le> cp \<Longrightarrow> length (utf8_encode cp) = 4"
  by (auto simp: utf8_encode_def word_less_nat_alt word_le_nat_alt)

lemma utf8_bounds:
  "0x1000 \<le> cp \<Longrightarrow> 0x800 \<le> (cp :: u32)" "0x40000 \<le> cp \<Longrightarrow> 0x10000 \<le> (cp :: u32)" "cp < 0x1000 \<Longrightarrow> (cp :: u32) < 0x10000"
  by (simp_all add: word_less_nat_alt word_le_nat_alt)

text \<open>C39: What the UTF-8 decoder makes of the standard encoding of every code point from \<open>0x80\<close> to \<open>0x10ffff\<close>, given
  the whole sequence. It returns the code point and the pointer behind the sequence from \<open>0x80\<close> to \<open>0x7ff\<close>, from
  \<open>0x1000\<close> to \<open>0xffff\<close> and from \<open>0x40000\<close> on. The comparisons of the lead byte with \<open>0xe0\<close> and \<open>0xf0\<close> are strict, so
  that it takes the sequences that start with one of these for a byte shorter than they are: it rejects the
  code points from \<open>0x800\<close> to \<open>0xfff\<close> and from \<open>0x10000\<close> to \<open>0x1ffff\<close>, returns the code point shifted by six bits
  from \<open>0x20000\<close> to \<open>0x3ffff\<close>, and leaves the last byte of the sequence unread in all these cases.\<close>

theorem utf8_decode_ranges:
  assumes "length (utf8_encode cp) \<le> unat n"
  shows "(0x80 \<le> cp \<and> cp < 0x800 \<or> 0x1000 \<le> cp \<and> cp < 0x10000 \<or> 0x40000 \<le> cp \<and> cp < 0x110000 \<longrightarrow>
            string_utf8_decode (utf8_encode cp @ rest) n = Some (cp, rest)) \<and>
         (0x800 \<le> cp \<and> cp < 0x1000 \<longrightarrow>
            string_utf8_decode (utf8_encode cp @ rest) n = Some (0xffffffff, ucast (0x80 OR (cp AND 0x3f)) # rest)) \<and>
         (0x10000 \<le> cp \<and> cp < 0x40000 \<longrightarrow>
            string_utf8_decode (utf8_encode cp @ rest) n =
            Some (if cp < 0x20000 then 0xffffffff else drop_bit 6 cp, ucast (0x80 OR (cp AND 0x3f)) # rest))"
proof (intro conjI impI)
  assume "0x80 \<le> cp \<and> cp < 0x800 \<or> 0x1000 \<le> cp \<and> cp < 0x10000 \<or> 0x40000 \<le> cp \<and> cp < 0x110000"
  thus "string_utf8_decode (utf8_encode cp @ rest) n = Some (cp, rest)"
    using assms utf8_decode_two utf8_decode_three utf8_decode_four utf8_bounds by (auto simp: length_utf8_encode)
next
  assume "0x800 \<le> cp \<and> cp < 0x1000"
  thus "string_utf8_decode (utf8_encode cp @ rest) n = Some (0xffffffff, ucast (0x80 OR (cp AND 0x3f)) # rest)"
    using assms utf8_decode_lead_e0 utf8_bounds(3) by (simp add: length_utf8_encode)
next
  assume "0x10000 \<le> cp \<and> cp < 0x40000"
  thus "string_utf8_decode (utf8_encode cp @ rest) n =
      Some (if cp < 0x20000 then 0xffffffff else drop_bit 6 cp, ucast (0x80 OR (cp AND 0x3f)) # rest)"
    using assms utf8_decode_lead_f0 by (simp add: length_utf8_encode)
qed

theorem utf8_decode_ranges_witness:
  "string_utf8_decode (utf8_encode 0x20ac @ [0x41]) 4 = Some (0x20ac, [0x41]) \<and>
   string_utf8_decode (utf8_encode 0x1f600 @ [0x41]) 4 = Some (0xffffffff, [0x80, 0x41]) \<and>
   string_utf8_decode (utf8_encode 0x20001 @ [0x41]) 4 = Some (0x800, [0x81, 0x41])"
proof (intro conjI)
  have l: "length (utf8_encode cp) \<le> unat (4 :: u64)" for cp by (simp add: utf8_encode_def)
  show "string_utf8_decode (utf8_encode 0x20ac @ [0x41]) 4 = Some (0x20ac, [0x41])"
    using utf8_decode_ranges [OF l, of "0x20ac" "[0x41]"] by simp
  show "string_utf8_decode (utf8_encode 0x1f600 @ [0x41]) 4 = Some (0xffffffff, [0x80, 0x41])"
    using utf8_decode_ranges [OF l, of "0x1f600" "[0x41]"] by simp
  show "string_utf8_decode (utf8_encode 0x20001 @ [0x41]) 4 = Some (0x800, [0x81, 0x41])"
    using utf8_decode_ranges [OF l, of "0x20001" "[0x41]"] by (simp add: drop_bit_eq_div)
qed

text \<open>The copy counts the bytes of a sequence and one more, so that two letters of two bytes each, of which all
  four bytes are given, are cut after the first; and the length routine lets the decoder read past the end
  of the text, because it passes the whole length for what is left.\<close>

lemma cpystrn_truncates:
  "string_utf8_cpystrn [0xd0, 0x90, 0xd0, 0x91, 0] 10 4 = Some [0xd0, 0x90]"
  by code_simp

lemma utf8_length_reads_past:
  "string_utf8_length [0x41, 0xd0] 2 = None"
  by code_simp

end
