(* ===== verification/Dfs_Printf.thy ===== *)
theory Dfs_Printf
  imports Dfs_String
begin

text \<open>
  The formatted output of \<^verbatim>\<open>src/src/core/dfs_string.cpp\<close>: \<^verbatim>\<open>string_xxvsnprintf\<close> and its two callers. The buffer is its address
  \<open>buf\<close>, which matters where the code adds a length to a pointer, and its size; the format is
  the list of its bytes with the terminator, the variable arguments are a list of values that remember
  the width they were passed with, and the result is the list of the bytes written from \<^verbatim>\<open>buf\<close> on, so that its
  length is the distance between the returned pointer and \<^verbatim>\<open>buf\<close>. Fetching an argument of another width, reading
  behind the format and the negation of the least 64-bit number are undefined.
\<close>

unbundle bit_operations_syntax

section \<open>Arguments and conversion flags\<close>

datatype varg = V32 u32 | V64 u64 | VStr "u8 list" | VStringT "u8 list"

fun va_int :: "varg list \<Rightarrow> (int \<times> varg list) option" where
  "va_int (V32 w # args) = Some (sint w, args)"
| "va_int _ = None"

fun va_uint32 :: "varg list \<Rightarrow> (u64 \<times> varg list) option" where
  "va_uint32 (V32 w # args) = Some (ucast w, args)"
| "va_uint32 _ = None"

fun va_int64 :: "varg list \<Rightarrow> (int \<times> varg list) option" where
  "va_int64 (V64 w # args) = Some (sint w, args)"
| "va_int64 _ = None"

fun va_uint64 :: "varg list \<Rightarrow> (u64 \<times> varg list) option" where
  "va_uint64 (V64 w # args) = Some (w, args)"
| "va_uint64 _ = None"

record fspec =
  fs_zero :: u8
  fs_width :: u32
  fs_sign :: bool
  fs_hexadecimal :: nat
  fs_max_width :: bool
  fs_slen :: u64

definition NGX_INT64_LEN :: nat where "NGX_INT64_LEN = 20"
definition NGX_PTR_SIZE :: nat where "NGX_PTR_SIZE = 4"

text \<open>The digits of the width, and the flags behind it.\<close>

fun parse_width :: "u8 list \<Rightarrow> u32 \<Rightarrow> (u32 \<times> u8 list) option" where
  "parse_width [] width = None"
| "parse_width (c # fmt) width =
     (if 0x30 \<le> c \<and> c \<le> 0x39 then parse_width fmt (width * 10 + ucast c - 0x30) else Some (width, c # fmt))"

fun parse_flags :: "u8 list \<Rightarrow> fspec \<Rightarrow> varg list \<Rightarrow> (u8 list \<times> fspec \<times> varg list) option" where
  "parse_flags [] fs args = None"
| "parse_flags (c # fmt) fs args =
     (if c = 0x75 then parse_flags fmt (fs\<lparr>fs_sign := False\<rparr>) args
      else if c = 0x6d then parse_flags fmt (fs\<lparr>fs_max_width := True\<rparr>) args
      else if c = 0x58 then parse_flags fmt (fs\<lparr>fs_hexadecimal := 2, fs_sign := False\<rparr>) args
      else if c = 0x78 then parse_flags fmt (fs\<lparr>fs_hexadecimal := 1, fs_sign := False\<rparr>) args
      else if c = 0x2a then
        do { (slen, args) \<leftarrow> va_uint64 args; parse_flags fmt (fs\<lparr>fs_slen := slen\<rparr>) args }
      else Some (c # fmt, fs, args))"

section \<open>Numbers\<close>

text \<open>The value fetched by a numeric conversion: the flags, \<^verbatim>\<open>i64\<close>, \<^verbatim>\<open>ui64\<close> and the arguments that are left.\<close>

definition fetch_signed ::
  "(varg list \<Rightarrow> (int \<times> varg list) option) \<Rightarrow> (varg list \<Rightarrow> (u64 \<times> varg list) option) \<Rightarrow>
   fspec \<Rightarrow> varg list \<Rightarrow> (fspec \<times> int \<times> u64 \<times> varg list) option" where
  "fetch_signed si ui fs args =
     (if fs_sign fs then do { (i64, args) \<leftarrow> si args; Some (fs, i64, 0, args) }
      else do { (ui64, args) \<leftarrow> ui args; Some (fs, 0, ui64, args) })"

definition fetch_num :: "u8 \<Rightarrow> fspec \<Rightarrow> varg list \<Rightarrow> (fspec \<times> int \<times> u64 \<times> varg list) option" where
  "fetch_num c fs args =
     (if c = 0x4f \<or> c = 0x54 \<or> c = 0x72 then
        do { (i64, args) \<leftarrow> va_int64 args; Some (fs\<lparr>fs_sign := True\<rparr>, i64, 0, args) }
      else if c = 0x50 then
        do { (i64, args) \<leftarrow> va_int args; Some (fs\<lparr>fs_sign := True\<rparr>, i64, 0, args) }
      else if c = 0x4d then
        do { (ms, args) \<leftarrow> va_uint64 args;
             if ms = - 1 then Some (fs\<lparr>fs_sign := True\<rparr>, - 1, 0, args)
             else Some (fs\<lparr>fs_sign := False\<rparr>, 0, ms, args) }
      else if c = 0x7a \<or> c = 0x6c \<or> c = 0x4c then fetch_signed va_int64 va_uint64 fs args
      else if c = 0x69 then
        do { (fs, i64, ui64, args) \<leftarrow> fetch_signed va_int va_uint32 fs args;
             Some (if fs_max_width fs then fs\<lparr>fs_width := of_nat NGX_INT64_LEN\<rparr> else fs, i64, ui64, args) }
      else if c = 0x64 \<or> c = 0x44 then fetch_signed va_int va_uint32 fs args
      else if c = 0x41 then
        do { (fs, i64, ui64, args) \<leftarrow> fetch_signed va_int va_uint32 fs args;
             Some (if fs_max_width fs then fs\<lparr>fs_width := of_nat NGX_INT64_LEN\<rparr> else fs, i64, ui64, args) }
      else
        do { (ui64, args) \<leftarrow> va_uint64 args;
             Some (fs\<lparr>fs_hexadecimal := 2, fs_sign := False, fs_zero := 0x30, fs_width := of_nat (NGX_PTR_SIZE * 2)\<rparr>,
                   0, ui64, args) })"

definition num_chars :: "u8 list" where
  "num_chars = [0x4f, 0x50, 0x54, 0x4d, 0x7a, 0x69, 0x64, 0x6c, 0x44, 0x4c, 0x41, 0x72, 0x70]"

definition hex_lower :: "u8 list" where
  "hex_lower = [0x30, 0x31, 0x32, 0x33, 0x34, 0x35, 0x36, 0x37, 0x38, 0x39, 0x61, 0x62, 0x63, 0x64, 0x65, 0x66]"

definition hex_upper :: "u8 list" where
  "hex_upper = [0x30, 0x31, 0x32, 0x33, 0x34, 0x35, 0x36, 0x37, 0x38, 0x39, 0x41, 0x42, 0x43, 0x44, 0x45, 0x46]"

text \<open>The digits that the \<^verbatim>\<open>do while\<close> loops put in front of each other.\<close>

fun hex_loop :: "u8 list \<Rightarrow> nat \<Rightarrow> u8 list" where
  "hex_loop tab ui = (if ui div 16 = 0 then [] else hex_loop tab (ui div 16)) @ [tab ! (ui mod 16)]"

fun dec_loop :: "nat \<Rightarrow> u8 list" where
  "dec_loop ui = (if ui div 10 = 0 then [] else dec_loop (ui div 10)) @ [of_nat (ui mod 10) + 0x30]"

declare hex_loop.simps [simp del] dec_loop.simps [simp del]

definition num_digits :: "nat \<Rightarrow> u64 \<Rightarrow> u8 list" where
  "num_digits hexadecimal ui64 =
     (if hexadecimal = 1 then hex_loop hex_lower (unat ui64)
      else if hexadecimal = 2 then hex_loop hex_upper (unat ui64)
      else if ui64 \<le> 0xffffffff then dec_loop (unat (ucast ui64 :: u32))
      else dec_loop (unat ui64))"

text \<open>The sign, the padding and the digits, each cut at the end of the buffer as the code does it; more than
  \<^verbatim>\<open>NGX_INT64_LEN\<close> digits would run over the front of \<^verbatim>\<open>temp\<close>.\<close>

definition put_num :: "nat \<Rightarrow> u8 list \<Rightarrow> fspec \<Rightarrow> int \<Rightarrow> u64 \<Rightarrow> u8 list option" where
  "put_num mx out fs i64 ui64 =
     do { (out, ui64) \<leftarrow>
            (if \<not> fs_sign fs then Some (out, ui64)
             else if i64 < 0 then
               do { m \<leftarrow> chk_int64 (- i64); Some (out @ [0x2d], word_of_int m) }
             else Some (out, word_of_int i64));
          let p = num_digits (fs_hexadecimal fs) ui64;
          p \<leftarrow> (if length p \<le> NGX_INT64_LEN then Some p else None);
          let out = out @ replicate (min (unat (fs_width fs) - length p) (mx - length out)) (fs_zero fs);
          Some (out @ take (mx - length out) p) }"

section \<open>The format loop\<close>

text \<open>How many of \<open>len\<close> bytes are copied to \<open>n\<close> bytes behind the start of the buffer, by the test \<^verbatim>\<open>buf + len < pend\<close>, whose sum
  wraps around.\<close>

definition cut_len :: "u64 \<Rightarrow> nat \<Rightarrow> nat \<Rightarrow> u64 \<Rightarrow> nat" where
  "cut_len buf mx n len =
     (let pend = buf + of_nat mx; buf = buf + of_nat n in
      if buf + len < pend then unat len else unat (pend - buf))"

text \<open>The switch over the conversion character: the output and the arguments that are left.\<close>

definition put_string :: "u64 \<Rightarrow> nat \<Rightarrow> fspec \<Rightarrow> u8 list \<Rightarrow> varg list \<Rightarrow> (u8 list \<times> varg list) option" where
  "put_string buf mx fs out args =
     (case args of
        VStr p # args \<Rightarrow>
          if fs_slen fs = - 1 then
            (if 0 \<in> set p \<or> mx - length out < length p
             then Some (out @ take (mx - length out) (takeWhile (\<lambda>ch. ch \<noteq> 0) p), args) else None)
          else do { d \<leftarrow> rdn p 0 (cut_len buf mx (length out) (fs_slen fs)); Some (out @ d, args) }
      | _ \<Rightarrow> None)"

definition put_conv :: "u64 \<Rightarrow> nat \<Rightarrow> u8 \<Rightarrow> fspec \<Rightarrow> u8 list \<Rightarrow> varg list \<Rightarrow> (u8 list \<times> varg list) option" where
  "put_conv buf mx c fs out args =
     (if c = 0x56 then
        (case args of
           VStringT v # args \<Rightarrow>
             do { d \<leftarrow> rdn v 0 (cut_len buf mx (length out) (of_nat (length v))); Some (out @ d, args) }
         | _ \<Rightarrow> None)
      else if c = 0x73 then put_string buf mx fs out args
      else if c = 0x63 then do { (d, args) \<leftarrow> va_uint32 args; Some (out @ [ucast (d AND 0xff)], args) }
      else if c = 0x5a then Some (out @ [0], args)
      else if c = 0x4e then Some (out @ [10], args)
      else if c = 0x25 then Some (out @ [0x25], args)
      else if c \<in> set num_chars then
        do { (fs, i64, ui64, args) \<leftarrow> fetch_num c fs args;
             out \<leftarrow> put_num mx out fs i64 ui64;
             Some (out, args) }
      else Some (out @ [c], args))"

text \<open>One conversion, from behind the percent sign: the format that is left, the output and the arguments.\<close>

definition convert :: "u64 \<Rightarrow> nat \<Rightarrow> u8 list \<Rightarrow> u8 list \<Rightarrow> varg list \<Rightarrow> (u8 list \<times> u8 list \<times> varg list) option" where
  "convert buf mx fmt out args =
     do { z \<leftarrow> rd fmt 0;
          (width, fmt) \<leftarrow> parse_width fmt 0;
          (fmt, fs, args) \<leftarrow> parse_flags fmt
             \<lparr>fs_zero = (if z = 0x30 then 0x30 else 0x20), fs_width = width, fs_sign = True, fs_hexadecimal = 0,
              fs_max_width = False, fs_slen = - 1\<rparr> args;
          (out, args) \<leftarrow> put_conv buf mx (hd fmt) fs out args;
          Some (tl fmt, out, args) }"

lemma parse_width_shorter: "parse_width fmt w = Some (w', f) \<Longrightarrow> length f \<le> length fmt"
  by (induction fmt w rule: parse_width.induct) (auto split: if_splits)

lemma parse_flags_shorter: "parse_flags fmt fs args = Some (f, fs', args') \<Longrightarrow> length f \<le> length fmt \<and> f \<noteq> []"
  by (induction fmt arbitrary: fs args) (fastforce split: if_splits bind_splits)+

lemma convert_shorter: "convert buf mx fmt out args = Some (f, out', args') \<Longrightarrow> length f < length fmt"
proof -
  assume "convert buf mx fmt out args = Some (f, out', args')"
  then obtain w f1 fs args1 f2 fs0 where p: "parse_width fmt 0 = Some (w, f1)"
    "parse_flags f1 fs0 args = Some (f2, fs, args1)" "f = tl f2"
    by (auto simp: convert_def split: bind_splits)
  show ?thesis
    using parse_width_shorter [OF p(1)] parse_flags_shorter [OF p(2)] p(3) by (cases f2) auto
qed

function vsnprintf_loop :: "u64 \<Rightarrow> nat \<Rightarrow> u8 list \<Rightarrow> varg list \<Rightarrow> u8 list \<Rightarrow> u8 list option" where
  "vsnprintf_loop buf mx fmt args out =
     (case fmt of
        [] \<Rightarrow> None
      | c # f \<Rightarrow>
          if c = 0 \<or> \<not> length out < mx then Some out
          else if c = 0x25 then
            (case convert buf mx f out args of
               None \<Rightarrow> None
             | Some (f', out', args') \<Rightarrow> vsnprintf_loop buf mx f' args' out')
          else vsnprintf_loop buf mx f args (out @ [c]))"
  by pat_completeness auto
termination
  by (relation "measure (\<lambda>(buf, mx, fmt, args, out). length fmt)") (auto dest: convert_shorter)

declare vsnprintf_loop.simps [simp del]

definition string_xxvsnprintf :: "u64 \<Rightarrow> nat \<Rightarrow> u8 list \<Rightarrow> varg list \<Rightarrow> u8 list option" where
  "string_xxvsnprintf buf mx fmt args = (if mx = 0 then Some [] else vsnprintf_loop buf mx fmt args [])"

definition string_xxsprintf :: "u64 \<Rightarrow> u8 list \<Rightarrow> varg list \<Rightarrow> u8 list option" where
  "string_xxsprintf buf fmt args = string_xxvsnprintf buf 65536 fmt args"

definition string_xxsnprintf :: "u64 \<Rightarrow> nat \<Rightarrow> u8 list \<Rightarrow> varg list \<Rightarrow> u8 list option" where
  "string_xxsnprintf buf mx fmt args = string_xxvsnprintf buf mx fmt args"


section \<open>The output stays in the buffer\<close>

lemma pad_bound:
  "a \<le> mx \<Longrightarrow> a + (min x (mx - a) + min y (mx - (a + min x (mx - a)))) \<le> (mx :: nat)"
  by (auto simp: min_def)

lemma cut_bound: "a < mx \<Longrightarrow> a + min x (mx - a) \<le> (mx :: nat)"
  by (auto simp: min_def)

lemma put_num_bound:
  "length out < mx \<Longrightarrow> put_num mx out fs i64 ui64 = Some out' \<Longrightarrow> length out' \<le> mx"
  using pad_bound [of "length out" mx] pad_bound [of "Suc (length out)" mx]
  by (auto simp: put_num_def Let_def split: bind_splits if_splits)

text \<open>The copied length stays in the buffer if the sum does not wrap; if it does, all of it is copied.\<close>

lemma cut_len_fit:
  assumes "unat buf + mx < 2 ^ 64" "n \<le> mx" "unat buf + n + unat len < 2 ^ 64"
  shows "cut_len buf mx n len = min (unat len) (mx - n)"
proof -
  have b: "unat (buf + of_nat k) = unat buf + k" if "k \<le> mx" for k
    using that assms(1) by (subst unat_add_lem [THEN iffD1]) (simp_all add: unsigned_of_nat take_bit_nat_eq_self)
  have l: "unat (buf + of_nat n + len) = unat buf + n + unat len"
    using b [OF assms(2)] assms(3) by (subst unat_add_lem [THEN iffD1]) simp_all
  have "buf + of_nat mx - (buf + of_nat n) = of_nat (mx - n)" using assms(2) by (simp add: of_nat_diff)
  then have d: "unat (buf + of_nat mx - (buf + of_nat n)) = mx - n"
    using assms(1) by (simp only: unsigned_of_nat) (simp add: take_bit_nat_eq_self)
  have "buf + of_nat n + len < buf + of_nat mx \<longleftrightarrow> n + unat len < mx"
    using l b [of mx] by (simp only: word_less_nat_alt) simp
  then show ?thesis using assms(2) unfolding cut_len_def Let_def by (simp only: d) (auto simp: min_def)
qed

lemma cut_len_wraps:
  assumes "unat buf + n < 2 ^ 64" "n \<le> mx" "unat buf + mx < 2 ^ 64" "2 ^ 64 \<le> unat buf + n + unat len"
  shows "cut_len buf mx n len = unat len"
proof -
  have b: "unat (buf + of_nat k) = unat buf + k" if "k \<le> mx" for k
    using that assms(3) by (subst unat_add_lem [THEN iffD1]) (simp_all add: unsigned_of_nat take_bit_nat_eq_self)
  have lt: "unat len < 2 ^ 64" using unsigned_less [of len, where 'a = nat] by simp
  have "unat (buf + of_nat n + len) = (unat buf + n + unat len) mod 2 ^ 64"
    using b [OF assms(2)] by (simp add: unat_word_ariths)
  also have "\<dots> = unat buf + n + unat len - 2 ^ 64" using assms(1,4) lt by (subst mod_if, subst mod_if) auto
  also have "\<dots> < unat buf + mx" using lt assms(2,4) by linarith
  finally show ?thesis using b [of mx] by (simp add: cut_len_def Let_def word_less_nat_alt)
qed

text \<open>What the arguments have to satisfy: the length of a \<^verbatim>\<open>string_t\<close>, and every length for \<^verbatim>\<open>%*s\<close> if the format has an
  asterisk, does not wrap when it is added to an address in the buffer.\<close>

definition str_fit :: "u64 \<Rightarrow> nat \<Rightarrow> varg list \<Rightarrow> bool" where
  "str_fit buf mx args \<longleftrightarrow> (\<forall>v. VStringT v \<in> set args \<longrightarrow> unat buf + mx + length v < 2 ^ 64)"

definition len_fit :: "u64 \<Rightarrow> nat \<Rightarrow> varg list \<Rightarrow> bool" where
  "len_fit buf mx args \<longleftrightarrow> (\<forall>w. V64 w \<in> set args \<longrightarrow> unat buf + mx + unat w < 2 ^ 64)"

definition args_fit :: "u64 \<Rightarrow> nat \<Rightarrow> u8 list \<Rightarrow> varg list \<Rightarrow> bool" where
  "args_fit buf mx fmt args \<longleftrightarrow>
     unat buf + mx < 2 ^ 64 \<and> str_fit buf mx args \<and> (0x2a \<in> set fmt \<longrightarrow> len_fit buf mx args)"

lemma args_fit_mono:
  "args_fit buf mx fmt args \<Longrightarrow> set fmt' \<subseteq> set fmt \<Longrightarrow> set args' \<subseteq> set args \<Longrightarrow> args_fit buf mx fmt' args'"
  unfolding args_fit_def str_fit_def len_fit_def by blast

lemma parse_width_sub: "parse_width fmt w = Some (w', f) \<Longrightarrow> set f \<subseteq> set fmt"
  by (induction fmt w rule: parse_width.induct) (auto split: if_splits)

lemma va_sub:
  "va_int args = Some (i, args') \<Longrightarrow> set args' \<subseteq> set args" "va_uint32 args = Some (u, args') \<Longrightarrow> set args' \<subseteq> set args"
  "va_int64 args = Some (i, args') \<Longrightarrow> set args' \<subseteq> set args" "va_uint64 args = Some (u, args') \<Longrightarrow> set args' \<subseteq> set args"
  by (auto elim!: va_int.elims va_uint32.elims va_int64.elims va_uint64.elims)

text \<open>The length that the flags leave is none, or one of the arguments.\<close>

lemma parse_flags_sub:
  "parse_flags fmt fs args = Some (f, fs', args') \<Longrightarrow>
     set f \<subseteq> set fmt \<and> set args' \<subseteq> set args \<and> (fs_slen fs' = fs_slen fs \<or> 0x2a \<in> set fmt \<and> V64 (fs_slen fs') \<in> set args)"
proof (induction fmt arbitrary: fs args)
  case (Cons c fmt)
  show ?case
  proof (cases "c = 0x2a")
    case True
    then obtain w args1 where a: "va_uint64 args = Some (w, args1)" "parse_flags fmt (fs\<lparr>fs_slen := w\<rparr>) args1 = Some (f, fs', args')"
      using Cons.prems by (auto split: bind_splits)
    have "args = V64 w # args1" using a(1) by (auto elim!: va_uint64.elims)
    then show ?thesis using Cons.IH [OF a(2)] True by auto
  next
    case False
    then show ?thesis using Cons.prems by (auto split: if_splits dest!: Cons.IH)
  qed
qed simp

lemma put_string_bound:
  assumes "length out < mx" "put_string buf mx fs out args = Some (out', args')" "unat buf + mx < 2 ^ 64"
    "fs_slen fs = - 1 \<or> unat buf + mx + unat (fs_slen fs) < 2 ^ 64"
  shows "length out' \<le> mx \<and> set args' \<subseteq> set args"
proof -
  have "fs_slen fs \<noteq> - 1 \<Longrightarrow> cut_len buf mx (length out) (fs_slen fs) = min (unat (fs_slen fs)) (mx - length out)"
    using assms by (intro cut_len_fit) auto
  then show ?thesis using assms(1,2) cut_bound [of "length out" mx]
    by (auto simp: put_string_def rdn_def split: bind_splits if_splits list.splits varg.splits)
qed

lemma fetch_num_sub: "fetch_num c fs args = Some (fs', i, u, args') \<Longrightarrow> set args' \<subseteq> set args"
  by (auto simp: fetch_num_def fetch_signed_def dest!: va_sub split: if_splits bind_splits)

lemma put_conv_bound:
  assumes "length out < mx" "put_conv buf mx c fs out args = Some (out', args')" "unat buf + mx < 2 ^ 64" "str_fit buf mx args"
    "fs_slen fs = - 1 \<or> unat buf + mx + unat (fs_slen fs) < 2 ^ 64"
  shows "length out' \<le> mx \<and> set args' \<subseteq> set args"
proof -
  consider "c = 0x56" | "c = 0x73" | "c \<noteq> 0x56" "c \<noteq> 0x73" by blast
  then show ?thesis
  proof cases
    case 1
    then obtain v where v: "args = VStringT v # args'" using assms(2) by (auto simp: put_conv_def split: list.splits varg.splits bind_splits)
    have f: "unat buf + mx + length v < 2 ^ 64" using assms(4) v by (simp add: str_fit_def)
    then have "unat (of_nat (length v) :: u64) = length v" by (simp add: unsigned_of_nat take_bit_nat_eq_self)
    then have "cut_len buf mx (length out) (of_nat (length v)) = min (length v) (mx - length out)"
      using f assms(1,3) cut_len_fit [of buf mx "length out" "of_nat (length v)"] by simp
    then show ?thesis using 1 v assms(2) cut_bound [OF assms(1), of "length v"]
      by (auto simp: put_conv_def rdn_def split: bind_splits if_splits)
  next
    case 2
    then show ?thesis using assms(2) put_string_bound [OF assms(1) _ assms(3,5)] by (simp add: put_conv_def)
  next
    case 3
    then show ?thesis
      using assms(1,2) put_num_bound [OF assms(1)] va_sub(2) fetch_num_sub
      by (fastforce simp: put_conv_def split: bind_splits if_splits)
  qed
qed

lemma convert_bound:
  assumes "length out < mx" "convert buf mx fmt out args = Some (f, out', args')" "args_fit buf mx fmt args"
  shows "length out' \<le> mx \<and> set f \<subseteq> set fmt \<and> set args' \<subseteq> set args"
proof -
  obtain z :: u8 and w f1 fs args1 f2 where p: "parse_width fmt 0 = Some (w, f1)" "parse_flags f1
       \<lparr>fs_zero = (if z = 0x30 then 0x30 else 0x20), fs_width = w, fs_sign = True, fs_hexadecimal = 0, fs_max_width = False, fs_slen = - 1\<rparr>
       args = Some (f2, fs, args1)" "f = tl f2" "put_conv buf mx (hd f2) fs out args1 = Some (out', args')"
    using assms(2) by (auto simp: convert_def split: bind_splits)
  note w = parse_width_sub [OF p(1)] and fl = parse_flags_sub [OF p(2)]
  have "fs_slen fs = - 1 \<or> unat buf + mx + unat (fs_slen fs) < 2 ^ 64"
    using fl w assms(3) by (auto simp: args_fit_def len_fit_def)
  moreover have "str_fit buf mx args1" using assms(3) fl unfolding args_fit_def str_fit_def by blast
  ultimately have "length out' \<le> mx \<and> set args' \<subseteq> set args1"
    using put_conv_bound [OF assms(1) p(4)] assms(3) by (auto simp: args_fit_def)
  moreover have "set (tl f2) \<subseteq> set f2" by (cases f2) auto
  ultimately show ?thesis using w fl p(3) by auto
qed

lemma vsnprintf_loop_bound:
  "length out \<le> mx \<Longrightarrow> vsnprintf_loop buf mx fmt args out = Some out' \<Longrightarrow> args_fit buf mx fmt args \<Longrightarrow> length out' \<le> mx"
proof (induction buf mx fmt args out rule: vsnprintf_loop.induct)
  case (1 buf mx fmt args out)
  obtain c f where f: "fmt = c # f" using 1(4) by (cases fmt) (auto simp: vsnprintf_loop.simps)
  show ?case
  proof (cases "c = 0 \<or> \<not> length out < mx")
    case True
    thus ?thesis using 1(3,4) f by (subst (asm) vsnprintf_loop.simps) simp
  next
    case False
    have af: "args_fit buf mx f args" using args_fit_mono [OF 1(5)] f by auto
    show ?thesis
    proof (cases "c = 0x25")
      case True
      then obtain f' out1 args1 where c: "convert buf mx f out args = Some (f', out1, args1)"
        using 1(4) f False by (subst (asm) vsnprintf_loop.simps) (auto split: option.splits)
      have "vsnprintf_loop buf mx f' args1 out1 = Some out'"
        using 1(4) f False True c by (subst (asm) vsnprintf_loop.simps) simp
      moreover have "length out1 \<le> mx" "set f' \<subseteq> set f" "set args1 \<subseteq> set args" using convert_bound [OF _ c af] False by auto
      ultimately show ?thesis
        using 1(1) [OF f False True c refl refl] args_fit_mono [OF af] by blast
    next
      case n: False
      have "vsnprintf_loop buf mx f args (out @ [c]) = Some out'"
        using 1(4) f False n by (subst (asm) vsnprintf_loop.simps) simp
      thus ?thesis using 1(2) [OF f False n] False af by simp
    qed
  qed
qed

section \<open>Digits\<close>

lemma is_digit_dec: "d < 10 \<Longrightarrow> is_digit (of_nat d + 0x30) \<and> unat ((of_nat d + 0x30 :: u8) - 0x30) = d"
proof -
  have "list_all (\<lambda>d. is_digit (of_nat d + 0x30) \<and> unat ((of_nat d + 0x30 :: u8) - 0x30) = d) [0..<10]" by code_simp
  thus "d < 10 \<Longrightarrow> ?thesis" by (simp add: list_all_iff)
qed

lemma dec_loop_digits: "list_all is_digit (dec_loop n)"
  by (induction n rule: dec_loop.induct) (subst dec_loop.simps, auto simp: is_digit_dec)

lemma decval_dec_loop: "foldl (\<lambda>v c. v * 10 + unat (c - 0x30 :: u8)) 0 (dec_loop n) = n"
proof (induction n rule: dec_loop.induct)
  case (1 n)
  show ?case using 1 is_digit_dec [of "n mod 10"]
    by (subst dec_loop.simps) (auto simp del: add_diff_cancel_right' simp add: div_mult_mod_eq)
qed

lemma dec_loop_nonempty [simp]: "dec_loop n \<noteq> []"
  by (subst dec_loop.simps) simp

lemma length_dec_loop: "n < 10 ^ k \<Longrightarrow> 0 < k \<Longrightarrow> length (dec_loop n) \<le> k"
proof (induction n arbitrary: k rule: dec_loop.induct)
  case (1 n)
  show ?case
  proof (cases "n div 10 = 0")
    case True
    thus ?thesis using 1(3) by (subst dec_loop.simps) simp
  next
    case False
    then obtain j where k: "k = Suc j" "0 < j" using 1(2,3) by (cases k; cases "k = 1") auto
    have "n div 10 < 10 ^ j" using 1(2) k(1) by (simp add: less_mult_imp_div_less mult.commute)
    thus ?thesis using 1(1) [OF False _ k(2)] False k(1) by (subst dec_loop.simps) simp
  qed
qed


lemma num_digits_dec: "num_digits 0 ui64 = dec_loop (unat ui64)"
proof -
  have "unat (ucast ui64 :: u32) = unat ui64" if "ui64 \<le> 0xffffffff"
    using that by (simp add: unsigned_ucast_eq take_bit_nat_eq_self word_le_nat_alt)
  thus ?thesis by (simp add: num_digits_def)
qed

lemma num_digits_fit: "length (num_digits 0 ui64) \<le> NGX_INT64_LEN"
proof -
  have "unat ui64 < 10 ^ 20" using unsigned_less [of ui64, where 'a = nat] by simp
  thus ?thesis unfolding num_digits_dec NGX_INT64_LEN_def by (intro length_dec_loop) auto
qed

text \<open>A plain decimal conversion of a signed and of an unsigned number.\<close>

lemma put_num_plain:
  assumes "fs_width fs = 0" "fs_hexadecimal fs = 0" "fs_sign fs = sg" "length out + 21 \<le> mx"
    "sg \<Longrightarrow> - (2 ^ 63) < i64 \<and> i64 < 2 ^ 63"
  shows "put_num mx out fs i64 ui64 =
         Some (out @ (if sg \<and> i64 < 0 then [0x2d] else []) @ dec_loop (if sg then nat \<bar>i64\<bar> else unat ui64))"
proof -
  have fit: "length (dec_loop (unat w)) \<le> 20" for w :: u64
    using num_digits_fit [of w] by (simp add: num_digits_dec NGX_INT64_LEN_def)
  have abs: "unat (word_of_int \<bar>i64\<bar> :: u64) = nat \<bar>i64\<bar>" if sg
    using assms(5) that take_bit_int_eq_self [of "\<bar>i64\<bar>" 64] by (auto simp: unsigned_of_int)
  have chk: "chk_int64 (- i64) = Some (- i64)" if sg "i64 < 0"
    using assms(5) that by (simp add: chk_int64_def)
  show ?thesis
    using assms(1-4) fit [of ui64] fit [of "word_of_int \<bar>i64\<bar>"] abs chk
    by (cases sg; cases "i64 < 0") (auto simp: put_num_def Let_def num_digits_dec NGX_INT64_LEN_def)
qed

lemma vsnprintf_d:
  assumes "21 \<le> mx"
  shows "string_xxvsnprintf buf mx [0x25, 0x64, 0] [V32 w] =
         Some ((if sint w < 0 then [0x2d] else []) @ dec_loop (nat \<bar>sint w\<bar>))"
proof -
  have b: "- (2 ^ 63) < sint w \<and> sint w < 2 ^ 63"
    using sint_ge [of w] sint_lt [of w] by simp
  let ?out = "(if sint w < 0 then [0x2d] else []) @ dec_loop (nat \<bar>sint w\<bar>)"
  have "convert buf mx [0x64, 0] [] [V32 w] = Some ([0], ?out, [])"
    using assms b by (simp add: convert_def put_conv_def fetch_num_def fetch_signed_def num_chars_def put_num_plain)
  thus ?thesis
    using assms by (simp add: string_xxvsnprintf_def vsnprintf_loop.simps [of _ _ "_ # _"])
qed

lemma vsnprintf_uL:
  assumes "21 \<le> mx"
  shows "string_xxvsnprintf buf mx [0x25, 0x75, 0x4c, 0] [V64 w] = Some (dec_loop (unat w))"
proof -
  have "convert buf mx [0x75, 0x4c, 0] [] [V64 w] = Some ([0], dec_loop (unat w), [])"
    using assms by (simp add: convert_def put_conv_def fetch_num_def fetch_signed_def num_chars_def put_num_plain [of _ False])
  thus ?thesis
    using assms by (simp add: string_xxvsnprintf_def vsnprintf_loop.simps [of _ _ "_ # _"])
qed

lemma strtosize_dec: "string_xxstrtosize (dec_loop (unat v)) (length (dec_loop (unat v))) = Some v"
  using strtou_loop_decval [OF dec_loop_digits, of "unat v" "[]" 0, where 'a = 64]
  by (simp add: string_xxstrtosize_def decval_dec_loop)

lemma strtoi_dec:
  assumes "sint (w :: u32) \<noteq> - (2 ^ 31)"
  defines "out \<equiv> (if sint w < 0 then [0x2d] else []) @ dec_loop (nat \<bar>sint w\<bar>)"
  shows "string_xxstrtoi (out @ 0 # rest) (length out) = Some (sint w)"
proof -
  let ?ds = "dec_loop (nat \<bar>sint w\<bar>)"
  have N: "nat \<bar>sint w\<bar> < 2 ^ 31"
    using assms(1) sint_ge [of w] sint_lt [of w] by auto
  have loop: "strtoi_loop chk_int32 (?ds @ 0 # rest) n 0 = Some \<bar>sint w\<bar>"
    if "n = length ?ds \<or> n = Suc (length ?ds)" for n
    using strtoi_loop_decval [OF dec_loop_digits, of 0 "nat \<bar>sint w\<bar>" "2 ^ 31" chk_int32 n "0 # rest"] N that
    by (auto simp: decval_dec_loop chk_int32_def is_digit_def)
  have hd: "\<exists>c ds. ?ds = c # ds \<and> c \<noteq> 0x2d"
    using dec_loop_digits [of "nat \<bar>sint w\<bar>"] by (cases ?ds) (auto simp: is_digit_def)
  show ?thesis
  proof (cases "sint w < 0")
    case True
    thus ?thesis using loop [of "Suc (length ?ds)"] by (simp add: string_xxstrtoi_def strto_signed_def out_def)
  next
    case False
    thus ?thesis using loop [of "length ?ds"] hd by (auto simp: string_xxstrtoi_def strto_signed_def out_def)
  qed
qed

section \<open>Properties\<close>

text \<open>C25: The formatted output stays in the buffer: when it returns, the returned pointer is at most \<open>max\<close> bytes behind the
  start, for every format and all arguments whose string lengths, that is the length of every \<^verbatim>\<open>string_t\<close> and, if the format has an
  asterisk, every 64-bit argument, do not wrap around when they are added to an address in the buffer. Otherwise the test
  \<^verbatim>\<open>buf + len < pend\<close> succeeds by the wrap-around and all \<open>len\<close> bytes are copied (\<open>cut_len_wraps\<close>, \<open>put_string_overruns\<close>).\<close>

theorem vsnprintf_bounded:
  assumes "string_xxvsnprintf buf mx fmt args = Some out" "args_fit buf mx fmt args"
  shows "length out \<le> mx"
  using assms vsnprintf_loop_bound [where out = "[]"] by (auto simp: string_xxvsnprintf_def split: if_splits)

text \<open>Eight bytes for a string of twelve, by \<^verbatim>\<open>%*s\<close> with its length.\<close>

theorem vsnprintf_bounded_witness:
  "string_xxvsnprintf 4096 8 [0x25, 0x2a, 0x73, 0] [V64 12, VStr (replicate 12 0x41)] = Some (replicate 8 0x41) \<and>
   length (replicate 8 (0x41 :: u8)) \<le> 8"
proof
  show run: "string_xxvsnprintf 4096 8 [0x25, 0x2a, 0x73, 0] [V64 12, VStr (replicate 12 0x41)] = Some (replicate 8 0x41)"
    by (simp add: string_xxvsnprintf_def vsnprintf_loop.simps convert_def put_conv_def put_string_def cut_len_def rdn_def)
  show "length (replicate 8 (0x41 :: u8)) \<le> 8"
    by (rule vsnprintf_bounded [OF run]) (simp add: args_fit_def str_fit_def len_fit_def)
qed

text \<open>A length that wraps: the copy is not cut, and goes past the end of the buffer unless it reads past the end of the
  string before.\<close>

lemma put_string_overruns:
  assumes "unat buf + mx < 2 ^ 64" "length out < mx" "fs_slen fs \<noteq> - 1" "2 ^ 64 \<le> unat buf + length out + unat (fs_slen fs)"
  shows "put_string buf mx fs out (VStr p # args) =
      (if unat (fs_slen fs) \<le> length p then Some (out @ take (unat (fs_slen fs)) p, args) else None)"
    "mx < length out + unat (fs_slen fs)"
proof -
  have "cut_len buf mx (length out) (fs_slen fs) = unat (fs_slen fs)" using assms by (intro cut_len_wraps) auto
  then show "put_string buf mx fs out (VStr p # args) =
      (if unat (fs_slen fs) \<le> length p then Some (out @ take (unat (fs_slen fs)) p, args) else None)"
    using assms(3) by (simp add: put_string_def rdn_def)
  show "mx < length out + unat (fs_slen fs)" using assms(1,4) by linarith
qed

text \<open>C26: Two of the number formats read back: the text that \<^verbatim>\<open>%uL\<close> writes for a 64-bit unsigned number is read by
  \<^verbatim>\<open>string_xxstrtosize\<close> as the number, and the text that \<^verbatim>\<open>%d\<close> writes for an \<^verbatim>\<open>int\<close> other than \<^verbatim>\<open>INT_MIN\<close> is read by
  \<^verbatim>\<open>string_xxstrtoi\<close> as the number, if a NUL follows it in memory. The output function writes no NUL itself, and
  \<^verbatim>\<open>string_xxstrtoi\<close> reads one character past the text of a negative number: followed by a digit it reads a wrong number. The
  buffer has room for 21 bytes.\<close>

theorem print_parse_roundtrip:
  assumes "21 \<le> mx" "sint w \<noteq> - (2 ^ 31)"
  shows "(\<exists>out. string_xxvsnprintf buf mx [0x25, 0x75, 0x4c, 0] [V64 v] = Some out \<and>
                string_xxstrtosize out (length out) = Some v) \<and>
         (\<exists>out. string_xxvsnprintf buf mx [0x25, 0x64, 0] [V32 w] = Some out \<and>
                string_xxstrtoi (out @ 0 # rest) (length out) = Some (sint w))"
proof
  show "\<exists>out. string_xxvsnprintf buf mx [0x25, 0x75, 0x4c, 0] [V64 v] = Some out \<and>
      string_xxstrtosize out (length out) = Some v"
    using vsnprintf_uL [OF assms(1)] strtosize_dec by blast
  show "\<exists>out. string_xxvsnprintf buf mx [0x25, 0x64, 0] [V32 w] = Some out \<and>
      string_xxstrtoi (out @ 0 # rest) (length out) = Some (sint w)"
    using vsnprintf_d [OF assms(1)] strtoi_dec [OF assms(2)] by blast
qed

theorem print_parse_roundtrip_witness:
  "\<exists>out. string_xxvsnprintf 4096 32 [0x25, 0x64, 0] [V32 (- 2147483647)] = Some out \<and>
         string_xxstrtoi (out @ 0 # []) (length out) = Some (- 2147483647)"
  using print_parse_roundtrip [of 32 "- 2147483647" 4096 0 "[]"] by simp

text \<open>A percent sign at the end of the format makes the loop run over the terminator: the terminator is copied
  and the next read is behind the format.\<close>

lemma vsnprintf_trailing_percent: "string_xxvsnprintf buf 16 [0x41, 0x25, 0] [] = None"
  by (simp add: string_xxvsnprintf_def vsnprintf_loop.simps convert_def put_conv_def num_chars_def)

end
