(* ===== verification/Dfs_ConnPool.thy ===== *)
theory Dfs_ConnPool
  imports Dfs_Prelude
begin

text \<open>
  The connection pools of \<^verbatim>\<open>src/src/core/dfs_conn_pool.cpp\<close>: every thread has a pool with a linked list of free
  connections, and the threads exchange connections through a common pool. The calls on the common pool are
  whole critical sections of its lock, so a step of a thread is one call. Shown are the contents of the lists
  after every call, that no connection is lost or handed out twice in any interleaving, and the equation
  between the counters.
\<close>

section \<open>State\<close>

record conn_pool_t =
  cp_connections :: addr
  cp_connection_n :: u32
  cp_change_n :: int
  cp_free :: addr
  cp_free_n :: u32
  cp_read_events :: addr
  cp_write_events :: addr
  cp_used_n :: u32

text \<open>The fields of connections and events that the pools use, the pool of every thread, the common pool.\<close>

record pools_t =
  ps_next :: "addr \<Rightarrow> addr"
  ps_fd :: "addr \<Rightarrow> int"
  ps_read :: "addr \<Rightarrow> addr"
  ps_write :: "addr \<Rightarrow> addr"
  ps_instance :: "addr \<Rightarrow> bool"
  ps_timer_event :: "addr \<Rightarrow> bool"
  ps_pool :: "nat \<Rightarrow> conn_pool_t"
  ps_comm :: conn_pool_t

definition pool_zero :: conn_pool_t where
  "pool_zero = \<lparr>cp_connections = 0, cp_connection_n = 0, cp_change_n = 0, cp_free = 0, cp_free_n = 0,
     cp_read_events = 0, cp_write_events = 0, cp_used_n = 0\<rparr>"

definition SIZEOF_CONN :: nat where "SIZEOF_CONN = 184"
definition SIZEOF_EVENT :: nat where "SIZEOF_EVENT = 88"

section \<open>Operations\<close>

definition conn_pool_free :: "conn_pool_t \<Rightarrow> conn_pool_t" where
  "conn_pool_free p = p\<lparr>cp_connections := 0, cp_read_events := 0, cp_write_events := 0, cp_connection_n := 0, cp_free_n := 0\<rparr>"

text \<open>The loop of \<^verbatim>\<open>conn_pool_init\<close> over the connections from index \<open>i\<close> on.\<close>

fun conn_pool_init_loop :: "nat \<Rightarrow> nat \<Rightarrow> addr \<Rightarrow> addr \<Rightarrow> addr \<Rightarrow> pools_t \<Rightarrow> pools_t" where
  "conn_pool_init_loop 0 i conn revs wevs s = s"
| "conn_pool_init_loop (Suc k) i conn revs wevs s =
     (let c = conn + i * SIZEOF_CONN; rev = revs + i * SIZEOF_EVENT; wev = wevs + i * SIZEOF_EVENT;
          s = s\<lparr>ps_instance := (ps_instance s)(rev := True),
                ps_next := (ps_next s)(c := (if k = 0 then nullptr else conn + (i + 1) * SIZEOF_CONN)),
                ps_fd := (ps_fd s)(c := -1), ps_read := (ps_read s)(c := rev), ps_write := (ps_write s)(c := wev),
                ps_timer_event := (ps_timer_event s)(rev := False, wev := False)\<rparr> in
      conn_pool_init_loop k (i + 1) conn revs wevs s)"

text \<open>\<open>a1\<close>, \<open>a2\<close>, \<open>a3\<close> are the results of the three zeroing allocations, null for a failed one; the loop then sets every
  field of the model but the instance bit of the write events.\<close>

definition conn_pool_init :: "nat \<Rightarrow> u32 \<Rightarrow> addr \<Rightarrow> addr \<Rightarrow> addr \<Rightarrow> pools_t \<Rightarrow> int \<times> pools_t" where
  "conn_pool_init t n a1 a2 a3 s =
     (let p = ps_pool s t; upd = (\<lambda>p s. s\<lparr>ps_pool := (ps_pool s)(t := p)\<rparr>) in
      if n = 0 then (NGX_ERROR, s)
      else let p = p\<lparr>cp_connection_n := n, cp_connections := a1\<rparr> in
      if a1 = nullptr then (NGX_ERROR, upd p s)
      else let p = p\<lparr>cp_read_events := a2\<rparr> in
      if a2 = nullptr then (NGX_ERROR, upd (conn_pool_free p) s)
      else let p = p\<lparr>cp_write_events := a3\<rparr> in
      if a3 = nullptr then (NGX_ERROR, upd (conn_pool_free p) s)
      else (NGX_OK, upd (p\<lparr>cp_free := a1, cp_free_n := n\<rparr>) (conn_pool_init_loop (unat n) 0 a1 a2 a3 s)))"

definition put_comm_conn :: "addr \<Rightarrow> pools_t \<Rightarrow> pools_t option" where
  "put_comm_conn c s =
     (if c = nullptr then None
      else Some (s\<lparr>ps_next := (ps_next s)(c := cp_free (ps_comm s)),
                   ps_comm := (ps_comm s)\<lparr>cp_free_n := cp_free_n (ps_comm s) + 1, cp_free := c\<rparr>\<rparr>))"

text \<open>The walk over the first \<open>i\<close> nodes: the node reached and the one before it.\<close>

fun comm_walk :: "(addr \<Rightarrow> addr) \<Rightarrow> addr \<Rightarrow> addr \<Rightarrow> nat \<Rightarrow> addr \<times> addr" where
  "comm_walk nxt plast p 0 = (plast, p)"
| "comm_walk nxt plast p (Suc i) = (if p = nullptr then (plast, p) else comm_walk nxt p (nxt p) i)"

text \<open>The first node of the chain that was taken, and how many there are.\<close>

definition get_comm_conn :: "u32 \<Rightarrow> pools_t \<Rightarrow> (addr \<times> u32 \<times> pools_t) option" where
  "get_comm_conn n s =
     (let comm = ps_comm s in
      if cp_free_n comm = 0 then Some (nullptr, 0, s)
      else if n \<ge> cp_free_n comm then
        Some (cp_free comm, cp_free_n comm, s\<lparr>ps_comm := comm\<lparr>cp_free := nullptr, cp_free_n := 0\<rparr>\<rparr>)
      else (let p = cp_free comm; (plast, p) = comm_walk (ps_next s) p p (unat n) in
        if plast = nullptr then None
        else Some (cp_free comm, n,
          s\<lparr>ps_comm := comm\<lparr>cp_free := p, cp_free_n := cp_free_n comm - n\<rparr>,
            ps_next := (ps_next s)(plast := nullptr)\<rparr>)))"

definition pool_out_conn :: "nat \<Rightarrow> addr \<Rightarrow> pools_t \<Rightarrow> (addr \<times> pools_t) option" where
  "pool_out_conn t c s =
     Some (c, s\<lparr>ps_pool := (ps_pool s)(t := (ps_pool s t)\<lparr>cp_free := ps_next s c,
       cp_free_n := cp_free_n (ps_pool s t) - 1, cp_used_n := cp_used_n (ps_pool s t) + 1\<rparr>)\<rparr>)"

definition conn_pool_get_connection :: "nat \<Rightarrow> pools_t \<Rightarrow> (addr \<times> pools_t) option" where
  "conn_pool_get_connection t s =
     (let pool = ps_pool s t; c = cp_free pool in
      if c = nullptr then
        if cp_change_n pool \<ge> 0 then Some (nullptr, s)
        else do {
          n \<leftarrow> chk_int32 (- cp_change_n pool);
          (c, num, s) \<leftarrow> get_comm_conn (word_of_int n) s;
          if c \<noteq> nullptr then do {
            ch \<leftarrow> chk_int32 (cp_change_n pool + sint num);
            pool_out_conn t c (s\<lparr>ps_pool := (ps_pool s)(t := (ps_pool s t)\<lparr>cp_free := c,
               cp_free_n := cp_free_n (ps_pool s t) + num, cp_change_n := ch\<rparr>)\<rparr>) }
          else Some (nullptr, s) }
      else pool_out_conn t c s)"

definition conn_pool_free_connection :: "nat \<Rightarrow> addr \<Rightarrow> pools_t \<Rightarrow> pools_t option" where
  "conn_pool_free_connection t c s =
     (let pool = ps_pool s t in
      if cp_change_n pool > 0 then do {
        s \<leftarrow> put_comm_conn c (s\<lparr>ps_pool := (ps_pool s)(t := pool\<lparr>cp_used_n := cp_used_n pool - 1\<rparr>)\<rparr>);
        Some (s\<lparr>ps_pool := (ps_pool s)(t := (ps_pool s t)\<lparr>cp_change_n := cp_change_n (ps_pool s t) - 1\<rparr>)\<rparr>) }
      else if c = nullptr then None
      else Some (s\<lparr>ps_next := (ps_next s)(c := cp_free pool),
        ps_pool := (ps_pool s)(t := pool\<lparr>cp_free := c, cp_free_n := cp_free_n pool + 1, cp_used_n := cp_used_n pool - 1\<rparr>)\<rparr>))"

definition conn_pool_common_init :: "pools_t \<Rightarrow> int \<times> pools_t" where
  "conn_pool_common_init s = (NGX_OK, s\<lparr>ps_comm := pool_zero\<rparr>)"

definition conn_pool_out :: "nat \<Rightarrow> int \<Rightarrow> pools_t \<Rightarrow> pools_t option" where
  "conn_pool_out t n s =
     do { ch \<leftarrow> chk_int32 (cp_change_n (ps_pool s t) - n);
          Some (s\<lparr>ps_pool := (ps_pool s)(t := (ps_pool s t)\<lparr>cp_change_n := ch, cp_used_n := cp_used_n (ps_pool s t) - word_of_int n\<rparr>)\<rparr>) }"

definition conn_pool_in :: "nat \<Rightarrow> int \<Rightarrow> pools_t \<Rightarrow> pools_t option" where
  "conn_pool_in t n s =
     do { ch \<leftarrow> chk_int32 (cp_change_n (ps_pool s t) + n);
          Some (s\<lparr>ps_pool := (ps_pool s)(t := (ps_pool s t)\<lparr>cp_change_n := ch, cp_used_n := cp_used_n (ps_pool s t) + word_of_int n\<rparr>)\<rparr>) }"

section \<open>Linked lists\<close>

fun clist :: "(addr \<Rightarrow> addr) \<Rightarrow> addr \<Rightarrow> addr list \<Rightarrow> bool" where
  "clist nxt p [] \<longleftrightarrow> p = nullptr"
| "clist nxt p (x # xs) \<longleftrightarrow> p = x \<and> x \<noteq> nullptr \<and> clist nxt (nxt x) xs"

lemma clist_upd [simp]: "a \<notin> set xs \<Longrightarrow> clist (nxt(a := v)) p xs = clist nxt p xs"
  by (induction nxt p xs rule: clist.induct) auto

lemma clist_null: "clist nxt p xs \<Longrightarrow> p = nullptr \<longleftrightarrow> xs = []"
  by (cases xs) auto

lemma clist_nonnull: "clist nxt p xs \<Longrightarrow> nullptr \<notin> set xs"
  by (induction nxt p xs rule: clist.induct) auto

lemma clist_walk:
  "clist nxt p xs \<Longrightarrow> i \<le> length xs \<Longrightarrow>
   \<exists>p'. comm_walk nxt q p i = (if i = 0 then q else xs ! (i - 1), p') \<and> clist nxt p' (drop i xs)"
proof (induction i arbitrary: p q xs)
  case (Suc i)
  then obtain x ys where xs: "xs = x # ys" by (cases xs) auto
  obtain p' where "comm_walk nxt p (nxt p) i = (if i = 0 then p else ys ! (i - 1), p')" "clist nxt p' (drop i ys)"
    using Suc.IH [of "nxt p" ys p] Suc.prems by (auto simp: xs)
  thus ?case using Suc.prems by (auto simp: xs nth_Cons split: nat.splits)
qed simp

lemma clist_cut:
  "clist nxt p xs \<Longrightarrow> distinct xs \<Longrightarrow> i < length xs \<Longrightarrow> clist (nxt(xs ! i := nullptr)) p (take (Suc i) xs)"
proof (induction i arbitrary: p xs)
  case (Suc i)
  then obtain x ys where xs: "xs = x # ys" by (cases xs) auto
  moreover have "ys ! i \<noteq> x" using Suc.prems by (auto simp: xs)
  ultimately show ?case using Suc.IH [of "nxt x" ys] Suc.prems by auto
next
  case 0
  thus ?case by (cases xs) auto
qed

section \<open>The contents of the pools\<close>

text \<open>
  There are \<open>N\<close> threads. \<open>F t\<close> are the free connections of thread \<open>t\<close>, \<open>G\<close> those of the common pool, \<open>U\<close> the
  connections in use and \<open>A\<close> all connections; every connection is in exactly one place.
\<close>

definition free_mset :: "nat \<Rightarrow> (nat \<Rightarrow> addr list) \<Rightarrow> addr multiset" where
  "free_mset N F = (\<Sum>t<N. mset (F t))"

definition parts :: "nat \<Rightarrow> (nat \<Rightarrow> addr list) \<Rightarrow> addr list \<Rightarrow> addr set \<Rightarrow> addr set \<Rightarrow> bool" where
  "parts N F G U A \<longleftrightarrow> free_mset N F + mset G + mset_set U = mset_set A \<and>
     finite U \<and> finite A \<and> card A < 2 ^ 31 \<and> nullptr \<notin> A"

definition represents :: "nat \<Rightarrow> pools_t \<Rightarrow> (nat \<Rightarrow> addr list) \<Rightarrow> addr list \<Rightarrow> bool" where
  "represents N s F G \<longleftrightarrow>
     (\<forall>t<N. clist (ps_next s) (cp_free (ps_pool s t)) (F t) \<and> cp_free_n (ps_pool s t) = of_nat (length (F t))) \<and>
     clist (ps_next s) (cp_free (ps_comm s)) G \<and> cp_free_n (ps_comm s) = of_nat (length G)"

definition balanced :: "conn_pool_t \<Rightarrow> bool" where
  "balanced p \<longleftrightarrow> cp_free_n p + cp_used_n p = cp_connection_n p + word_of_int (cp_change_n p) \<and>
     - (2 ^ 31) \<le> cp_change_n p \<and> cp_change_n p < 2 ^ 31"

definition pools_inv :: "nat \<Rightarrow> addr set \<Rightarrow> pools_t \<Rightarrow> addr set \<Rightarrow> bool" where
  "pools_inv N A s U \<longleftrightarrow> (\<exists>F G. represents N s F G \<and> parts N F G U A) \<and> (\<forall>t<N. balanced (ps_pool s t))"

lemma free_mset_split: "t < N \<Longrightarrow> free_mset N F = mset (F t) + (\<Sum>u\<in>{..<N} - {t}. mset (F u))"
  unfolding free_mset_def by (rule sum.remove) auto

lemma free_mset_update:
  assumes "t < N"
  shows "free_mset N (F(t := xs)) + mset (F t) = free_mset N F + mset xs"
proof -
  have "(\<Sum>u\<in>{..<N} - {t}. mset ((F(t := xs)) u)) = (\<Sum>u\<in>{..<N} - {t}. mset (F u))"
    by (rule sum.cong) auto
  thus ?thesis using free_mset_split [OF assms, of F] free_mset_split [OF assms, of "F(t := xs)"] by simp
qed

lemma parts_count:
  assumes "parts N F G U A"
  shows "count (free_mset N F) x + count (mset G) x + count (mset_set U) x = (if x \<in> A then 1 else 0)"
proof -
  have "count (free_mset N F + mset G + mset_set U) x = count (mset_set A) x" "finite A"
    using assms by (simp_all add: parts_def)
  thus ?thesis by simp
qed

lemma count_part: "t < N \<Longrightarrow> count (mset (F t)) x \<le> count (free_mset N F) x"
  by (simp add: free_mset_split)

lemma count_two: "t < N \<Longrightarrow> u < N \<Longrightarrow> t \<noteq> u \<Longrightarrow> count (mset (F t)) x + count (mset (F u)) x \<le> count (free_mset N F) x"
proof -
  assume a: "t < N" "u < N" "t \<noteq> u"
  have "(\<Sum>v\<in>{..<N} - {t}. mset (F v)) = mset (F u) + (\<Sum>v\<in>{..<N} - {t} - {u}. mset (F v))"
    using a by (intro sum.remove) auto
  thus ?thesis using free_mset_split [OF a(1), of F] by simp
qed

lemma mem_count: "x \<in> set xs \<longleftrightarrow> 1 \<le> count (mset xs) x"
  by (simp add: Suc_le_eq)

lemma parts_le1:
  assumes "parts N F G U A"
  shows "count (free_mset N F) x + count (mset G) x + count (mset_set U) x \<le> 1"
  using parts_count [OF assms, of x] by (simp split: if_splits)

lemma distinct_le1: "(\<And>x. count (mset xs) x \<le> 1) \<Longrightarrow> distinct xs"
proof (induction xs)
  case (Cons a xs)
  have "count (mset xs) x \<le> count (mset (a # xs)) x" for x by simp
  hence "count (mset xs) x \<le> 1" for x using Cons.prems [of x] order_trans by blast
  moreover have "a \<notin> set xs" using Cons.prems [of a] by (simp add: count_eq_zero_iff)
  ultimately show ?case using Cons.IH by simp
qed simp

lemma parts_distinct:
  assumes p: "parts N F G U A"
  shows "t < N \<Longrightarrow> distinct (F t)" "distinct G"
proof -
  show "distinct (F t)" if "t < N"
  proof (rule distinct_le1)
    fix x show "count (mset (F t)) x \<le> 1"
      using parts_le1 [OF p, of x] count_part [OF that, of F x] by linarith
  qed
  show "distinct G"
  proof (rule distinct_le1)
    fix x show "count (mset G) x \<le> 1" using parts_le1 [OF p, of x] by linarith
  qed
qed

lemma parts_apart:
  assumes p: "parts N F G U A"
  shows "t < N \<Longrightarrow> u < N \<Longrightarrow> t \<noteq> u \<Longrightarrow> c \<in> set (F t) \<Longrightarrow> c \<notin> set (F u)"
    "t < N \<Longrightarrow> c \<in> set (F t) \<Longrightarrow> c \<notin> set G" "t < N \<Longrightarrow> c \<in> set (F t) \<Longrightarrow> c \<notin> U" "c \<in> set G \<Longrightarrow> c \<notin> U"
proof -
  have u: "count (mset_set U) x = 1" if "x \<in> U" for x using that p by (simp add: parts_def)
  note le = parts_le1 [OF p, of c] and cp = count_part [of _ N F c]
  show "c \<notin> set (F u)" if "t < N" "u < N" "t \<noteq> u" "c \<in> set (F t)"
    using count_two [OF that(1-3), of F c] le that(4) unfolding mem_count by linarith
  show "t < N \<Longrightarrow> c \<in> set (F t) \<Longrightarrow> c \<notin> set G" using le cp [of t] unfolding mem_count by linarith
  show "t < N \<Longrightarrow> c \<in> set (F t) \<Longrightarrow> c \<notin> U" using le cp [of t] u [of c] unfolding mem_count by linarith
  show "c \<in> set G \<Longrightarrow> c \<notin> U" using le u [of c] unfolding mem_count by linarith
qed

lemma parts_all:
  assumes p: "parts N F G U A"
  shows "t < N \<Longrightarrow> c \<in> set (F t) \<Longrightarrow> c \<in> A" "c \<in> U \<Longrightarrow> c \<in> A" "c \<in> set G \<Longrightarrow> c \<in> A"
proof -
  have pos: "1 \<le> count (free_mset N F) c + count (mset G) c + count (mset_set U) c \<Longrightarrow> c \<in> A"
    using parts_count [OF p, of c] by (simp split: if_splits)
  show "t < N \<Longrightarrow> c \<in> set (F t) \<Longrightarrow> c \<in> A" using pos count_part [of t N F c] unfolding mem_count by linarith
  show "c \<in> U \<Longrightarrow> c \<in> A" using pos p by (simp add: parts_def)
  show "c \<in> set G \<Longrightarrow> c \<in> A" using pos unfolding mem_count by linarith
qed

lemma parts_length:
  assumes p: "parts N F G U A"
  shows "t < N \<Longrightarrow> length (F t) < 2 ^ 31" "length G < 2 ^ 31"
proof -
  have A: "finite A" "card A < 2 ^ 31" using p by (auto simp: parts_def)
  show "length G < 2 ^ 31"
    using card_mono [OF A(1), of "set G"] parts_all(3) [OF p] parts_distinct(2) [OF p] A(2) by (auto simp: distinct_card subset_iff)
  show "length (F t) < 2 ^ 31" if "t < N"
    using card_mono [OF A(1), of "set (F t)"] parts_all(1) [OF p that] parts_distinct(1) [OF p that] A(2) by (auto simp: distinct_card subset_iff)
qed

text \<open>How the parts change.\<close>

lemma parts_take:
  assumes p: "parts N F G U A" and t: "t < N" and f: "F t = c # xs"
  shows "parts N (F(t := xs)) G (insert c U) A"
proof -
  have "c \<notin> U" using parts_apart(3) [OF p t] f by simp
  hence u: "mset_set (insert c U) = add_mset c (mset_set U)" using p by (simp add: parts_def)
  have "free_mset N F = free_mset N (F(t := xs)) + {#c#}"
    using free_mset_update [OF t, of F xs] by (simp add: f)
  thus ?thesis using p unfolding parts_def u by simp
qed

lemma parts_put:
  assumes p: "parts N F G U A" and t: "t < N" and c: "c \<in> U"
  shows "parts N (F(t := c # F t)) G (U - {c}) A" "parts N F (c # G) (U - {c}) A"
proof -
  have u: "mset_set U = add_mset c (mset_set (U - {c}))"
    using p c by (simp add: parts_def mset_set.remove)
  have "free_mset N (F(t := c # F t)) = free_mset N F + {#c#}"
    using free_mset_update [OF t, of F "c # F t"] by simp
  thus "parts N (F(t := c # F t)) G (U - {c}) A" using p unfolding parts_def u by (simp add: ac_simps)
  show "parts N F (c # G) (U - {c}) A" using p unfolding parts_def u by (simp add: ac_simps)
qed

lemma parts_grab:
  assumes p: "parts N F (xs @ ys) U A" and t: "t < N" and f: "F t = []"
  shows "parts N (F(t := xs)) ys U A"
  using p free_mset_update [OF t, of F xs] f unfolding parts_def by (simp add: ac_simps)

section \<open>The operations keep the invariant\<close>

text \<open>A change of the own pool of one thread.\<close>

lemma represents_own:
  assumes "represents N s F G" "clist (ps_next s) (cp_free p) xs" "cp_free_n p = of_nat (length xs)"
  shows "represents N (s\<lparr>ps_pool := (ps_pool s)(t := p)\<rparr>) (F(t := xs)) G"
  using assms by (simp add: represents_def)

lemma pool_out_conn_ok:
  assumes r: "represents N s F G" and p: "parts N F G U A" and t: "t < N" and f: "F t = c # xs"
    and b: "\<forall>t<N. balanced (ps_pool s t)"
  shows "\<exists>s'. pool_out_conn t c s = Some (c, s') \<and> pools_inv N A s' (insert c U)"
proof -
  have ct: "clist (ps_next s) (cp_free (ps_pool s t)) (c # xs)" "cp_free_n (ps_pool s t) = of_nat (length (c # xs))"
    using r t unfolding represents_def f [symmetric] by blast+
  let ?p = "(ps_pool s t)\<lparr>cp_free := ps_next s c, cp_free_n := cp_free_n (ps_pool s t) - 1, cp_used_n := cp_used_n (ps_pool s t) + 1\<rparr>"
  have "represents N (s\<lparr>ps_pool := (ps_pool s)(t := ?p)\<rparr>) (F(t := xs)) G"
    by (rule represents_own [OF r]) (use ct in simp_all)
  moreover have "balanced ?p" using b t by (auto simp: balanced_def)
  ultimately show ?thesis using parts_take [OF p t f] b by (auto simp: pool_out_conn_def pools_inv_def)
qed

lemma clist_upd_other: "clist nxt p xs \<Longrightarrow> a \<notin> set xs \<Longrightarrow> clist (nxt(a := v)) p xs"
  by simp

lemma conn_pool_free_connection_ok:
  assumes inv: "pools_inv N A s U" and t: "t < N" and c: "c \<in> U"
  shows "\<exists>s'. conn_pool_free_connection t c s = Some s' \<and> pools_inv N A s' (U - {c})"
proof -
  obtain F G where r: "represents N s F G" and p: "parts N F G U A" and b: "\<forall>t<N. balanced (ps_pool s t)"
    using inv by (auto simp: pools_inv_def)
  have n: "c \<noteq> nullptr" using parts_all(2) [OF p c] p unfolding parts_def by metis
  have ng: "c \<notin> set G" using parts_apart(4) [OF p] c by blast
  have nf: "c \<notin> set (F u)" if "u < N" for u using parts_apart(3) [OF p that] c by blast
  have r': "represents N (s\<lparr>ps_next := (ps_next s)(c := v)\<rparr>) F G" for v
    using r nf ng by (simp add: represents_def)
  show ?thesis
  proof (cases "cp_change_n (ps_pool s t) > 0")
    case True
    let ?p = "(ps_pool s t)\<lparr>cp_used_n := cp_used_n (ps_pool s t) - 1, cp_change_n := cp_change_n (ps_pool s t) - 1\<rparr>"
    let ?s = "s\<lparr>ps_next := (ps_next s)(c := cp_free (ps_comm s)),
                 ps_comm := (ps_comm s)\<lparr>cp_free_n := cp_free_n (ps_comm s) + 1, cp_free := c\<rparr>,
                 ps_pool := (ps_pool s)(t := ?p)\<rparr>"
    have "conn_pool_free_connection t c s = Some ?s"
      using True n by (simp add: conn_pool_free_connection_def put_comm_conn_def Let_def)
    moreover have "represents N ?s F (c # G)"
      using r nf ng n by (auto simp: represents_def)
    moreover have "balanced ?p" using b t True by (auto simp: balanced_def add_diff_eq)
    ultimately show ?thesis using parts_put(2) [OF p t c] b by (auto simp: pools_inv_def)
  next
    case False
    let ?p = "(ps_pool s t)\<lparr>cp_free := c, cp_free_n := cp_free_n (ps_pool s t) + 1, cp_used_n := cp_used_n (ps_pool s t) - 1\<rparr>"
    let ?s = "s\<lparr>ps_next := (ps_next s)(c := cp_free (ps_pool s t)), ps_pool := (ps_pool s)(t := ?p)\<rparr>"
    have "conn_pool_free_connection t c s = Some ?s"
      using False n by (simp add: conn_pool_free_connection_def Let_def)
    moreover have "represents N ?s (F(t := c # F t)) G"
      using r nf ng n t by (auto simp: represents_def)
    moreover have "balanced ?p" using b t by (auto simp: balanced_def)
    ultimately show ?thesis using parts_put(1) [OF p t c] b by (auto simp: pools_inv_def)
  qed
qed

lemma get_comm_conn_ok:
  assumes r: "represents N s F G" and p: "parts N F G U A" and n: "0 < unat n" 
  shows "\<exists>s'. let k = min (unat n) (length G) in
     get_comm_conn n s = Some (cp_free (ps_comm s), of_nat k, s') \<and> ps_pool s' = ps_pool s \<and>
     clist (ps_next s') (cp_free (ps_comm s)) (take k G) \<and>
     (\<forall>t<N. clist (ps_next s') (cp_free (ps_pool s t)) (F t)) \<and>
     clist (ps_next s') (cp_free (ps_comm s')) (drop k G) \<and> cp_free_n (ps_comm s') = of_nat (length G - k)"
proof -
  have g: "clist (ps_next s) (cp_free (ps_comm s)) G" "cp_free_n (ps_comm s) = of_nat (length G)" "length G < 2 ^ 31"
    using r parts_length(2) [OF p] by (auto simp: represents_def)
  hence un: "unat (cp_free_n (ps_comm s)) = length G" by (simp add: unsigned_of_nat take_bit_nat_eq_self)
  consider "G = []" | "G \<noteq> []" "length G \<le> unat n" | "unat n < length G" by linarith
  thus ?thesis
  proof cases
    case 1
    thus ?thesis using g r by (auto simp: get_comm_conn_def represents_def Let_def)
  next
    case 2
    have "cp_free_n (ps_comm s) \<noteq> 0" using 2 un by auto
    moreover have "cp_free_n (ps_comm s) \<le> n" using 2 un by (simp add: word_le_nat_alt)
    ultimately show ?thesis using 2 g r by (auto simp: get_comm_conn_def represents_def min_def Let_def)
  next
    case 3
    have nz: "cp_free_n (ps_comm s) \<noteq> 0" "\<not> cp_free_n (ps_comm s) \<le> n" using 3 un by (auto simp: word_le_nat_alt)
    obtain p' where w: "comm_walk (ps_next s) (cp_free (ps_comm s)) (cp_free (ps_comm s)) (unat n) = (G ! (unat n - 1), p')"
      "clist (ps_next s) p' (drop (unat n) G)"
      using clist_walk [OF g(1), of "unat n"] 3 n by fastforce
    let ?l = "G ! (unat n - 1)"
    have l: "?l \<in> set G" "?l \<noteq> nullptr" "?l \<notin> set (drop (unat n) G)"
    proof -
      show "?l \<in> set G" using 3 by simp
      thus "?l \<noteq> nullptr" using clist_nonnull [OF g(1)] by metis
      show "?l \<notin> set (drop (unat n) G)"
        using parts_distinct(2) [OF p] 3 n by (auto simp: in_set_conv_nth nth_eq_iff_index_eq)
    qed
    have "clist ((ps_next s)(?l := nullptr)) (cp_free (ps_comm s)) (take (unat n) G)"
      using clist_cut [OF g(1) parts_distinct(2) [OF p], of "unat n - 1"] 3 n by simp
    moreover have "?l \<notin> set (F t)" if "t < N" for t using parts_apart(2) [OF p that] l(1) by blast
    moreover have "cp_free_n (ps_comm s) - n = of_nat (length G - unat n)"
      using 3 g(2) by (simp add: of_nat_diff)
    ultimately show ?thesis
      using nz w l 3 r by (auto simp: get_comm_conn_def represents_def Let_def min_def)
  qed
qed

lemma word_of_pos: "0 \<le> y \<Longrightarrow> y \<le> 2 ^ 31 \<Longrightarrow> unat (word_of_int y :: u32) = nat y"
  by (simp add: unsigned_of_int take_bit_int_eq_self)

lemma word_of_neg: "- (2 ^ 31) \<le> x \<Longrightarrow> x < 0 \<Longrightarrow> unat (word_of_int (- x) :: u32) = nat (- x)"
  by (rule word_of_pos) auto

lemma of_nat_zero: "n < 2 ^ 31 \<Longrightarrow> (of_nat n :: u32) = 0 \<longleftrightarrow> n = 0"
  by (auto simp: word_of_nat_eq_0_iff dest: dvd_imp_le)

lemma conn_pool_get_connection_ok:
  assumes inv: "pools_inv N A s U" and t: "t < N"
    and safe: "cp_free_n (ps_pool s t) \<noteq> 0 \<or> - (2 ^ 31) < cp_change_n (ps_pool s t)"
  shows "\<exists>c s'. conn_pool_get_connection t s = Some (c, s') \<and>
     (c = nullptr \<and> pools_inv N A s' U \<or> c \<in> A - U \<and> pools_inv N A s' (insert c U)) \<and>
     (c = nullptr \<longleftrightarrow> cp_free_n (ps_pool s t) = 0 \<and> (cp_change_n (ps_pool s t) \<ge> 0 \<or> cp_free_n (ps_comm s) = 0))"
proof -
  obtain F G where r: "represents N s F G" and p: "parts N F G U A" and b: "\<forall>t<N. balanced (ps_pool s t)"
    using inv by (auto simp: pools_inv_def)
  have ct: "clist (ps_next s) (cp_free (ps_pool s t)) (F t)" "cp_free_n (ps_pool s t) = of_nat (length (F t))"
    using r t by (auto simp: represents_def)
  have z: "cp_free_n (ps_pool s t) = 0 \<longleftrightarrow> F t = []" "cp_free_n (ps_comm s) = 0 \<longleftrightarrow> G = []"
    using r t parts_length(1) [OF p t] parts_length(2) [OF p] by (auto simp: represents_def of_nat_zero)
  have nA: "nullptr \<notin> A" using p by (simp add: parts_def)
  show ?thesis
  proof (cases "F t")
    case (Cons c xs)
    have "cp_free (ps_pool s t) = c" "c \<noteq> nullptr" using ct(1) by (auto simp: Cons)
    moreover have "c \<in> A - U" using parts_all(1) [OF p t, of c] parts_apart(3) [OF p t, of c] by (simp add: Cons)
    ultimately show ?thesis
      using pool_out_conn_ok [OF r p t Cons b] z Cons by (auto simp: conn_pool_get_connection_def Let_def)
  next
    case Nil
    have free: "cp_free (ps_pool s t) = nullptr" using ct(1) Nil by simp
    show ?thesis
    proof (cases "cp_change_n (ps_pool s t) \<ge> 0")
      case True
      thus ?thesis using free inv z Nil by (auto simp: conn_pool_get_connection_def Let_def)
    next
      case False
      let ?ch = "cp_change_n (ps_pool s t)" let ?n = "word_of_int (- ?ch) :: u32"
      have ch: "- (2 ^ 31) \<le> ?ch" "?ch < 0" using b t False by (auto simp: balanced_def)
      have neg: "chk_int32 (- ?ch) = Some (- ?ch)" using safe z(1) Nil ch by (simp add: chk_int32_def)
      have un: "unat ?n = nat (- ?ch)" using word_of_neg [OF ch] .
      define k where "k = min (unat ?n) (length G)"
      obtain s1 where s1: "get_comm_conn ?n s = Some (cp_free (ps_comm s), of_nat k, s1)" "ps_pool s1 = ps_pool s"
        "clist (ps_next s1) (cp_free (ps_comm s)) (take k G)" "\<forall>t<N. clist (ps_next s1) (cp_free (ps_pool s t)) (F t)"
        "clist (ps_next s1) (cp_free (ps_comm s1)) (drop k G)" "cp_free_n (ps_comm s1) = of_nat (length G - k)"
        using get_comm_conn_ok [OF r p, of ?n] un ch unfolding Let_def k_def by auto
      have r1: "represents N s1 F (drop k G)" using s1 r by (auto simp: represents_def)
      have g: "clist (ps_next s) (cp_free (ps_comm s)) G" using r by (simp add: represents_def)
      show ?thesis
      proof (cases "G = []")
        case True
        hence "cp_free (ps_comm s) = nullptr" using g by simp
        moreover have "pools_inv N A s1 U" using r1 p b s1(2) True by (auto simp: pools_inv_def)
        ultimately show ?thesis using free False neg s1(1) z Nil True by (auto simp: conn_pool_get_connection_def Let_def)
      next
        case gne: False
        then obtain c gs where G: "G = c # gs" by (cases G) auto
        have c: "cp_free (ps_comm s) = c" "c \<noteq> nullptr" using g by (auto simp: G)
        have k: "0 < k" "int k \<le> - ?ch" "k < 2 ^ 31"
          using un ch parts_length(2) [OF p] by (auto simp: k_def G)
        have sk: "sint (of_nat k :: u32) = int k"
          using k(3) by (simp add: signed_of_nat signed_take_bit_int_eq_self)
        let ?p = "(ps_pool s1 t)\<lparr>cp_free := c, cp_free_n := cp_free_n (ps_pool s1 t) + of_nat k, cp_change_n := ?ch + int k\<rparr>"
        let ?s = "s1\<lparr>ps_pool := (ps_pool s1)(t := ?p)\<rparr>"
        have r2: "represents N ?s (F(t := take k G)) (drop k G)"
          using s1(2,3) c(1) ct(2) Nil k by (intro represents_own [OF r1]) (auto simp: k_def)
        have p2: "parts N (F(t := take k G)) (drop k G) U A" using parts_grab [of N F "take k G" "drop k G", OF _ t Nil] p by simp
        have "balanced ?p" using b t ch k by (auto simp: balanced_def s1(2) algebra_simps)
        hence b2: "\<forall>u<N. balanced (ps_pool ?s u)" using b s1(2) by auto
        have f2: "(F(t := take k G)) t = c # take (k - 1) gs" using k(1) by (simp add: G take_Cons')
        have "c \<in> A - U" using parts_all(3) [OF p, of c] parts_apart(4) [OF p, of c] by (simp add: G)
        moreover have "chk_int32 (?ch + int k) = Some (?ch + int k)" using ch k by (simp add: chk_int32_def)
        ultimately show ?thesis
          using pool_out_conn_ok [OF r2 p2 t f2 b2] free False neg s1(1,2) c sk z gne by (auto simp: conn_pool_get_connection_def Let_def)
      qed
    qed
  qed
qed

lemma conn_pool_get_connection_overflow:
  assumes inv: "pools_inv N A s U" and t: "t < N"
    and min: "cp_free_n (ps_pool s t) = 0" "cp_change_n (ps_pool s t) = - (2 ^ 31)"
  shows "conn_pool_get_connection t s = None"
proof -
  obtain F G where r: "represents N s F G" and p: "parts N F G U A" using inv by (auto simp: pools_inv_def)
  have "clist (ps_next s) (cp_free (ps_pool s t)) (F t)" "cp_free_n (ps_pool s t) = of_nat (length (F t))"
    using r t by (auto simp: represents_def)
  hence "cp_free (ps_pool s t) = nullptr"
    using min(1) parts_length(1) [OF p t] by (auto simp: of_nat_zero)
  thus ?thesis using min(2) by (simp add: conn_pool_get_connection_def chk_int32_def)
qed

lemma conn_pool_get_connection_cases:
  assumes "pools_inv N A s U" "t < N" "conn_pool_get_connection t s = Some (c, s')"
  shows "c = nullptr \<and> pools_inv N A s' U \<or> c \<in> A - U \<and> pools_inv N A s' (insert c U)"
proof -
  have "- (2 ^ 31) \<le> cp_change_n (ps_pool s t)" using assms(1,2) by (auto simp: pools_inv_def balanced_def)
  hence "cp_free_n (ps_pool s t) \<noteq> 0 \<or> - (2 ^ 31) < cp_change_n (ps_pool s t)"
    using conn_pool_get_connection_overflow [OF assms(1,2)] assms(3) by fastforce
  from conn_pool_get_connection_ok [OF assms(1,2) this] show ?thesis using assms(3) by auto
qed

lemma balanced_shift:
  assumes "balanced p" "- (2 ^ 31) \<le> cp_change_n p + n" "cp_change_n p + n < 2 ^ 31"
  shows "balanced (p\<lparr>cp_change_n := cp_change_n p + n, cp_used_n := cp_used_n p + word_of_int n\<rparr>)"
  using assms by (simp add: balanced_def flip: add.assoc)

lemma conn_pool_in_ok:
  assumes inv: "pools_inv N A s U" and st: "conn_pool_in t n s = Some s'" and t: "t < N"
  shows "pools_inv N A s' U"
proof -
  let ?p = "(ps_pool s t)\<lparr>cp_change_n := cp_change_n (ps_pool s t) + n, cp_used_n := cp_used_n (ps_pool s t) + word_of_int n\<rparr>"
  have s': "s' = s\<lparr>ps_pool := (ps_pool s)(t := ?p)\<rparr>" and "balanced ?p"
    using st inv t balanced_shift [of "ps_pool s t" n]
    by (auto simp: conn_pool_in_def chk_int32_def pools_inv_def bind_eq_Some_conv split: if_splits)
  moreover obtain F G where "represents N s F G" "parts N F G U A" using inv by (auto simp: pools_inv_def)
  moreover from this(1) have "represents N s' F G" unfolding s' by (auto simp: represents_def)
  ultimately show ?thesis using inv by (auto simp: pools_inv_def)
qed

lemma conn_pool_out_in: "conn_pool_out t n s = conn_pool_in t (- n) s"
  by (simp add: conn_pool_out_def conn_pool_in_def)

section \<open>Interleavings\<close>

text \<open>
  A step of a thread: it takes a connection, gives back one that is in use, or moves connections between the
  accounts. The state carries the connections in use.
\<close>

inductive pools_step :: "nat \<Rightarrow> pools_t \<times> addr set \<Rightarrow> pools_t \<times> addr set \<Rightarrow> bool" for N where
  get: "t < N \<Longrightarrow> conn_pool_get_connection t s = Some (c, s') \<Longrightarrow>
          pools_step N (s, U) (s', if c = nullptr then U else insert c U)"
| put: "t < N \<Longrightarrow> c \<in> U \<Longrightarrow> conn_pool_free_connection t c s = Some s' \<Longrightarrow> pools_step N (s, U) (s', U - {c})"
| out: "t < N \<Longrightarrow> conn_pool_out t n s = Some s' \<Longrightarrow> pools_step N (s, U) (s', U)"
| inn: "t < N \<Longrightarrow> conn_pool_in t n s = Some s' \<Longrightarrow> pools_step N (s, U) (s', U)"

inductive_cases pools_stepE: "pools_step N (s, U) (s', U')"

lemma pools_step_inv:
  assumes "pools_step N x y" "pools_inv N A (fst x) (snd x)"
  shows "pools_inv N A (fst y) (snd y)"
  using assms
proof (cases rule: pools_step.cases)
  case (get t s c s' U)
  have n: "c \<in> A - U \<Longrightarrow> c \<noteq> nullptr" using assms(2) unfolding pools_inv_def parts_def by (metis DiffD1)
  show ?thesis using conn_pool_get_connection_cases [OF _ get(3,4)] assms(2) get n by auto
next
  case (put t c U s s')
  thus ?thesis using conn_pool_free_connection_ok [of N A s U t c] assms(2) by auto
next
  case (out t n s s' U)
  thus ?thesis using conn_pool_in_ok [of N A s U t "- n" s'] assms(2) by (simp add: conn_pool_out_in)
next
  case (inn t n s s' U)
  thus ?thesis using conn_pool_in_ok [of N A s U t n s'] assms(2) by simp
qed

lemma pools_steps_inv:
  "(pools_step N)\<^sup>*\<^sup>* x y \<Longrightarrow> pools_inv N A (fst x) (snd x) \<Longrightarrow> pools_inv N A (fst y) (snd y)"
  by (induction rule: rtranclp_induct) (auto intro: pools_step_inv)

section \<open>Initialisation\<close>

lemma init_loop_rest:
  "ps_pool (conn_pool_init_loop k i conn revs wevs s) = ps_pool s \<and> ps_comm (conn_pool_init_loop k i conn revs wevs s) = ps_comm s \<and>
   ((\<forall>j\<ge>i. x \<noteq> conn + j * SIZEOF_CONN) \<longrightarrow> ps_next (conn_pool_init_loop k i conn revs wevs s) x = ps_next s x)"
  by (induction k i conn revs wevs s rule: conn_pool_init_loop.induct) (auto simp: Let_def)

lemma init_loop_clist:
  "conn \<noteq> nullptr \<Longrightarrow> clist (ps_next (conn_pool_init_loop k i conn revs wevs s)) (if k = 0 then nullptr else conn + i * SIZEOF_CONN)
     (map (\<lambda>j. conn + j * SIZEOF_CONN) [i..<i + k])"
proof (induction k i conn revs wevs s rule: conn_pool_init_loop.induct)
  case (2 k i conn revs wevs s)
  let ?s = "s\<lparr>ps_instance := (ps_instance s)(revs + i * SIZEOF_EVENT := True),
                ps_next := (ps_next s)(conn + i * SIZEOF_CONN := (if k = 0 then nullptr else conn + (i + 1) * SIZEOF_CONN)),
                ps_fd := (ps_fd s)(conn + i * SIZEOF_CONN := -1), ps_read := (ps_read s)(conn + i * SIZEOF_CONN := revs + i * SIZEOF_EVENT),
                ps_write := (ps_write s)(conn + i * SIZEOF_CONN := wevs + i * SIZEOF_EVENT),
                ps_timer_event := (ps_timer_event s)(revs + i * SIZEOF_EVENT := False, wevs + i * SIZEOF_EVENT := False)\<rparr>"
  have eq: "conn_pool_init_loop (Suc k) i conn revs wevs s = conn_pool_init_loop k (i + 1) conn revs wevs ?s"
    by (simp add: Let_def)
  have "\<forall>j\<ge>i + 1. conn + i * SIZEOF_CONN \<noteq> conn + j * SIZEOF_CONN" by (auto simp: SIZEOF_CONN_def)
  hence nx: "ps_next (conn_pool_init_loop k (i + 1) conn revs wevs ?s) (conn + i * SIZEOF_CONN) = (if k = 0 then nullptr else conn + (i + 1) * SIZEOF_CONN)"
    using init_loop_rest [of k "i + 1" conn revs wevs ?s "conn + i * SIZEOF_CONN"] by simp
  have "clist (ps_next (conn_pool_init_loop k (i + 1) conn revs wevs ?s)) (if k = 0 then nullptr else conn + (i + 1) * SIZEOF_CONN)
     (map (\<lambda>j. conn + j * SIZEOF_CONN) [i + 1..<i + 1 + k])"
    by (rule "2.IH") (use "2.prems" in simp_all)
  moreover have "[i..<i + Suc k] = i # [i + 1..<i + 1 + k]" by (simp add: upt_conv_Cons)
  ultimately show ?case using "2.prems" nx unfolding eq by simp
qed simp

text \<open>A pool whose list is empty is filled with the connections of a fresh array.\<close>

lemma conn_pool_init_ok:
  assumes inv: "pools_inv N A s U" and t: "t < N" and n: "n \<noteq> 0" and a: "a1 \<noteq> nullptr" "a2 \<noteq> nullptr" "a3 \<noteq> nullptr"
    and p0: "ps_pool s t = pool_zero" and C: "C = (\<lambda>j. a1 + j * SIZEOF_CONN) ` {..<unat n}"
    and fresh: "A \<inter> (\<lambda>j. a1 + j * SIZEOF_CONN) ` UNIV = {}" and small: "card (A \<union> C) < 2 ^ 31"
  shows "\<exists>s'. conn_pool_init t n a1 a2 a3 s = (NGX_OK, s') \<and> pools_inv N (A \<union> C) s' U"
proof -
  obtain F G where r: "represents N s F G" and p: "parts N F G U A" and b: "\<forall>t<N. balanced (ps_pool s t)"
    using inv by (auto simp: pools_inv_def)
  let ?cs = "map (\<lambda>j. a1 + j * SIZEOF_CONN) [0..<unat n]"
  let ?l = "conn_pool_init_loop (unat n) 0 a1 a2 a3 s"
  let ?p = "(ps_pool s t)\<lparr>cp_connection_n := n, cp_connections := a1, cp_read_events := a2, cp_write_events := a3, cp_free := a1, cp_free_n := n\<rparr>"
  let ?s = "?l\<lparr>ps_pool := (ps_pool ?l)(t := ?p)\<rparr>"
  have i: "conn_pool_init t n a1 a2 a3 s = (NGX_OK, ?s)" using n a by (simp add: conn_pool_init_def Let_def)
  have un: "unat n \<noteq> 0" using n by (metis unsigned_eq_0_iff)
  have cl: "clist (ps_next ?l) a1 ?cs" using init_loop_clist [OF a(1), of "unat n" 0 a2 a3 s] un by simp
  have keep: "clist (ps_next ?l) q xs" if "clist (ps_next s) q xs" "set xs \<subseteq> A" for q xs
    using that
  proof (induction "ps_next s" q xs rule: clist.induct)
    case (2 q x xs)
    have "ps_next ?l x = ps_next s x" using init_loop_rest [of "unat n" 0 a1 a2 a3 s x] fresh 2(3) by auto
    thus ?case using 2 by simp
  qed simp
  have "set (F u) \<subseteq> A" if "u < N" for u using parts_all(1) [OF p that] by blast
  moreover have "set G \<subseteq> A" using parts_all(3) [OF p] by blast
  ultimately have "represents N ?l F G" using r keep init_loop_rest [of "unat n" 0 a1 a2 a3 s] unfolding represents_def by auto
  hence r': "represents N ?s (F(t := ?cs)) G" by (rule represents_own) (use cl in simp_all)
  have "clist (ps_next s) nullptr (F t)" using r t p0 by (metis represents_def pool_zero_def conn_pool_t.select_convs(4))
  hence Ft: "F t = []" by (cases "F t") auto
  have dC: "distinct ?cs" by (auto simp: distinct_map inj_on_def SIZEOF_CONN_def)
  have "mset ?cs = mset_set C" using mset_set_set [OF dC] by (simp add: C atLeast0LessThan)
  moreover have "mset_set (A \<union> C) = mset_set A + mset_set C"
    using p fresh by (intro mset_set_Union) (auto simp: parts_def C)
  moreover have "nullptr \<notin> C" using a(1) by (auto simp: C)
  ultimately have "parts N (F(t := ?cs)) G U (A \<union> C)"
    using p free_mset_update [OF t, of F ?cs] small Ft by (simp add: parts_def C ac_simps)
  moreover have "balanced ?p" by (simp add: p0 balanced_def pool_zero_def)
  ultimately show ?thesis using i r' b init_loop_rest [of "unat n" 0 a1 a2 a3 s] by (auto simp: pools_inv_def)
qed

text \<open>C17: In any interleaving of threads that take connections, give back connections that are in use and move
  them between their accounts, every connection stays in exactly one place (the free list of one thread, the common
  pool, or in use), taking and giving back have a result, a connection that is handed out was not in use, none is
  handed out exactly when the own list is empty and nothing may be taken from the common pool, and for every thread
  free + used = all + change. Taking has no result in one state only: when the own list is empty and the account
  stands at the least \<^verbatim>\<open>int\<close>, whose negation overflows.\<close>

theorem conn_pool_conserves:
  assumes "pools_inv N A s U" "(pools_step N)\<^sup>*\<^sup>* (s, U) (s', U')"
  shows "pools_inv N A s' U' \<and>
    (\<forall>t<N. if cp_free_n (ps_pool s' t) = 0 \<and> cp_change_n (ps_pool s' t) = - (2 ^ 31)
       then conn_pool_get_connection t s' = None
       else \<exists>c s''. conn_pool_get_connection t s' = Some (c, s'') \<and> (c = nullptr \<or> c \<in> A - U') \<and>
         (c = nullptr \<longleftrightarrow> cp_free_n (ps_pool s' t) = 0 \<and> (cp_change_n (ps_pool s' t) \<ge> 0 \<or> cp_free_n (ps_comm s') = 0))) \<and>
    (\<forall>t<N. \<forall>c\<in>U'. conn_pool_free_connection t c s' \<noteq> None) \<and>
    (\<forall>t<N. cp_free_n (ps_pool s' t) + cp_used_n (ps_pool s' t) = cp_connection_n (ps_pool s' t) + word_of_int (cp_change_n (ps_pool s' t)))"
proof -
  have inv: "pools_inv N A s' U'" using pools_steps_inv [OF assms(2)] assms(1) by simp
  have b: "- (2 ^ 31) \<le> cp_change_n (ps_pool s' t)" if "t < N" for t
    using inv that by (auto simp: pools_inv_def balanced_def)
  have "if cp_free_n (ps_pool s' t) = 0 \<and> cp_change_n (ps_pool s' t) = - (2 ^ 31)
       then conn_pool_get_connection t s' = None
       else \<exists>c s''. conn_pool_get_connection t s' = Some (c, s'') \<and> (c = nullptr \<or> c \<in> A - U') \<and>
         (c = nullptr \<longleftrightarrow> cp_free_n (ps_pool s' t) = 0 \<and> (cp_change_n (ps_pool s' t) \<ge> 0 \<or> cp_free_n (ps_comm s') = 0))"
    if "t < N" for t
  proof (cases "cp_free_n (ps_pool s' t) = 0 \<and> cp_change_n (ps_pool s' t) = - (2 ^ 31)")
    case True
    thus ?thesis using conn_pool_get_connection_overflow [OF inv that] by simp
  next
    case False
    have "cp_free_n (ps_pool s' t) \<noteq> 0 \<or> - (2 ^ 31) < cp_change_n (ps_pool s' t)" using False b [OF that] by linarith
    from conn_pool_get_connection_ok [OF inv that this] show ?thesis unfolding if_not_P [OF False] by blast
  qed
  moreover have "conn_pool_free_connection t c s' \<noteq> None" if "t < N" "c \<in> U'" for t c
    using conn_pool_free_connection_ok [OF inv that] by auto
  moreover have "cp_free_n (ps_pool s' t) + cp_used_n (ps_pool s' t) = cp_connection_n (ps_pool s' t) + word_of_int (cp_change_n (ps_pool s' t))"
    if "t < N" for t
    using inv that by (simp add: pools_inv_def balanced_def)
  ultimately show ?thesis using inv by blast
qed

text \<open>Two threads; the first pool is initialised with three connections.\<close>

definition pools0 :: pools_t where
  "pools0 = \<lparr>ps_next = \<lambda>_. 0, ps_fd = \<lambda>_. 0, ps_read = \<lambda>_. 0, ps_write = \<lambda>_. 0, ps_instance = \<lambda>_. False,
     ps_timer_event = \<lambda>_. False, ps_pool = \<lambda>_. pool_zero, ps_comm = pool_zero\<rparr>"

lemma pools0_inv: "pools_inv 2 {} pools0 {}"
  by (auto simp: pools_inv_def represents_def parts_def free_mset_def balanced_def pools0_def pool_zero_def
      intro!: exI [of _ "\<lambda>_. []"] exI [of _ "[]"])

theorem conn_pool_conserves_witness:
  "\<exists>s c s'. conn_pool_init 0 3 1000 5000 9000 pools0 = (NGX_OK, s) \<and> conn_pool_get_connection 0 s = Some (c, s') \<and>
     c \<in> {1000, 1184, 1368}"
proof -
  have "{..<unat (3 :: u32)} = {0, 1, 2}" by auto
  hence C: "{1000, 1184, 1368} = (\<lambda>j. 1000 + j * SIZEOF_CONN) ` {..<unat (3 :: u32)}"
    by (simp add: SIZEOF_CONN_def)
  obtain s where s: "conn_pool_init 0 3 1000 5000 9000 pools0 = (NGX_OK, s)" "pools_inv 2 {1000, 1184, 1368} s {}"
    using conn_pool_init_ok [OF pools0_inv, of 0 3 1000 5000 9000, OF _ _ _ _ _ _ C] by (auto simp: pools0_def)
  have "cp_free_n (ps_pool s 0) = 3" using s(1) by (auto simp: conn_pool_init_def Let_def)
  thus ?thesis using conn_pool_conserves [OF s(2) rtranclp.rtrancl_refl] s(1) by (fastforce split: if_splits)
qed
end
