(* ===== verification/Dfs_Rbtree.thy ===== *)
theory Dfs_Rbtree
  imports Dfs_Prelude
begin

text \<open>
  The red-black tree of \<^verbatim>\<open>src/src/core/dfs_rbtree.cpp\<close> on a heap of nodes with child, parent, colour and key
  fields and one shared sentinel, whose parent field the deletion uses. The source writes every case twice,
  once for each side; here the side is a parameter: \<open>rb_ch m L\<close> is the field \<^verbatim>\<open>left\<close>, \<open>rb_ch m R\<close> the field
  \<^verbatim>\<open>right\<close>, and \<open>rotate L\<close>, \<open>rotate R\<close> are \<^verbatim>\<open>rbtree_left_rotate\<close> and \<^verbatim>\<open>rbtree_right_rotate\<close>. A null dereference and a loop
  that does not end have no result. This theory holds the operations; the proofs are in
  \<open>Dfs_Rbtree_Inv\<close> (trees, contexts and the balance invariants), \<open>Dfs_Rbtree_Insert\<close> and \<open>Dfs_Rbtree_Delete\<close>.
\<close>

section \<open>Nodes\<close>

datatype dir = L | R

fun opp :: "dir \<Rightarrow> dir" where
  "opp L = R"
| "opp R = L"

record rbtree_t =
  rb_ch :: "dir \<Rightarrow> addr \<Rightarrow> addr"
  rb_parent :: "addr \<Rightarrow> addr"
  rb_red :: "addr \<Rightarrow> bool"
  rb_key :: "addr \<Rightarrow> int"
  rb_root :: addr
  rb_sentinel :: addr

text \<open>Field accesses through a pointer; the null pointer has no fields.\<close>

definition get :: "(addr \<Rightarrow> 'a) \<Rightarrow> addr \<Rightarrow> 'a option" where
  "get f p = (if p = nullptr then None else Some (f p))"

definition set_ch :: "dir \<Rightarrow> addr \<Rightarrow> addr \<Rightarrow> rbtree_t \<Rightarrow> rbtree_t option" where
  "set_ch d p x m = (if p = nullptr then None else Some (m\<lparr>rb_ch := (rb_ch m)(d := (rb_ch m d)(p := x))\<rparr>))"

definition set_parent :: "addr \<Rightarrow> addr \<Rightarrow> rbtree_t \<Rightarrow> rbtree_t option" where
  "set_parent p x m = (if p = nullptr then None else Some (m\<lparr>rb_parent := (rb_parent m)(p := x)\<rparr>))"

definition set_red :: "addr \<Rightarrow> bool \<Rightarrow> rbtree_t \<Rightarrow> rbtree_t option" where
  "set_red p c m = (if p = nullptr then None else Some (m\<lparr>rb_red := (rb_red m)(p := c)\<rparr>))"

definition set_key :: "addr \<Rightarrow> int \<Rightarrow> rbtree_t \<Rightarrow> rbtree_t option" where
  "set_key p k m = (if p = nullptr then None else Some (m\<lparr>rb_key := (rb_key m)(p := k)\<rparr>))"

definition rbtree_red :: "addr \<Rightarrow> rbtree_t \<Rightarrow> rbtree_t option" where
  "rbtree_red p = set_red p True"

definition rbtree_black :: "addr \<Rightarrow> rbtree_t \<Rightarrow> rbtree_t option" where
  "rbtree_black p = set_red p False"

definition rbtree_sentinel_init :: "addr \<Rightarrow> rbtree_t \<Rightarrow> rbtree_t option" where
  "rbtree_sentinel_init s m = (if s \<noteq> nullptr then rbtree_black s m else Some m)"

definition rbtree_init :: "addr \<Rightarrow> rbtree_t \<Rightarrow> rbtree_t option" where
  "rbtree_init s m = do { m \<leftarrow> rbtree_sentinel_init s m; Some (m\<lparr>rb_root := s, rb_sentinel := s\<rparr>) }"

partial_function (option) rbtree_min :: "rbtree_t \<Rightarrow> addr \<Rightarrow> addr option" where
  "rbtree_min m node =
     do { l \<leftarrow> get (rb_ch m L) node;
          if l \<noteq> rb_sentinel m then rbtree_min m l else Some node }"

section \<open>Rotation\<close>

definition rotate :: "dir \<Rightarrow> addr \<Rightarrow> rbtree_t \<Rightarrow> rbtree_t option" where
  "rotate d node m =
     do { temp \<leftarrow> get (rb_ch m (opp d)) node;
          inner \<leftarrow> get (rb_ch m d) temp;
          m \<leftarrow> set_ch (opp d) node inner m;
          m \<leftarrow> (if inner \<noteq> rb_sentinel m then set_parent inner node m else Some m);
          m \<leftarrow> set_parent temp (rb_parent m node) m;
          m \<leftarrow> (if node = rb_root m then Some (m\<lparr>rb_root := temp\<rparr>)
               else do { c \<leftarrow> get (rb_ch m d) (rb_parent m node);
                         if node = c then set_ch d (rb_parent m node) temp m
                         else set_ch (opp d) (rb_parent m node) temp m });
          m \<leftarrow> set_ch d temp node m;
          set_parent node temp m }"

section \<open>Insertion\<close>

partial_function (option) insert_find :: "rbtree_t \<Rightarrow> addr \<Rightarrow> addr \<Rightarrow> (addr \<times> dir) option" where
  "insert_find m node cur =
     do { k \<leftarrow> get (rb_key m) node;
          k' \<leftarrow> get (rb_key m) cur;
          let d = (if k < k' then L else R);
          x \<leftarrow> get (rb_ch m d) cur;
          if x = rb_sentinel m then Some (cur, d) else insert_find m node x }"

definition rbtree_insert_value :: "addr \<Rightarrow> addr \<Rightarrow> rbtree_t \<Rightarrow> rbtree_t option" where
  "rbtree_insert_value temp node m =
     do { (temp, d) \<leftarrow> insert_find m node temp;
          m \<leftarrow> set_ch d temp node m;
          m \<leftarrow> set_parent node temp m;
          m \<leftarrow> set_ch L node (rb_sentinel m) m;
          m \<leftarrow> set_ch R node (rb_sentinel m) m;
          rbtree_red node m }"

definition rbtree_insert_timer_value :: "addr \<Rightarrow> addr \<Rightarrow> rbtree_t \<Rightarrow> rbtree_t option" where
  "rbtree_insert_timer_value root node m =
     (if root = nullptr \<or> node = nullptr then Some m else rbtree_insert_value root node m)"

text \<open>The loop that restores the balance; \<open>d\<close> is the side of the parent below the grandparent.\<close>

partial_function (option) insert_fix :: "rbtree_t \<Rightarrow> addr \<Rightarrow> rbtree_t option" where
  "insert_fix m node =
     (if node = rb_root m then Some m
      else do {
        p \<leftarrow> get (rb_parent m) node;
        pr \<leftarrow> get (rb_red m) p;
        if \<not> pr then Some m
        else do {
          g \<leftarrow> get (rb_parent m) p;
          gl \<leftarrow> get (rb_ch m L) g;
          let d = (if p = gl then L else R);
          temp \<leftarrow> get (rb_ch m (opp d)) g;
          tr \<leftarrow> get (rb_red m) temp;
          if tr then do {
            m \<leftarrow> rbtree_black p m;
            m \<leftarrow> rbtree_black temp m;
            m \<leftarrow> rbtree_red g m;
            insert_fix m g }
          else do {
            c \<leftarrow> get (rb_ch m (opp d)) p;
            (node, m) \<leftarrow> (if node = c then do { m \<leftarrow> rotate d p m; Some (p, m) } else Some (node, m));
            p \<leftarrow> get (rb_parent m) node;
            m \<leftarrow> rbtree_black p m;
            g \<leftarrow> get (rb_parent m) p;
            m \<leftarrow> rbtree_red g m;
            m \<leftarrow> rotate (opp d) g m;
            insert_fix m node } } })"

text \<open>\<open>insert_value\<close> is the function pointer of the tree.\<close>

definition rbtree_insert :: "(addr \<Rightarrow> addr \<Rightarrow> rbtree_t \<Rightarrow> rbtree_t option) \<Rightarrow> addr \<Rightarrow> rbtree_t \<Rightarrow> rbtree_t option" where
  "rbtree_insert insert_value node m =
     (if rb_root m = rb_sentinel m then
        do { m \<leftarrow> set_parent node nullptr m;
             m \<leftarrow> set_ch L node (rb_sentinel m) m;
             m \<leftarrow> set_ch R node (rb_sentinel m) m;
             m \<leftarrow> rbtree_black node m;
             Some (m\<lparr>rb_root := node\<rparr>) }
      else
        do { m \<leftarrow> insert_value (rb_root m) node m;
             m \<leftarrow> insert_fix m node;
             rbtree_black (rb_root m) m })"

section \<open>Deletion\<close>

text \<open>
  The body of the loop that restores the balance after a black node was taken out above \<open>temp\<close>, which is the
  child of its parent on side \<open>d\<close>: a red sibling is rotated away first, then the nephews decide.
\<close>

definition delete_sibling :: "dir \<Rightarrow> addr \<Rightarrow> rbtree_t \<Rightarrow> (addr \<times> rbtree_t) option" where
  "delete_sibling d temp m =
     do { p \<leftarrow> get (rb_parent m) temp;
          w \<leftarrow> get (rb_ch m (opp d)) p;
          wr \<leftarrow> get (rb_red m) w;
          if wr then do {
            m \<leftarrow> rbtree_black w m;
            m \<leftarrow> rbtree_red p m;
            m \<leftarrow> rotate d p m;
            p \<leftarrow> get (rb_parent m) temp;
            w \<leftarrow> get (rb_ch m (opp d)) p;
            Some (w, m) }
          else Some (w, m) }"

definition delete_nephews :: "dir \<Rightarrow> addr \<Rightarrow> addr \<Rightarrow> rbtree_t \<Rightarrow> (addr \<times> rbtree_t) option" where
  "delete_nephews d temp w m =
     do { wi \<leftarrow> get (rb_ch m d) w;
          ir \<leftarrow> get (rb_red m) wi;
          wo \<leftarrow> get (rb_ch m (opp d)) w;
          orr \<leftarrow> get (rb_red m) wo;
          if \<not> ir \<and> \<not> orr then do {
            m \<leftarrow> rbtree_red w m;
            p \<leftarrow> get (rb_parent m) temp;
            Some (p, m) }
          else do {
            (w, m) \<leftarrow>
              (if \<not> orr then do {
                 m \<leftarrow> rbtree_black wi m;
                 m \<leftarrow> rbtree_red w m;
                 m \<leftarrow> rotate (opp d) w m;
                 p \<leftarrow> get (rb_parent m) temp;
                 w \<leftarrow> get (rb_ch m (opp d)) p;
                 Some (w, m) }
               else Some (w, m));
            p \<leftarrow> get (rb_parent m) temp;
            pr \<leftarrow> get (rb_red m) p;
            m \<leftarrow> set_red w pr m;
            m \<leftarrow> rbtree_black p m;
            wo \<leftarrow> get (rb_ch m (opp d)) w;
            m \<leftarrow> rbtree_black wo m;
            m \<leftarrow> rotate d p m;
            Some (rb_root m, m) } }"

partial_function (option) delete_fix :: "rbtree_t \<Rightarrow> addr \<Rightarrow> rbtree_t option" where
  "delete_fix m temp =
     (if temp = rb_root m then rbtree_black temp m
      else do {
        tr \<leftarrow> get (rb_red m) temp;
        if tr then rbtree_black temp m
        else do {
          p \<leftarrow> get (rb_parent m) temp;
          pl \<leftarrow> get (rb_ch m L) p;
          let d = (if temp = pl then L else R);
          (w, m) \<leftarrow> delete_sibling d temp m;
          (temp, m) \<leftarrow> delete_nephews d temp w m;
          delete_fix m temp } })"

definition clear_node :: "addr \<Rightarrow> rbtree_t \<Rightarrow> rbtree_t option" where
  "clear_node node m =
     do { m \<leftarrow> set_ch L node nullptr m;
          m \<leftarrow> set_ch R node nullptr m;
          m \<leftarrow> set_parent node nullptr m;
          set_key node 0 m }"

text \<open>The node that leaves its place (\<open>subst\<close>) and the one that moves up to it (\<open>temp\<close>).\<close>

definition delete_pick :: "addr \<Rightarrow> rbtree_t \<Rightarrow> (addr \<times> addr) option" where
  "delete_pick node m =
     do { l \<leftarrow> get (rb_ch m L) node;
          r \<leftarrow> get (rb_ch m R) node;
          if l = rb_sentinel m then Some (node, r)
          else if r = rb_sentinel m then Some (node, l)
          else do { subst \<leftarrow> rbtree_min m r;
                    sl \<leftarrow> get (rb_ch m L) subst;
                    sr \<leftarrow> get (rb_ch m R) subst;
                    Some (subst, if sl \<noteq> rb_sentinel m then sl else sr) } }"

text \<open>\<open>subst\<close> takes the place of \<open>node\<close>.\<close>

definition replace_node :: "addr \<Rightarrow> addr \<Rightarrow> rbtree_t \<Rightarrow> rbtree_t option" where
  "replace_node node subst m =
     do { m \<leftarrow> set_ch L subst (rb_ch m L node) m;
          m \<leftarrow> set_ch R subst (rb_ch m R node) m;
          m \<leftarrow> set_parent subst (rb_parent m node) m;
          m \<leftarrow> set_red subst (rb_red m node) m;
          m \<leftarrow> (if node = rb_root m then Some (m\<lparr>rb_root := subst\<rparr>)
               else do { c \<leftarrow> get (rb_ch m L) (rb_parent m node);
                         if node = c then set_ch L (rb_parent m node) subst m
                         else set_ch R (rb_parent m node) subst m });
          m \<leftarrow> (if rb_ch m L subst \<noteq> rb_sentinel m then set_parent (rb_ch m L subst) subst m else Some m);
          if rb_ch m R subst \<noteq> rb_sentinel m then set_parent (rb_ch m R subst) subst m else Some m }"

definition delete_replace :: "addr \<Rightarrow> addr \<Rightarrow> addr \<Rightarrow> rbtree_t \<Rightarrow> rbtree_t option" where
  "delete_replace node subst temp m =
     do { sp \<leftarrow> get (rb_parent m) subst;
          m \<leftarrow> (if sp = node then set_parent temp subst m else set_parent temp sp m);
          replace_node node subst m }"

definition rbtree_delete :: "addr \<Rightarrow> rbtree_t \<Rightarrow> rbtree_t option" where
  "rbtree_delete node m =
     do { (subst, temp) \<leftarrow> delete_pick node m;
          if subst = rb_root m then
            do { m \<leftarrow> rbtree_black temp (m\<lparr>rb_root := temp\<rparr>); clear_node node m }
          else
            do { red \<leftarrow> get (rb_red m) subst;
                 sp \<leftarrow> get (rb_parent m) subst;
                 c \<leftarrow> get (rb_ch m L) sp;
                 m \<leftarrow> (if subst = c then set_ch L sp temp m else set_ch R sp temp m);
                 m \<leftarrow> (if subst = node then set_parent temp (rb_parent m subst) m
                      else delete_replace node subst temp m);
                 m \<leftarrow> clear_node node m;
                 if red then Some m else delete_fix m temp } }"

end
