(* ===== verification/Dfs_Rbtree_Inv.thy ===== *)
theory Dfs_Rbtree_Inv
  imports Dfs_Rbtree
begin

text \<open>
  The abstraction of the heap of \<open>Dfs_Rbtree\<close>: a tree of node entries (address, colour, key), the contexts of a
  subtree (the path to the root with the siblings), the predicates that say that the heap holds a tree in
  a context, with their frame lemmas, and the red-black invariants of trees and contexts. The rotation is
  shown to rotate the tree at any place.
\<close>

section \<open>Trees and contexts\<close>

type_synonym ent = "addr \<times> bool \<times> int"

datatype rbt = Leaf | Node rbt ent rbt

text \<open>\<open>nd d t e u\<close> has \<open>t\<close> on side \<open>d\<close>.\<close>

definition nd :: "dir \<Rightarrow> rbt \<Rightarrow> ent \<Rightarrow> rbt \<Rightarrow> rbt" where
  "nd d t e u = (case d of L \<Rightarrow> Node t e u | R \<Rightarrow> Node u e t)"

type_synonym ctx = "(dir \<times> ent \<times> rbt) list"

fun plug :: "ctx \<Rightarrow> rbt \<Rightarrow> rbt" where
  "plug [] t = t"
| "plug ((d, e, sib) # C) t = plug C (nd d t e sib)"

text \<open>The entries from left to right, without their colours.\<close>

fun inorder :: "rbt \<Rightarrow> (addr \<times> int) list" where
  "inorder Leaf = []"
| "inorder (Node l (a, c, k) r) = inorder l @ (a, k) # inorder r"

fun addrs :: "rbt \<Rightarrow> addr set" where
  "addrs Leaf = {}"
| "addrs (Node l e r) = insert (fst e) (addrs l \<union> addrs r)"

fun tdist :: "rbt \<Rightarrow> bool" where
  "tdist Leaf = True"
| "tdist (Node l e r) \<longleftrightarrow>
     fst e \<notin> addrs l \<and> fst e \<notin> addrs r \<and> addrs l \<inter> addrs r = {} \<and> tdist l \<and> tdist r"

fun caddrs :: "ctx \<Rightarrow> addr set" where
  "caddrs [] = {}"
| "caddrs ((d, e, sib) # C) = insert (fst e) (addrs sib \<union> caddrs C)"

fun cdist :: "ctx \<Rightarrow> bool" where
  "cdist [] = True"
| "cdist ((d, e, sib) # C) \<longleftrightarrow>
     fst e \<notin> addrs sib \<and> fst e \<notin> caddrs C \<and> addrs sib \<inter> caddrs C = {} \<and> tdist sib \<and> cdist C"

section \<open>Heap predicates\<close>

fun tree_at :: "rbtree_t \<Rightarrow> addr \<Rightarrow> addr \<Rightarrow> rbt \<Rightarrow> bool" where
  "tree_at m p x Leaf \<longleftrightarrow> x = rb_sentinel m"
| "tree_at m p x (Node l (a, c, k) r) \<longleftrightarrow>
     x = a \<and> a \<noteq> nullptr \<and> a \<noteq> rb_sentinel m \<and> rb_parent m a = p \<and> rb_red m a = c \<and> rb_key m a = k \<and>
     tree_at m a (rb_ch m L a) l \<and> tree_at m a (rb_ch m R a) r"

text \<open>The context of the subtree at \<open>x\<close>, whose parent is \<open>p\<close>; the parent of the root is not constrained.\<close>

fun ctx_at :: "rbtree_t \<Rightarrow> ctx \<Rightarrow> addr \<Rightarrow> addr \<Rightarrow> bool" where
  "ctx_at m [] p x \<longleftrightarrow> rb_root m = x"
| "ctx_at m ((d, (a, c, k), sib) # C) p x \<longleftrightarrow>
     p = a \<and> a \<noteq> nullptr \<and> a \<noteq> rb_sentinel m \<and> rb_ch m d a = x \<and> rb_red m a = c \<and> rb_key m a = k \<and>
     tree_at m a (rb_ch m (opp d) a) sib \<and> ctx_at m C (rb_parent m a) a"

definition zip_at :: "rbtree_t \<Rightarrow> ctx \<Rightarrow> addr \<Rightarrow> rbt \<Rightarrow> bool" where
  "zip_at m C x t \<longleftrightarrow>
     rb_sentinel m \<noteq> nullptr \<and> \<not> rb_red m (rb_sentinel m) \<and>
     tdist t \<and> cdist C \<and> addrs t \<inter> caddrs C = {} \<and>
     (\<exists>p. tree_at m p x t \<and> ctx_at m C p x)"

definition rtree :: "rbtree_t \<Rightarrow> rbt \<Rightarrow> bool" where
  "rtree m t \<longleftrightarrow> zip_at m [] (rb_root m) t"

section \<open>Basic lemmas\<close>

lemma opp_opp [simp]: "opp (opp d) = d"
  by (cases d) auto

lemma opp_neq [simp]: "opp d \<noteq> d" "d \<noteq> opp d"
  by (cases d; simp)+

lemma nd_opp: "nd (opp d) t e u = nd d u e t"
  by (cases d) (auto simp: nd_def)

lemma nd_cases: obtains (Leaf) "t = Leaf" | (nd) a c k x y where "t = nd d x (a, c, k) y"
proof (cases t)
  case (Node l e r)
  obtain a c k where "e = (a, c, k)" by (cases e)
  thus ?thesis using that(2) [of "case d of L \<Rightarrow> l | R \<Rightarrow> r" a c k "case d of L \<Rightarrow> r | R \<Rightarrow> l"] Node
    by (cases d) (auto simp: nd_def)
qed (use that in simp)

lemma nd_neq_Leaf [simp]: "nd d x e y \<noteq> Leaf" "Leaf \<noteq> nd d x e y"
  by (cases d; simp add: nd_def)+

lemma addrs_nd [simp]: "addrs (nd d t e u) = insert (fst e) (addrs t \<union> addrs u)"
  by (cases d) (auto simp: nd_def)

lemma tdist_nd [simp]:
  "tdist (nd d t e u) \<longleftrightarrow>
     fst e \<notin> addrs t \<and> fst e \<notin> addrs u \<and> addrs t \<inter> addrs u = {} \<and> tdist t \<and> tdist u"
  by (cases d) (auto simp: nd_def)

lemma tree_at_nd [simp]:
  "tree_at m p x (nd d t (a, c, k) u) \<longleftrightarrow>
     x = a \<and> a \<noteq> nullptr \<and> a \<noteq> rb_sentinel m \<and> rb_parent m a = p \<and> rb_red m a = c \<and> rb_key m a = k \<and>
     tree_at m a (rb_ch m d a) t \<and> tree_at m a (rb_ch m (opp d) a) u"
  by (cases d) (auto simp: nd_def)

lemma tree_at_root: "tree_at m p x t \<Longrightarrow> x = rb_sentinel m \<and> t = Leaf \<or> x \<in> addrs t \<and> x \<noteq> rb_sentinel m \<and> x \<noteq> nullptr"
  by (cases t; cases "case t of Node l e r \<Rightarrow> e") auto

lemma tree_at_parent: "tree_at m p x t \<Longrightarrow> t \<noteq> Leaf \<Longrightarrow> rb_parent m x = p"
  by (cases t; cases "case t of Node l e r \<Rightarrow> e") auto

lemma tree_at_addrs: "tree_at m p x t \<Longrightarrow> a \<in> addrs t \<Longrightarrow> a \<noteq> nullptr \<and> a \<noteq> rb_sentinel m"
  by (induction m p x t rule: tree_at.induct) auto

lemma ctx_at_addrs: "ctx_at m C p x \<Longrightarrow> a \<in> caddrs C \<Longrightarrow> a \<noteq> nullptr \<and> a \<noteq> rb_sentinel m"
  by (induction m C p x rule: ctx_at.induct) (auto dest: tree_at_addrs)

text \<open>Frame: a tree depends on the fields of its own nodes only.\<close>

definition agree :: "addr set \<Rightarrow> rbtree_t \<Rightarrow> rbtree_t \<Rightarrow> bool" where
  "agree A m m' \<longleftrightarrow> rb_sentinel m' = rb_sentinel m \<and>
     (\<forall>a\<in>A. (\<forall>d. rb_ch m' d a = rb_ch m d a) \<and> rb_parent m' a = rb_parent m a \<and>
            rb_red m' a = rb_red m a \<and> rb_key m' a = rb_key m a)"

lemma agree_mono: "agree B m m' \<Longrightarrow> A \<subseteq> B \<Longrightarrow> agree A m m'"
  by (auto simp: agree_def)

lemma tree_at_agree: "agree (addrs t) m m' \<Longrightarrow> tree_at m' p x t = tree_at m p x t"
proof (induction m p x t rule: tree_at.induct)
  case (2 m p x l a c k r)
  have "agree (addrs l) m m'" "agree (addrs r) m m'"
    using 2(3) by (auto elim: agree_mono)
  thus ?case using 2 by (auto simp: agree_def)
qed (simp add: agree_def)

lemma ctx_at_agree:
  "agree (caddrs C) m m' \<Longrightarrow> rb_root m' = rb_root m \<Longrightarrow> ctx_at m' C p x = ctx_at m C p x"
proof (induction m C p x rule: ctx_at.induct)
  case (2 m d a c k sib C p x)
  have "agree (addrs sib) m m'" "agree (caddrs C) m m'"
    using 2(2) by (auto elim: agree_mono)
  thus ?case
    using 2(1,3) 2(2) tree_at_agree [of sib m m'] by (auto simp: agree_def)
qed simp

lemma tree_at_reparent:
  assumes "tree_at m p x t" "tdist t" "agree (addrs t - {x}) m m'" "rb_sentinel m' = rb_sentinel m"
    "t \<noteq> Leaf \<Longrightarrow> rb_parent m' x = p' \<and> (\<forall>d. rb_ch m' d x = rb_ch m d x) \<and> rb_red m' x = rb_red m x \<and> rb_key m' x = rb_key m x"
  shows "tree_at m' p' x t"
proof (cases t)
  case Leaf
  thus ?thesis using assms by simp
next
  case (Node l e r)
  obtain a c k where e: "e = (a, c, k)" by (cases e)
  have "x = a" using assms(1) by (simp add: Node e)
  hence "agree (addrs l) m m'" "agree (addrs r) m m'"
    using assms(2,3) by (auto simp: Node e intro: agree_mono)
  thus ?thesis
    using assms(1,4,5) tree_at_agree [of l m m'] tree_at_agree [of r m m'] by (auto simp: Node e)
qed

lemma ctx_at_root: "ctx_at m C p x \<Longrightarrow> rb_root m = x \<and> C = [] \<or> rb_root m \<in> caddrs C \<and> C \<noteq> []"
proof (induction m C p x rule: ctx_at.induct)
  case (2 m d a c k sib C p x)
  thus ?case by auto
qed simp

text \<open>The link from the context to the subtree is replaced; \<open>p\<close> is the parent of the subtree.\<close>

lemma ctx_at_relink:
  assumes "ctx_at m C p x" "cdist C" "agree (caddrs C - {p}) m m'"
    and "C = [] \<Longrightarrow> rb_root m' = x'" "C \<noteq> [] \<Longrightarrow> rb_root m' = rb_root m"
    and "\<And>d e sib D. C = (d, e, sib) # D \<Longrightarrow>
           rb_ch m' d p = x' \<and> rb_ch m' (opp d) p = rb_ch m (opp d) p \<and> rb_parent m' p = rb_parent m p \<and>
           rb_red m' p = rb_red m p \<and> rb_key m' p = rb_key m p"
  shows "ctx_at m' C p x'"
proof (cases C)
  case Nil
  thus ?thesis using assms(4) by simp
next
  case (Cons f D)
  obtain d a c k sib where f: "f = (d, (a, c, k), sib)" by (cases f) auto
  have p: "p = a" using assms(1) by (simp add: Cons f)
  have "agree (addrs sib) m m'" "agree (caddrs D) m m'"
    using assms(2,3) by (auto simp: Cons f p elim!: agree_mono)
  thus ?thesis
    using assms(1,3,5) assms(6) [OF Cons [unfolded f]] tree_at_agree [of sib m m'] ctx_at_agree [of D m m']
    by (auto simp: Cons f p agree_def)
qed

text \<open>Moving the focus between a node and one of its children.\<close>

lemma zip_at_down: "zip_at m C a (nd d t (a, c, k) u) \<Longrightarrow> zip_at m ((d, (a, c, k), u) # C) (rb_ch m d a) t"
  by (auto simp: zip_at_def)

lemma zip_at_up: "zip_at m ((d, (a, c, k), u) # C) x t \<Longrightarrow> x = rb_ch m d a \<and> zip_at m C a (nd d t (a, c, k) u)"
  by (auto simp: zip_at_def)

lemma zip_at_plug: "(\<exists>x. zip_at m C x t) \<longleftrightarrow> rtree m (plug C t)"
proof (induction C arbitrary: t)
  case Nil
  show ?case by (auto simp: rtree_def zip_at_def)
next
  case (Cons f C)
  obtain d a c k sib where f: "f = (d, (a, c, k), sib)" by (cases f) auto
  have "(\<exists>x. zip_at m (f # C) x t) \<longleftrightarrow> (\<exists>x. zip_at m C x (nd d t (a, c, k) sib))"
    unfolding f by (metis zip_at_down zip_at_up tree_at_nd zip_at_def)
  thus ?case using Cons by (simp add: f)
qed

section \<open>Rotation\<close>

lemma rotate_eq:
  assumes "a \<noteq> nullptr" "b \<noteq> nullptr" "rb_ch m (opp d) a = b" "rb_ch m d b = i" "i \<noteq> nullptr"
    and "a = rb_root m \<or> rb_parent m a \<noteq> nullptr \<and> rb_ch m d2 (rb_parent m a) = a \<and> rb_ch m (opp d2) (rb_parent m a) \<noteq> a"
    and "a \<noteq> rb_root m \<Longrightarrow> rb_parent m a \<noteq> a" "i \<noteq> a" "a \<noteq> b"
  shows "rotate d a m = Some (m\<lparr>
      rb_ch := (\<lambda>e x. if x = b \<and> e = d then a else if a \<noteq> rb_root m \<and> x = rb_parent m a \<and> e = d2 then b
                      else if x = a \<and> e = opp d then i else rb_ch m e x),
      rb_parent := (\<lambda>x. if x = a then b else if x = b then rb_parent m a
                        else if x = i \<and> i \<noteq> rb_sentinel m then a else rb_parent m x),
      rb_root := (if a = rb_root m then b else rb_root m)\<rparr>)"
proof (cases "a = rb_root m")
  case True
  thus ?thesis using assms(1-5,8,9)
    by (cases d) (simp_all add: rotate_def get_def set_ch_def set_parent_def fun_eq_iff)
next
  case False
  have "d2 = d \<or> d2 = opp d" by (cases d; cases d2) simp_all
  thus ?thesis using assms False
    by (cases d) (auto simp: rotate_def get_def set_ch_def set_parent_def fun_eq_iff)
qed

definition same_data :: "rbtree_t \<Rightarrow> rbtree_t \<Rightarrow> bool" where
  "same_data m m' \<longleftrightarrow> rb_red m' = rb_red m \<and> rb_key m' = rb_key m \<and> rb_sentinel m' = rb_sentinel m \<and>
     rb_parent m' (rb_sentinel m) = rb_parent m (rb_sentinel m)"

lemma ctx_at_link:
  assumes "ctx_at m C p x" "C \<noteq> []" "x \<notin> caddrs C"
  shows "p \<in> caddrs C" "p \<noteq> nullptr" "p \<noteq> rb_sentinel m" "rb_ch m (fst (hd C)) p = x"
    "x \<noteq> rb_sentinel m \<Longrightarrow> rb_ch m (opp (fst (hd C))) p \<noteq> x" "p \<noteq> x"
proof -
  obtain d a c k sib D where C: "C = (d, (a, c, k), sib) # D"
    using assms(2) by (metis list.exhaust prod_cases3 prod.collapse)
  show "p \<in> caddrs C" "p \<noteq> nullptr" "p \<noteq> rb_sentinel m" "rb_ch m (fst (hd C)) p = x" "p \<noteq> x"
    using assms(1,3) by (auto simp: C)
  show "rb_ch m (opp (fst (hd C))) p \<noteq> x" if "x \<noteq> rb_sentinel m"
    using assms(1,3) that tree_at_root [of m a "rb_ch m (opp d) a" sib] by (auto simp: C)
qed

lemma rotate_zip:
  assumes z: "zip_at m C a (nd d x (a, c, k) (nd d y (b, c', k') z))"
  shows "\<exists>m'. rotate d a m = Some m' \<and> same_data m m' \<and>
           zip_at m' C b (nd d (nd d x (a, c, k) y) (b, c', k') z)"
proof -
  define i where "i = rb_ch m d b"
  define p where "p = rb_parent m a"
  from z have s0: "rb_sentinel m \<noteq> nullptr" "\<not> rb_red m (rb_sentinel m)"
    and t: "tree_at m p a (nd d x (a, c, k) (nd d y (b, c', k') z))"
    and ctx: "ctx_at m C p a"
    and dist: "tdist (nd d x (a, c, k) (nd d y (b, c', k') z))" "cdist C" "({a,b} \<union> addrs x \<union> addrs y \<union> addrs z) \<inter> caddrs C = {}"
    unfolding zip_at_def p_def by (auto simp del: tdist_nd simp: Int_Un_distrib2)
  from t have f: "a \<noteq> nullptr" "b \<noteq> nullptr" "a \<noteq> rb_sentinel m" "b \<noteq> rb_sentinel m" "rb_ch m (opp d) a = b"
    "rb_red m a = c" "rb_key m a = k" "rb_red m b = c'" "rb_key m b = k'" "rb_parent m b = a"
    and tx: "tree_at m a (rb_ch m d a) x" and ty: "tree_at m b i y" and tz: "tree_at m b (rb_ch m (opp d) b) z"
    by (auto simp: i_def)
  have ab: "a \<noteq> b" using dist(1) by simp
  have i: "i \<noteq> nullptr" "i \<noteq> a" "i \<noteq> b" "i \<in> addrs y \<or> i = rb_sentinel m \<and> y = Leaf"
    using tree_at_root [OF ty] s0 dist(1) f by auto
  define d2 where "d2 = fst (hd C)"
  have root: "a = rb_root m \<longleftrightarrow> C = []" using ctx_at_root [OF ctx] dist(3) by auto
  have "a \<notin> caddrs C" using dist(3) by blast
  note pc = ctx_at_link [OF ctx _ this, folded d2_def]
  have pa: "p \<noteq> a" if "a \<noteq> rb_root m" using that pc(6) root by blast
  let ?m = "m\<lparr>
      rb_ch := (\<lambda>e x. if x = b \<and> e = d then a else if a \<noteq> rb_root m \<and> x = rb_parent m a \<and> e = d2 then b
                      else if x = a \<and> e = opp d then i else rb_ch m e x),
      rb_parent := (\<lambda>x. if x = a then b else if x = b then rb_parent m a
                        else if x = i \<and> i \<noteq> rb_sentinel m then a else rb_parent m x),
      rb_root := (if a = rb_root m then b else rb_root m)\<rparr>"
  have rot: "rotate d a m = Some ?m"
  proof (rule rotate_eq)
    show "a = rb_root m \<or> rb_parent m a \<noteq> nullptr \<and> rb_ch m d2 (rb_parent m a) = a \<and> rb_ch m (opp d2) (rb_parent m a) \<noteq> a"
      using root pc(2,4,5) f(3) unfolding p_def by blast
    show "a \<noteq> rb_root m \<Longrightarrow> rb_parent m a \<noteq> a" using pa unfolding p_def .
  qed (fact f(1) f(2) f(5) i(1) i(2) ab i_def [symmetric])+
  have pn: "p \<notin> addrs x" "p \<notin> addrs y" "p \<notin> addrs z" "p \<noteq> b" if "C \<noteq> []"
    using pc(1) [OF that] dist(3) by blast+
  have n: "a \<notin> addrs x" "b \<notin> addrs x" "i \<notin> addrs x \<or> i = rb_sentinel m" "a \<notin> addrs z" "b \<notin> addrs z"
    "i \<notin> addrs z \<or> i = rb_sentinel m" "a \<notin> addrs y" "b \<notin> addrs y"
    using dist(1) i(4) by auto
  have "agree (addrs x) m ?m" "agree (addrs z) m ?m" "agree (addrs y - {i}) m ?m"
    unfolding agree_def using n pn(1-3) root by (auto simp: p_def)
  note ag = this
  have "tree_at ?m a (rb_ch m d a) x"
    by (rule tree_at_agree [OF ag(1), THEN iffD2, OF tx])
  moreover have "tree_at ?m b (rb_ch m (opp d) b) z"
    by (rule tree_at_agree [OF ag(2), THEN iffD2, OF tz])
  moreover have "tree_at ?m a i y"
  proof (rule tree_at_reparent [OF ty _ ag(3)])
    have "i \<in> addrs y" if "y \<noteq> Leaf" using i(4) that by simp
    thus "rb_parent ?m i = a \<and> (\<forall>e. rb_ch ?m e i = rb_ch m e i) \<and> rb_red ?m i = rb_red m i \<and> rb_key ?m i = rb_key m i"
      if "y \<noteq> Leaf" using that n pn(2) root i tree_at_addrs [OF ty, of i] by (auto simp: p_def)
  qed (use dist(1) in simp_all)
  moreover have "ctx_at ?m C p b"
  proof (rule ctx_at_relink [OF ctx dist(2)])
    have "a \<notin> caddrs C" "b \<notin> caddrs C" "i \<notin> caddrs C \<or> i = rb_sentinel m"
      using dist(3) i(4) by auto
    thus "agree (caddrs C - {p}) m ?m" unfolding agree_def by (auto simp: p_def)
    show "rb_ch ?m e p = b \<and> rb_ch ?m (opp e) p = rb_ch m (opp e) p \<and> rb_parent ?m p = rb_parent m p \<and>
           rb_red ?m p = rb_red m p \<and> rb_key ?m p = rb_key m p" if "C = (e, g, sib) # D" for e g sib D
    proof -
      have "C \<noteq> []" "e = d2" using that by (auto simp: d2_def)
      moreover have "i \<noteq> p \<or> i = rb_sentinel m" using pn(2) i(4) that by auto
      ultimately show ?thesis using pn(4) pa root by (auto simp: p_def)
    qed
  qed (use root in simp_all)
  moreover have "rb_ch ?m d b = a" "rb_ch ?m (opp d) b = rb_ch m (opp d) b" "rb_ch ?m d a = rb_ch m d a"
    "rb_ch ?m (opp d) a = i" "rb_parent ?m b = p" "rb_parent ?m a = b" "same_data m ?m"
    using ab pa pn(4) root f(3,4) by (auto simp: p_def same_data_def)
  moreover obtain m' where m': "?m = m'" by blast
  ultimately have "rotate d a m = Some m' \<and> same_data m m' \<and> zip_at m' C b (nd d (nd d x (a, c, k) y) (b, c', k') z)"
    using s0 dist ab f(1-4) f(6-9) rot unfolding zip_at_def m' same_data_def
    by (intro conjI exI [of _ p]) auto
  thus ?thesis ..
qed
section \<open>Recolouring\<close>

fun recol :: "addr \<Rightarrow> bool \<Rightarrow> rbt \<Rightarrow> rbt" where
  "recol b c Leaf = Leaf"
| "recol b c (Node l (a, c', k) r) = Node (recol b c l) (a, if a = b then c else c', k) (recol b c r)"

lemma recol_nd [simp]:
  "recol b c (nd d l (a, c', k) r) = nd d (recol b c l) (a, if a = b then c else c', k) (recol b c r)"
  by (cases d) (auto simp: nd_def)

lemma recol_id [simp]: "b \<notin> addrs t \<Longrightarrow> recol b c t = t"
  by (induction b c t rule: recol.induct) auto

lemma addrs_recol [simp]: "addrs (recol b c t) = addrs t"
  by (induction b c t rule: recol.induct) auto

lemma tdist_recol [simp]: "tdist (recol b c t) = tdist t"
  by (induction b c t rule: recol.induct) auto

lemma inorder_recol [simp]: "inorder (recol b c t) = inorder t"
  by (induction b c t rule: recol.induct) auto

definition recolour :: "addr \<Rightarrow> bool \<Rightarrow> rbtree_t \<Rightarrow> rbtree_t" where
  "recolour a c m = m\<lparr>rb_red := (rb_red m)(a := c)\<rparr>"

lemma recolour_sel [simp]:
  "rb_ch (recolour a c m) = rb_ch m" "rb_parent (recolour a c m) = rb_parent m" "rb_key (recolour a c m) = rb_key m"
  "rb_root (recolour a c m) = rb_root m" "rb_sentinel (recolour a c m) = rb_sentinel m"
  "rb_red (recolour a c m) x = (if x = a then c else rb_red m x)"
  by (simp_all add: recolour_def)

lemma set_red_recolour: "a \<noteq> nullptr \<Longrightarrow> set_red a c m = Some (recolour a c m)"
  by (simp add: set_red_def recolour_def)

lemma tree_at_recolour: "tree_at m p x t \<Longrightarrow> tree_at (recolour b c m) p x (recol b c t)"
  by (induction m p x t rule: tree_at.induct) auto

lemma zip_at_recolour:
  assumes "zip_at m C x t" "b \<in> addrs t"
  shows "zip_at (recolour b c m) C x (recol b c t)"
proof -
  obtain p where p: "tree_at m p x t" "ctx_at m C p x" using assms(1) by (auto simp: zip_at_def)
  have "b \<notin> caddrs C" using assms by (auto simp: zip_at_def)
  hence "ctx_at (recolour b c m) C p x"
    using p(2) ctx_at_agree [of C m "recolour b c m"] by (auto simp: agree_def)
  thus ?thesis
    using assms p(1) tree_at_recolour [OF p(1)] tree_at_addrs [OF p(1) assms(2)] by (auto simp: zip_at_def)
qed

section \<open>The red-black invariants\<close>

fun isred :: "rbt \<Rightarrow> bool" where
  "isred Leaf = False"
| "isred (Node l (a, c, k) r) = c"

fun invc :: "rbt \<Rightarrow> bool" where
  "invc Leaf = True"
| "invc (Node l (a, c, k) r) \<longleftrightarrow> (c \<longrightarrow> \<not> isred l \<and> \<not> isred r) \<and> invc l \<and> invc r"

fun bh :: "rbt \<Rightarrow> nat" where
  "bh Leaf = 0"
| "bh (Node l (a, c, k) r) = bh l + (if c then 0 else 1)"

fun invh :: "rbt \<Rightarrow> bool" where
  "invh Leaf = True"
| "invh (Node l (a, c, k) r) \<longleftrightarrow> bh l = bh r \<and> invh l \<and> invh r"

definition rb :: "rbt \<Rightarrow> bool" where
  "rb t \<longleftrightarrow> invc t \<and> invh t \<and> \<not> isred t"

text \<open>What a context asks of the subtree in its hole: that its root is black (\<open>okc C True\<close> does not), that its black height is \<open>n\<close>.\<close>

fun okc :: "ctx \<Rightarrow> bool \<Rightarrow> bool" where
  "okc [] r \<longleftrightarrow> \<not> r"
| "okc ((d, (a, c, k), sib) # C) r \<longleftrightarrow> invc sib \<and> (c \<longrightarrow> \<not> isred sib \<and> \<not> r) \<and> okc C c"

fun okh :: "ctx \<Rightarrow> nat \<Rightarrow> bool" where
  "okh [] n \<longleftrightarrow> True"
| "okh ((d, (a, c, k), sib) # C) n \<longleftrightarrow> invh sib \<and> bh sib = n \<and> okh C (n + (if c then 0 else 1))"

lemma isred_nd [simp]: "isred (nd d l (a, c, k) r) = c"
  by (cases d) (auto simp: nd_def)

lemma invc_nd [simp]: "invc (nd d l (a, c, k) r) \<longleftrightarrow> (c \<longrightarrow> \<not> isred l \<and> \<not> isred r) \<and> invc l \<and> invc r"
  by (cases d) (auto simp: nd_def)

lemma invh_nd [simp]: "invh (nd d l (a, c, k) r) \<longleftrightarrow> bh l = bh r \<and> invh l \<and> invh r"
  by (cases d) (auto simp: nd_def)

lemma bh_nd [simp]: "bh l = bh r \<Longrightarrow> bh (nd d l (a, c, k) r) = bh l + (if c then 0 else 1)"
  by (cases d) (auto simp: nd_def)

lemma invc_plug: "invc (plug C t) \<and> \<not> isred (plug C t) \<longleftrightarrow> invc t \<and> okc C (isred t)"
  by (induction C "isred t" arbitrary: t rule: okc.induct) auto

lemma invh_plug: "invh (plug C t) \<longleftrightarrow> invh t \<and> okh C (bh t)"
proof (induction C "bh t" arbitrary: t rule: okh.induct)
  case (2 d a c k sib C)
  show ?case
  proof (cases "bh t = bh sib")
    case True
    thus ?thesis using 2 [of "nd d t (a, c, k) sib"] by simp
  next
    case False
    have "invh (plug C u) \<Longrightarrow> invh u" for C u
      by (induction C u rule: plug.induct) auto
    hence "\<not> invh (plug C (nd d t (a, c, k) sib))" using False by fastforce
    thus ?thesis using False by auto
  qed
qed simp

lemma rb_plug: "rb (plug C t) \<longleftrightarrow> invc t \<and> okc C (isred t) \<and> invh t \<and> okh C (bh t)"
  using invc_plug invh_plug by (auto simp: rb_def)

text \<open>The entries of the tree around the hole.\<close>

fun cleft :: "ctx \<Rightarrow> (addr \<times> int) list" where
  "cleft [] = []"
| "cleft ((d, (a, c, k), sib) # C) = cleft C @ (case d of L \<Rightarrow> [] | R \<Rightarrow> inorder sib @ [(a, k)])"

fun cright :: "ctx \<Rightarrow> (addr \<times> int) list" where
  "cright [] = []"
| "cright ((d, (a, c, k), sib) # C) = (case d of L \<Rightarrow> (a, k) # inorder sib | R \<Rightarrow> []) @ cright C"

lemma inorder_plug: "inorder (plug C t) = cleft C @ inorder t @ cright C"
  by (induction C arbitrary: t rule: cleft.induct) (auto simp: nd_def split: dir.splits)

lemma inorder_addrs: "fst ` set (inorder t) = addrs t"
  by (induction t rule: inorder.induct) auto

lemma inorder_rotate: "inorder (nd d (nd d x (a, c, k) y) (b, c', k') z) = inorder (nd d x (a, c2, k) (nd d y (b, c2', k') z))"
  by (cases d) (auto simp: nd_def)

lemma inorder_nd_cong: "inorder x = inorder x' \<Longrightarrow> inorder y = inorder y' \<Longrightarrow> inorder (nd d x (a, c, k) y) = inorder (nd d x' (a, c', k) y')"
  by (cases d) (auto simp: nd_def)
section \<open>Reading the heap at the focus\<close>

lemma zip_at_node:
  assumes "zip_at m C x (nd d t (a, c, k) u)"
  shows "x = a" "a \<noteq> nullptr" "a \<noteq> rb_sentinel m" "rb_red m a = c" "rb_key m a = k"
    "t \<noteq> Leaf \<Longrightarrow> rb_parent m (rb_ch m d a) = a" "u \<noteq> Leaf \<Longrightarrow> rb_parent m (rb_ch m (opp d) a) = a"
  using assms by (auto simp: zip_at_def dest: tree_at_parent)

lemma zip_at_red: 
  assumes "zip_at m C x t"
  shows "x \<noteq> nullptr" "rb_red m x = isred t" "x = rb_sentinel m \<longleftrightarrow> t = Leaf" "x = rb_root m \<longleftrightarrow> C = [] \<or> t = Leaf \<and> rb_root m = rb_sentinel m"
proof -
  obtain p where p: "tree_at m p x t" "ctx_at m C p x" using assms by (auto simp: zip_at_def)
  show "x \<noteq> nullptr" "rb_red m x = isred t" "x = rb_sentinel m \<longleftrightarrow> t = Leaf" 
    using assms p(1) by (cases t; cases "case t of Node l e r \<Rightarrow> e"; auto simp: zip_at_def)+
  show "x = rb_root m \<longleftrightarrow> C = [] \<or> t = Leaf \<and> rb_root m = rb_sentinel m"
    using tree_at_root [OF p(1)] ctx_at_root [OF p(2)] assms by (auto simp: zip_at_def)
qed

lemma zip_at_root:
  assumes "zip_at m C x t" "t \<noteq> Leaf" shows "x = rb_root m \<longleftrightarrow> C = []"
  using zip_at_red [OF assms(1)] assms(2) by auto

text \<open>Which side the children of a node are on is seen from their addresses.\<close>

lemma zip_at_side:
  assumes "zip_at m C a (nd d t (a, c, k) u)" 
  shows "t \<noteq> Leaf \<Longrightarrow> rb_ch m d a = rb_ch m e a \<longleftrightarrow> e = d"
proof -
  have "tree_at m a (rb_ch m d a) t" "tree_at m a (rb_ch m (opp d) a) u" "addrs t \<inter> addrs u = {}"
    using assms by (auto simp: zip_at_def)
  hence "t \<noteq> Leaf \<Longrightarrow> rb_ch m d a \<noteq> rb_ch m (opp d) a"
    by (metis Int_iff empty_iff tree_at_root)
  thus "t \<noteq> Leaf \<Longrightarrow> rb_ch m d a = rb_ch m e a \<longleftrightarrow> e = d"
    by (cases d; cases e) auto
qed

definition keep :: "rbtree_t \<Rightarrow> rbtree_t \<Rightarrow> bool" where
  "keep m m' \<longleftrightarrow> rb_key m' = rb_key m \<and> rb_sentinel m' = rb_sentinel m"

lemma keep_refl [simp]: "keep m m"
  by (simp add: keep_def)

lemma keep_trans: "keep m m' \<Longrightarrow> keep m' m'' \<Longrightarrow> keep m m''"
  by (simp add: keep_def)

lemma keep_recolour [simp]: "keep (recolour a c m) m' = keep m m'" "keep m (recolour a c m') = keep m m'"
  by (simp_all add: keep_def)

lemma same_data_keep: "same_data m m' \<Longrightarrow> keep m m'"
  by (simp add: keep_def same_data_def)

lemma zip_at_addr:
  assumes "zip_at m C y t" "zip_at m' C' y' t" "rb_sentinel m' = rb_sentinel m"
  shows "y' = y"
  using assms by (cases t; cases "case t of Node l e r \<Rightarrow> e") (auto simp: zip_at_def)

lemma dir_neq: "d \<noteq> L \<longleftrightarrow> d = R" "d \<noteq> R \<longleftrightarrow> d = L"
  by (cases d; simp)+

lemma addrs_plug: "addrs (plug C t) = addrs t \<union> caddrs C"
  by (induction C t rule: plug.induct) auto

lemma zip_at_not_root:
  assumes "zip_at m C x t" "C \<noteq> []" shows "x \<noteq> rb_root m"
proof -
  obtain p where p: "ctx_at m C p x" using assms by (auto simp: zip_at_def)
  hence "rb_root m \<in> caddrs C" using ctx_at_root assms(2) by blast
  hence "rb_root m \<noteq> rb_sentinel m" "x = rb_root m \<Longrightarrow> t = Leaf"
    using ctx_at_addrs [OF p] zip_at_root [OF assms(1)] assms(2) by blast+
  thus ?thesis using zip_at_red(3) [OF assms(1)] by auto
qed

lemma zip_at_parent:
  assumes "zip_at m ((d, (p, c, k), s) # C) x t" "t \<noteq> Leaf" shows "rb_parent m x = p"
  using zip_at_up [OF assms(1)] zip_at_node(6) assms(2) by fastforce

lemma okc_black: "okc C r \<Longrightarrow> okc C False"
  by (cases "(C, r)" rule: okc.cases) auto

end
