(* ===== verification/Dfs_Rbtree_Insert.thy ===== *)
theory Dfs_Rbtree_Insert
  imports Dfs_Rbtree_Inv
begin

text \<open>
  Insertion into the red-black tree: the descent finds the place after the entries with smaller or equal
  keys, and the loop that restores the balance ends with a tree that satisfies the red-black invariants.
\<close>

section \<open>Restoring the balance\<close>

lemma insert_fix_stop:
  assumes "zip_at m ((d, (p, False, k), s) # C) x t" "t \<noteq> Leaf"
  shows "insert_fix m x = Some m"
proof -
  have z: "rb_ch m d p = x" "zip_at m C p (nd d t (p, False, k) s)"
    using zip_at_up [OF assms(1)] by auto
  note n = zip_at_node [OF z(2), unfolded z(1)]
  show ?thesis
    using zip_at_root [OF assms] zip_at_red(1) [OF assms(1)] n(2,4) n(6) [OF assms(2)]
    by (subst insert_fix.simps) (simp add: get_def)
qed

lemma insert_last:
  assumes z: "zip_at m C g (nd e (nd e t (p, True, kp) s) (g, False, kg) u)" and t: "t \<noteq> Leaf" and x: "x = rb_ch m e p"
  shows "\<exists>m'. do { p \<leftarrow> get (rb_parent m) x; m \<leftarrow> rbtree_black p m; g \<leftarrow> get (rb_parent m) p; m \<leftarrow> rbtree_red g m;
                  m \<leftarrow> rotate (opp e) g m; insert_fix m x } = Some m' \<and> keep m m' \<and>
              zip_at m' C p (nd e t (p, False, kp) (nd e s (g, True, kg) u))"
proof -
  have p: "p = rb_ch m e g" using zip_at_down [OF z] zip_at_node(1) by fastforce
  have zp: "zip_at m ((e, (g, False, kg), u) # C) p (nd e t (p, True, kp) s)"
    using zip_at_down [OF z] p by simp
  have par: "rb_parent m p = g" "rb_parent m x = p" "x \<noteq> nullptr" "p \<noteq> nullptr" "g \<noteq> nullptr"
    using zip_at_node [OF z] zip_at_node [OF zp] zip_at_red(1) [OF zip_at_down [OF zp]] t p x by auto
  have dist: "p \<noteq> g" "p \<notin> addrs t \<union> addrs s \<union> addrs u" "g \<notin> addrs t \<union> addrs s \<union> addrs u"
    using z by (auto simp: zip_at_def)
  let ?m = "recolour g True (recolour p False m)"
  have "zip_at ?m C g (recol g True (recol p False (nd e (nd e t (p, True, kp) s) (g, False, kg) u)))"
    by (intro zip_at_recolour z) auto
  hence "zip_at ?m C g (nd (opp e) u (g, True, kg) (nd (opp e) s (p, False, kp) t))"
    using dist by (simp add: nd_opp)
  from rotate_zip [OF this] obtain m' where m': "rotate (opp e) g ?m = Some m'" "same_data ?m m'"
    "zip_at m' C p (nd e t (p, False, kp) (nd e s (g, True, kg) u))"
    by (auto simp: nd_opp)
  have "rb_ch m' e p = x"
    using zip_at_addr [OF zip_at_down [OF zp] zip_at_down [OF m'(3)]] same_data_keep [OF m'(2)]
    by (simp add: x keep_def)
  hence "insert_fix m' x = Some m'"
    using insert_fix_stop [OF _ t] zip_at_down [OF m'(3)] by simp
  thus ?thesis
    using m' par same_data_keep [OF m'(2)] by (auto simp: get_def rbtree_black_def rbtree_red_def set_red_recolour)
qed

lemma insert_fix_unfold:
  assumes z: "zip_at m ((d, (p, True, kp), s) # (e, (g, cg, kg), u) # C) x t" and t: "t \<noteq> Leaf"
  shows "insert_fix m x =
    (if isred u then insert_fix (recolour g True (recolour (rb_ch m (opp e) g) False (recolour p False m))) g
     else do {
       (node, m) \<leftarrow> (if d = opp e then do { m \<leftarrow> rotate e p m; Some (p, m) } else Some (x, m));
       p \<leftarrow> get (rb_parent m) node; m \<leftarrow> rbtree_black p m; g \<leftarrow> get (rb_parent m) p; m \<leftarrow> rbtree_red g m;
       m \<leftarrow> rotate (opp e) g m; insert_fix m node })"
proof -
  have zp: "zip_at m ((e, (g, cg, kg), u) # C) p (nd d t (p, True, kp) s)" and x: "rb_ch m d p = x"
    using zip_at_up [OF z] by auto
  have zg: "zip_at m C g (nd e (nd d t (p, True, kp) s) (g, cg, kg) u)" and p: "rb_ch m e g = p"
    using zip_at_up [OF zp] by auto
  note np = zip_at_node [OF zp, unfolded x] and ng = zip_at_node [OF zg, unfolded p]
  have zu: "zip_at m ((opp e, (g, cg, kg), nd d t (p, True, kp) s) # C) (rb_ch m (opp e) g) u"
    using zip_at_down [of m C g "opp e" u] zg by (simp add: nd_opp)
  have e: "(if p = rb_ch m L g then L else R) = e"
    using zip_at_side [OF zg, of L] p by (cases e) auto
  have d: "x = rb_ch m (opp e) p \<longleftrightarrow> d = opp e"
    using zip_at_side [OF zp t, of "opp e"] by (auto simp: x)
  show ?thesis
    using zip_at_root [OF z t] zip_at_red [OF zu] zip_at_red(1) [OF z] np(2,4) ng(2) ng(6) np(6) [OF t] e d
    by (subst insert_fix.simps) (simp add: get_def rbtree_black_def rbtree_red_def set_red_recolour Let_def)
qed

lemma insert_fix_recolour:
  assumes z: "zip_at m ((d, (p, True, kp), s) # (e, (g, cg, kg), u) # C) x t" and t: "t \<noteq> Leaf"
    and u: "isred u" "invc u" "invh u"
  shows "\<exists>m' u'. insert_fix m x = insert_fix m' g \<and> keep m m' \<and>
           zip_at m' C g (nd e (nd d t (p, False, kp) s) (g, True, kg) u') \<and>
           inorder u' = inorder u \<and> invc u' \<and> invh u' \<and> bh u' = Suc (bh u) \<and> \<not> isred u'"
proof -
  obtain y u1 ky u2 where uy: "u = nd e u1 (y, True, ky) u2"
    using u(1) by (cases u rule: nd_cases [where d = e]) auto
  have zg: "zip_at m C g (nd e (nd d t (p, True, kp) s) (g, cg, kg) u)"
    using zip_at_up [OF z] zip_at_up by blast
  hence y: "rb_ch m (opp e) g = y" by (auto simp: uy zip_at_def)
  have dist: "y \<noteq> p" "y \<noteq> g" "p \<noteq> g" "y \<notin> addrs t \<union> addrs s \<union> addrs u1 \<union> addrs u2" 
    "g \<notin> addrs t \<union> addrs s \<union> addrs u1 \<union> addrs u2" "p \<notin> addrs t \<union> addrs s \<union> addrs u1 \<union> addrs u2"
    using zg by (auto simp: zip_at_def uy)
  let ?m = "recolour g True (recolour y False (recolour p False m))"
  have "zip_at ?m C g (recol g True (recol y False (recol p False (nd e (nd d t (p, True, kp) s) (g, cg, kg) u))))"
    by (intro zip_at_recolour zg) (auto simp: uy)
  hence "zip_at ?m C g (nd e (nd d t (p, False, kp) s) (g, True, kg) (nd e u1 (y, False, ky) u2))"
    using dist by (simp add: uy)
  moreover have "insert_fix m x = insert_fix ?m g"
    using insert_fix_unfold [OF z t] u(1) by (simp add: y)
  ultimately show ?thesis
    using u(2,3) by (intro exI [of _ ?m] exI [of _ "nd e u1 (y, False, ky) u2"]) (auto simp: uy cong: inorder_nd_cong)
qed

lemma insert_fix_rotate:
  assumes z: "zip_at m ((d, (p, True, kp), s) # (e, (g, False, kg), u) # C) x t"
    and t: "isred t" "invc t" "invh t" and u: "\<not> isred u" "invc u" "invh u" 
    and s: "\<not> isred s" "invc s" "invh s" and b: "bh s = bh t" "bh u = bh t"
  shows "\<exists>m' y t'. insert_fix m x = Some m' \<and> keep m m' \<and> zip_at m' C y t' \<and>
           inorder t' = inorder (nd e (nd d t (p, True, kp) s) (g, False, kg) u) \<and>
           invc t' \<and> invh t' \<and> bh t' = Suc (bh t) \<and> \<not> isred t'"
proof -
  have tn: "t \<noteq> Leaf" using t(1) by auto
  have zp: "zip_at m ((e, (g, False, kg), u) # C) p (nd d t (p, True, kp) s)" and x: "rb_ch m d p = x"
    using zip_at_up [OF z] by auto
  have zg: "zip_at m C g (nd e (nd d t (p, True, kp) s) (g, False, kg) u)"
    using zip_at_up [OF zp] by auto
  show ?thesis
  proof (cases "d = e")
    case True
    have "x = rb_ch m e p" using x True by simp
    from insert_last [OF zg [unfolded True] tn this] obtain m' where m': "insert_fix m x = Some m'" "keep m m'"
      "zip_at m' C p (nd e t (p, False, kp) (nd e s (g, True, kg) u))"
      using insert_fix_unfold [OF z tn] u(1) by (auto simp: True x)
    moreover have "inorder (nd e t (p, False, kp) (nd e s (g, True, kg) u)) = inorder (nd e (nd e t (p, True, kp) s) (g, False, kg) u)"
      using inorder_rotate by metis
    ultimately show ?thesis
      using t u s b
      by (intro exI [of _ m'] exI [of _ p] exI [of _ "nd e t (p, False, kp) (nd e s (g, True, kg) u)"]) (auto simp: True)
  next
    case False
    hence d: "d = opp e" by (cases d; cases e) auto
    obtain y t1 ky t2 where ty: "t = nd e t1 (y, True, ky) t2"
      using t(1) by (cases t rule: nd_cases [where d = e]) auto
    have y: "x = y" using zip_at_node(1) z unfolding ty by blast
    from rotate_zip [of m _ p e s True kp t1 x True ky t2] obtain m1 where m1: "rotate e p m = Some m1" "same_data m m1"
      "zip_at m1 ((e, (g, False, kg), u) # C) x (nd e (nd e s (p, True, kp) t1) (x, True, ky) t2)"
      using zp by (auto simp: ty d nd_opp y)
    have z1: "zip_at m1 C g (nd e (nd e (nd e s (p, True, kp) t1) (x, True, ky) t2) (g, False, kg) u)"
      using zip_at_up [OF m1(3)] by blast
    have "p = rb_ch m1 e x" using zip_at_node(1) [OF zip_at_down [OF m1(3)]] by simp
    from insert_last [OF z1 _ this] obtain m' where m': "insert_fix m x = Some m'" "keep m1 m'"
      "zip_at m' C x (nd e (nd e s (p, True, kp) t1) (x, False, ky) (nd e t2 (g, True, kg) u))"
      using insert_fix_unfold [OF z tn] u(1) m1 by (auto simp: d)
    moreover have "inorder (nd e (nd e s (p, True, kp) t1) (x, False, ky) (nd e t2 (g, True, kg) u)) =
        inorder (nd e (nd d t (p, True, kp) s) (g, False, kg) u)"
      unfolding d ty y nd_opp by (cases e) (auto simp: nd_def)
    ultimately show ?thesis
      using t u s b keep_trans [OF same_data_keep [OF m1(2)] m'(2)]
      by (intro exI [of _ m'] exI [of _ x]
            exI [of _ "nd e (nd e s (p, True, kp) t1) (x, False, ky) (nd e t2 (g, True, kg) u)"]) (auto simp: ty d)
  qed
qed

lemma insert_fix_ok:
  assumes "zip_at m C x t" "isred t" "invc t" "invh t" "okh C (bh t)" "okc C False"
  shows "\<exists>m' t'. insert_fix m x = Some m' \<and> keep m m' \<and> rtree m' t' \<and> inorder t' = inorder (plug C t) \<and> invc t' \<and> invh t'"
  using assms
proof (induction "length C" arbitrary: m C x t rule: less_induct)
  case less
  note z = \<open>zip_at m C x t\<close>
  have t: "t \<noteq> Leaf" using less.prems(2) by auto
  show ?case
  proof (cases C)
    case Nil
    have "insert_fix m x = Some m"
      using zip_at_root [OF z t] by (subst insert_fix.simps) (simp add: Nil)
    moreover have "rtree m (plug C t)" using z zip_at_plug by blast
    ultimately show ?thesis using less.prems by (auto simp: Nil)
  next
    case (Cons f C1)
    obtain d p cp kp s where f: "f = (d, (p, cp, kp), s)" by (cases f) auto
    show ?thesis
    proof (cases cp)
      case False
      hence "insert_fix m x = Some m" using insert_fix_stop z t by (simp add: Cons f)
      moreover have "rtree m (plug C t)" using z zip_at_plug by blast
      moreover have "rb (plug C t)" using less.prems False by (simp add: rb_plug Cons f)
      ultimately show ?thesis by (auto simp: rb_def)
    next
      case True
      hence cp: "cp = True" by simp
      with True obtain f1 C2 where C12: "C1 = f1 # C2"
        using less.prems(6) by (cases C1) (auto simp: Cons f)
      then obtain e g kg u where C1: "C1 = (e, (g, False, kg), u) # C2"
        using less.prems(6) True by (cases f1) (auto simp: Cons f)
      note z' = z [unfolded Cons f cp C1]
      note o = less.prems(3-6) [unfolded Cons f cp C1]
      show ?thesis
      proof (cases "isred u")
        case red: True
        obtain m' u' where m': "insert_fix m x = insert_fix m' g" "keep m m'"
          "zip_at m' C2 g (nd e (nd d t (p, False, kp) s) (g, True, kg) u')"
          "inorder u' = inorder u" "invc u'" "invh u'" "bh u' = Suc (bh u)" "\<not> isred u'"
          using insert_fix_recolour [OF z' t red] o by auto
        have "inorder (nd e (nd d t (p, False, kp) s) (g, True, kg) u') = inorder (nd e (nd d t (p, True, kp) s) (g, False, kg) u)"
          by (intro inorder_nd_cong m'(4) refl)
        hence "inorder (plug C2 (nd e (nd d t (p, False, kp) s) (g, True, kg) u')) = inorder (plug C t)"
          by (simp add: Cons f cp C1 inorder_plug)
        thus ?thesis
          using less.hyps [OF _ m'(3)] o m' keep_trans [OF m'(2)] by (auto simp: Cons C1)
      next
        case False
        obtain m' y t' where m': "insert_fix m x = Some m'" "keep m m'" "zip_at m' C2 y t'"
          "inorder t' = inorder (nd e (nd d t (p, True, kp) s) (g, False, kg) u)"
          "invc t'" "invh t'" "bh t' = Suc (bh t)" "\<not> isred t'"
          using insert_fix_rotate [OF z' less.prems(2)] False o by auto
        have "rtree m' (plug C2 t')" using m'(3) zip_at_plug by blast
        moreover have "inorder (plug C2 t') = inorder (plug C t)"
          using m'(4) by (simp add: Cons f cp C1 inorder_plug)
        moreover have "rb (plug C2 t')" using m' o by (simp add: rb_plug)
        ultimately show ?thesis using m'(1,2) by (auto simp: rb_def)
      qed
    qed
  qed
qed
section \<open>The place of a new node\<close>

definition ins_sorted :: "addr \<times> int \<Rightarrow> (addr \<times> int) list \<Rightarrow> (addr \<times> int) list" where
  "ins_sorted e xs = takeWhile (\<lambda>x. snd x \<le> snd e) xs @ e # dropWhile (\<lambda>x. snd x \<le> snd e) xs"

lemma ins_sorted_split:
  assumes "\<forall>x\<in>set xs. snd x \<le> snd e" "\<forall>y\<in>set ys. snd e < snd y"
  shows "ins_sorted e (xs @ ys) = xs @ e # ys"
  using assms by (cases ys) (auto simp: ins_sorted_def takeWhile_append dropWhile_append)

definition fits :: "ctx \<Rightarrow> int \<Rightarrow> bool" where
  "fits C k \<longleftrightarrow> (\<forall>e\<in>set (cleft C). snd e \<le> k) \<and> (\<forall>e\<in>set (cright C). k < snd e)"

lemma insert_find_ok:
  assumes "zip_at m C x t" "t \<noteq> Leaf" "node \<noteq> nullptr" "sorted (map snd (inorder t))" "fits C (rb_key m node)"
  shows "\<exists>d a c k sib C'. insert_find m node x = Some (a, d) \<and> zip_at m ((d, (a, c, k), sib) # C') (rb_sentinel m) Leaf \<and>
           plug ((d, (a, c, k), sib) # C') Leaf = plug C t \<and> fits ((d, (a, c, k), sib) # C') (rb_key m node)"
  using assms
proof (induction "size t" arbitrary: C x t rule: less_induct)
  case less
  define d where "d = (if rb_key m node < rb_key m x then L else R)"
  obtain a c k u v where t: "t = nd d u (a, c, k) v"
    using less.prems(2) by (cases t rule: nd_cases [where d = d]) auto
  note z = less.prems(1) [unfolded t]
  note n = zip_at_node [OF z] and zd = zip_at_down [OF z [unfolded zip_at_node(1) [OF z]]]
  have f: "fits ((d, (a, c, k), v) # C) (rb_key m node)" 
    using less.prems(4,5) n(1,5) by (cases d) (auto simp: fits_def t nd_def sorted_append d_def split: if_splits)
  have unf: "insert_find m node x = (if u = Leaf then Some (a, d) else insert_find m node (rb_ch m d a))"
    using n(1,2) zip_at_red(3) [OF zd] less.prems(3) d_def [symmetric]
    by (subst insert_find.simps) (simp add: get_def Let_def)
  show ?case
  proof (cases "u = Leaf")
    case True
    thus ?thesis using unf zd f zip_at_red(3) [OF zd] by (intro exI) (auto simp: t)
  next
    case False
    have "size u < size t" by (cases d) (auto simp: t nd_def)
    moreover have "sorted (map snd (inorder u))" using less.prems(4) by (cases d) (auto simp: t nd_def sorted_append)
    ultimately have "\<exists>d' a' c' k' sib C'. insert_find m node (rb_ch m d a) = Some (a', d') \<and>
       zip_at m ((d', (a', c', k'), sib) # C') (rb_sentinel m) Leaf \<and>
           plug ((d', (a', c', k'), sib) # C') Leaf = plug ((d, (a, c, k), v) # C) u \<and> fits ((d', (a', c', k'), sib) # C') (rb_key m node)"
      using less.hyps [OF _ zd False less.prems(3) _ f] by blast
    thus ?thesis using False unf by (simp add: t)
  qed
qed

text \<open>The new node is linked below its parent.\<close>

lemma link_leaf:
  assumes z: "zip_at m ((d, (a, c, k), sib) # C) (rb_sentinel m) Leaf"
    and node: "node \<noteq> nullptr" "node \<noteq> rb_sentinel m" "node \<noteq> a" "node \<notin> addrs sib" "node \<notin> caddrs C"
    and m': "m' = recolour node True (m\<lparr>rb_ch := (\<lambda>e x. if x = node then rb_sentinel m else if x = a \<and> e = d then node else rb_ch m e x),
         rb_parent := (rb_parent m)(node := a)\<rparr>)"
  shows "zip_at m' ((d, (a, c, k), sib) # C) node (Node Leaf (node, True, rb_key m node) Leaf)"
proof -
  obtain p where c: "ctx_at m ((d, (a, c, k), sib) # C) p (rb_sentinel m)"
    using z by (auto simp: zip_at_def)
  have "ctx_at m' ((d, (a, c, k), sib) # C) p node"
    by (rule ctx_at_relink [OF c]) (use z c node in \<open>auto simp: zip_at_def m' agree_def\<close>)
  thus ?thesis using z c node by (auto simp: zip_at_def m')
qed

lemma rbtree_insert_value_ok:
  assumes t: "rtree m t" "t \<noteq> Leaf" "sorted (map snd (inorder t))" 
    and node: "node \<noteq> nullptr" "node \<noteq> rb_sentinel m" "node \<notin> addrs t"
  shows "\<exists>m' C. rbtree_insert_value (rb_root m) node m = Some m' \<and> keep m m' \<and>
           zip_at m' C node (Node Leaf (node, True, rb_key m node) Leaf) \<and>
           plug C Leaf = t \<and> fits C (rb_key m node)"
proof -
  from insert_find_ok [of m "[]" "rb_root m" t node] obtain d a c k sib C' where
    f: "insert_find m node (rb_root m) = Some (a, d)" and z: "zip_at m ((d, (a, c, k), sib) # C') (rb_sentinel m) Leaf"
    and p: "plug ((d, (a, c, k), sib) # C') Leaf = t" and fit: "fits ((d, (a, c, k), sib) # C') (rb_key m node)"
    using assms by (auto simp: rtree_def fits_def)
  let ?m = "recolour node True (m\<lparr>rb_ch := (\<lambda>e x. if x = node then rb_sentinel m else if x = a \<and> e = d then node else rb_ch m e x),
         rb_parent := (rb_parent m)(node := a)\<rparr>)"
  have n: "node \<noteq> a" "node \<notin> addrs sib" "node \<notin> caddrs C'"
    using node(3) by (auto simp: p [symmetric] addrs_plug)
  have "a \<noteq> nullptr" using z by (auto simp: zip_at_def)
  have "rbtree_insert_value (rb_root m) node m = Some ?m"
    using f node \<open>a \<noteq> nullptr\<close> n(1)
    by (cases d; cases m) (auto simp: dir_neq rbtree_insert_value_def set_ch_def set_parent_def rbtree_red_def set_red_def recolour_def fun_eq_iff)
  moreover have "zip_at ?m ((d, (a, c, k), sib) # C') node (Node Leaf (node, True, rb_key m node) Leaf)"
    by (rule link_leaf [OF z node(1,2) n refl])
  ultimately show ?thesis using p fit by (auto simp: keep_def)
qed

lemma rtree_black_root:
  assumes "rtree m t" "t \<noteq> Leaf"
  shows "\<exists>m' t'. rbtree_black (rb_root m) m = Some m' \<and> rtree m' t' \<and> inorder t' = inorder t \<and> keep m m' \<and>
           \<not> isred t' \<and> (invc t \<longrightarrow> invc t') \<and> (invh t \<longrightarrow> invh t')"
proof -
  obtain a c k u v where t: "t = nd L u (a, c, k) v"
    using assms(2) by (cases t rule: nd_cases [where d = L]) auto
  have a: "rb_root m = a" "a \<noteq> nullptr" "a \<notin> addrs u" "a \<notin> addrs v"
    using assms(1) by (auto simp: rtree_def zip_at_def t)
  have "zip_at (recolour a False m) [] (rb_root m) (recol a False t)"
    using zip_at_recolour [of m "[]" "rb_root m" t a False] assms(1) by (simp add: rtree_def t)
  moreover have "recol a False t = nd L u (a, False, k) v" using a by (simp add: t)
  ultimately show ?thesis using a
    by (intro exI [of _ "recolour a False m"] exI [of _ "recol a False t"])
       (auto simp: rbtree_black_def set_red_recolour rtree_def t intro: inorder_nd_cong)
qed

lemma rbtree_insert_ok:
  assumes t: "rtree m t" "rb t" "sorted (map snd (inorder t))" 
    and node: "node \<noteq> nullptr" "node \<noteq> rb_sentinel m" "node \<notin> addrs t"
  shows "\<exists>m' t'. rbtree_insert rbtree_insert_value node m = Some m' \<and> keep m m' \<and> rtree m' t' \<and> rb t' \<and>
           inorder t' = ins_sorted (node, rb_key m node) (inorder t)"
proof (cases "t = Leaf")
  case True
  have s: "rb_root m = rb_sentinel m" "rb_sentinel m \<noteq> nullptr" "\<not> rb_red m (rb_sentinel m)"
    using t(1) by (auto simp: True rtree_def zip_at_def)
  show ?thesis
    using s node
    by (intro exI [of _ "the (rbtree_insert rbtree_insert_value node m)"] exI [of _ "Node Leaf (node, False, rb_key m node) Leaf"])
       (auto simp: rbtree_insert_def set_parent_def set_ch_def rbtree_black_def set_red_def keep_def rtree_def zip_at_def
          True rb_def ins_sorted_def)
next
  case False
  let ?n = "Node Leaf (node, True, rb_key m node) Leaf"
  obtain m1 C where m1: "rbtree_insert_value (rb_root m) node m = Some m1" "keep m m1" "zip_at m1 C node ?n"
    "plug C Leaf = t" "fits C (rb_key m node)"
    using rbtree_insert_value_ok [OF t(1) False t(3) node] by blast
  have "rb (plug C Leaf)" using t(2) m1(4) by simp
  hence ok: "okc C False" "okh C 0" by (auto simp: rb_plug)
  obtain m2 t2 where m2: "insert_fix m1 node = Some m2" "keep m1 m2" "rtree m2 t2" "inorder t2 = inorder (plug C ?n)"
    "invc t2" "invh t2"
    using insert_fix_ok [OF m1(3)] ok by auto
  have "t2 \<noteq> Leaf" using m2(4) by (auto simp: inorder_plug)
  then obtain m3 t3 where m3: "rbtree_black (rb_root m2) m2 = Some m3" "rtree m3 t3" "inorder t3 = inorder t2" "keep m2 m3" "rb t3"
    using rtree_black_root [OF m2(3)] m2(5,6) by (auto simp: rb_def)
  have "inorder t = cleft C @ cright C" unfolding m1(4) [symmetric] by (simp add: inorder_plug)
  hence "inorder t3 = ins_sorted (node, rb_key m node) (inorder t)"
    using m3(3) m2(4) m1(5) by (simp add: ins_sorted_split inorder_plug fits_def)
  moreover have "rb_root m \<noteq> rb_sentinel m" using t(1) False zip_at_red(3) by (auto simp: rtree_def)
  ultimately show ?thesis
    using m1(1,2) m2(1,2) m3 by (intro exI [of _ m3] exI [of _ t3]) (auto simp: rbtree_insert_def keep_def)
qed
end
