(* ===== verification/Dfs_Rbtree_Delete.thy ===== *)
theory Dfs_Rbtree_Delete
  imports Dfs_Rbtree_Inv
begin

text \<open>
  Deletion from the red-black tree: the node that leaves its place is spliced out, it takes the place of the
  deleted node when that one had two children, and the loop that restores the balance ends with a tree that
  satisfies the red-black invariants and holds the other entries in their order.
\<close>

section \<open>Trees short of a black node\<close>

fun invc2 :: "rbt \<Rightarrow> bool" where
  "invc2 Leaf = True"
| "invc2 (Node l e r) \<longleftrightarrow> invc l \<and> invc r"

lemma invc2_nd [simp]: "invc2 (nd d l e r) \<longleftrightarrow> invc l \<and> invc r"
  by (cases d) (auto simp: nd_def)

lemma invc_invc2: "invc t \<longleftrightarrow> invc2 t \<and> (isred t \<longrightarrow> invc t)"
  by (induction t rule: invc.induct) auto

definition short :: "ctx \<Rightarrow> rbt \<Rightarrow> bool" where
  "short C t \<longleftrightarrow> invc2 t \<and> invh t \<and> okh C (Suc (bh t)) \<and> okc C False"

lemma zip_at_black:
  assumes "zip_at m C x t"
  shows "\<exists>m' t'. rbtree_black x m = Some m' \<and> keep m m' \<and> zip_at m' C x t' \<and> inorder t' = inorder t \<and>
           \<not> isred t' \<and> (invc2 t \<longrightarrow> invc t') \<and> (invh t \<longrightarrow> invh t') \<and> bh t' = (if isred t then Suc (bh t) else bh t)"
proof (cases t rule: nd_cases [where d = L])
  case Leaf
  hence "(rb_red m)(x := False) = rb_red m" "x \<noteq> nullptr" using assms by (auto simp: zip_at_def fun_eq_iff)
  hence "recolour x False m = m" "x \<noteq> nullptr" by (auto simp: recolour_def)
  thus ?thesis using assms Leaf by (auto simp: rbtree_black_def set_red_recolour intro!: exI [of _ Leaf])
next
  case (nd a c k u v)
  have a: "x = a" "a \<noteq> nullptr" "a \<notin> addrs u" "a \<notin> addrs v" using assms by (auto simp: nd zip_at_def)
  have "zip_at (recolour a False m) C a (nd L u (a, False, k) v)"
    using zip_at_recolour [of m C x t a False] assms a by (simp add: nd)
  thus ?thesis using a
    by (intro exI [of _ "recolour a False m"] exI [of _ "nd L u (a, False, k) v"])
       (auto simp: rbtree_black_def set_red_recolour nd intro: inorder_nd_cong; simp add: nd_def)
qed

lemma delete_fix_end:
  assumes z: "zip_at m C x t" and e: "C = [] \<or> isred t" and s: "short C t"
  shows "\<exists>m' t'. delete_fix m x = Some m' \<and> keep m m' \<and> rtree m' t' \<and> rb t' \<and> inorder t' = inorder (plug C t)"
proof -
  obtain m' t' where m': "rbtree_black x m = Some m'" "keep m m'" "zip_at m' C x t'" "inorder t' = inorder t" "\<not> isred t'"
    "invc t'" "invh t'" "bh t' = (if isred t then Suc (bh t) else bh t)"
    using zip_at_black [OF z] s by (auto simp: short_def)
  have "delete_fix m x = Some m'"
    using e m'(1) zip_at_red [OF z] by (subst delete_fix.simps) (auto simp: get_def)
  moreover have "rtree m' (plug C t')" using m'(3) zip_at_plug by blast
  moreover have "rb (plug C t')" using m' e s by (auto simp: rb_plug short_def split: if_splits)
  moreover have "inorder (plug C t') = inorder (plug C t)" using m'(4) by (simp add: inorder_plug)
  ultimately show ?thesis using m'(2) by blast
qed

lemma delete_sibling_ok:
  assumes z: "zip_at m ((d, (p, cp, kp), w) # C) x t" and par: "rb_parent m x = p" and s: "short ((d, (p, cp, kp), w) # C) t"
  shows "\<exists>m' w' cp' C'. delete_sibling d x m = Some (rb_ch m' (opp d) p, m') \<and> keep m m' \<and>
           zip_at m' ((d, (p, cp', kp), w') # C') x t \<and> rb_parent m' x = p \<and> short ((d, (p, cp', kp), w') # C') t \<and> \<not> isred w' \<and>
           inorder (plug ((d, (p, cp', kp), w') # C') t) = inorder (plug ((d, (p, cp, kp), w) # C) t) \<and> (C' = C \<or> cp')"
proof -
  have zp: "zip_at m C p (nd d t (p, cp, kp) w)" and x: "rb_ch m d p = x" using zip_at_up [OF z] by auto
  have zw: "zip_at m ((opp d, (p, cp, kp), t) # C) (rb_ch m (opp d) p) w"
    using zip_at_down [of m C p "opp d" w] zp by (simp add: nd_opp)
  note nn = zip_at_red(1) [OF z] zip_at_node(2) [OF zp] zip_at_red(1,2) [OF zw]
  show ?thesis
  proof (cases "isred w")
    case False
    thus ?thesis using nn par z s
      by (intro exI [of _ m] exI [of _ w] exI [of _ cp] exI [of _ C]) (auto simp: delete_sibling_def get_def)
  next
    case True
    obtain y w1 ky w2 where w: "w = nd d w1 (y, True, ky) w2"
      using True by (cases w rule: nd_cases [where d = d]) auto
    have y: "rb_ch m (opp d) p = y" using zip_at_node(1) [OF zw [unfolded w]] .
    have dist: "p \<noteq> y" "y \<notin> addrs t \<union> addrs w1 \<union> addrs w2" "p \<notin> addrs t \<union> addrs w1 \<union> addrs w2"
      using zp by (auto simp: zip_at_def w)
    let ?m = "recolour p True (recolour y False m)"
    have "zip_at ?m C p (recol p True (recol y False (nd d t (p, cp, kp) w)))"
      by (intro zip_at_recolour zp) (auto simp: w)
    hence "zip_at ?m C p (nd d t (p, True, kp) (nd d w1 (y, False, ky) w2))" using dist by (simp add: w)
    from rotate_zip [OF this] obtain m1 where m1: "rotate d p ?m = Some m1" "same_data ?m m1"
      "zip_at m1 C y (nd d (nd d t (p, True, kp) w1) (y, False, ky) w2)" by blast
    have "zip_at m1 ((d, (y, False, ky), w2) # C) p (nd d t (p, True, kp) w1)"
      using zip_at_down [OF m1(3)] zip_at_node(1) by fastforce
    hence z1: "zip_at m1 ((d, (p, True, kp), w1) # (d, (y, False, ky), w2) # C) (rb_ch m1 d p) t"
      by (rule zip_at_down)
    have x1: "rb_ch m1 d p = x" using zip_at_addr [OF z z1] m1(2) by (simp add: same_data_def)
    have par1: "rb_parent m1 x = p"
      using zip_at_parent [OF z1] x1 m1(2) par zip_at_red(3) [OF z] by (cases "t = Leaf") (auto simp: same_data_def)
    have "delete_sibling d x m = Some (rb_ch m1 (opp d) p, m1)"
      using nn par True m1(1) par1 by (simp add: delete_sibling_def get_def rbtree_black_def rbtree_red_def set_red_recolour y)
    moreover have "short ((d, (p, True, kp), w1) # (d, (y, False, ky), w2) # C) t" "\<not> isred w1"
      using s by (auto simp: short_def w)
    moreover have "inorder (nd d (nd d t (p, True, kp) w1) (y, False, ky) w2) = inorder (nd d t (p, cp, kp) w)"
      unfolding w by (rule inorder_rotate)
    ultimately show ?thesis
      using z1 x1 par1 same_data_keep [OF m1(2)]
      by (intro exI [of _ m1] exI [of _ w1] exI [of _ True] exI [of _ "(d, (y, False, ky), w2) # C"])
         (simp add: inorder_plug)
  qed
qed

text \<open>The last rotation: the outer nephew is red.\<close>

lemma delete_last:
  assumes z: "zip_at m ((d, (p, cp, kp), nd d w1 (y, cy, ky) (nd d w2 (q, True, kq) w3)) # C) x t" and par: "rb_parent m x = p"
  shows "\<exists>m'. do { p \<leftarrow> get (rb_parent m) x; pr \<leftarrow> get (rb_red m) p; m \<leftarrow> set_red y pr m; m \<leftarrow> rbtree_black p m;
                  wo \<leftarrow> get (rb_ch m (opp d)) y; m \<leftarrow> rbtree_black wo m; m \<leftarrow> rotate d p m; Some (rb_root m, m) } =
                Some (rb_root m', m') \<and> keep m m' \<and>
              zip_at m' C y (nd d (nd d t (p, False, kp) w1) (y, cp, ky) (nd d w2 (q, False, kq) w3))"
proof -
  let ?w = "nd d w1 (y, cy, ky) (nd d w2 (q, True, kq) w3)"
  have zp: "zip_at m C p (nd d t (p, cp, kp) ?w)" using zip_at_up [OF z] by auto
  have nn: "x \<noteq> nullptr" "p \<noteq> nullptr" "y \<noteq> nullptr" "q \<noteq> nullptr" "rb_red m p = cp" "rb_ch m (opp d) y = q"
    using zp zip_at_red(1) [OF z] by (auto simp: zip_at_def)
  have dist: "p \<noteq> y" "p \<noteq> q" "y \<noteq> q" "y \<notin> addrs t \<union> addrs w1 \<union> addrs w2 \<union> addrs w3" 
    "p \<notin> addrs t \<union> addrs w1 \<union> addrs w2 \<union> addrs w3" "q \<notin> addrs t \<union> addrs w1 \<union> addrs w2 \<union> addrs w3"
    using zp by (auto simp: zip_at_def)
  let ?m = "recolour q False (recolour p False (recolour y cp m))"
  have "zip_at ?m C p (recol q False (recol p False (recol y cp (nd d t (p, cp, kp) ?w))))"
    by (intro zip_at_recolour zp) auto
  hence "zip_at ?m C p (nd d t (p, False, kp) (nd d w1 (y, cp, ky) (nd d w2 (q, False, kq) w3)))" using dist by simp
  from rotate_zip [OF this] obtain m' where "rotate d p ?m = Some m'" "same_data ?m m'"
    "zip_at m' C y (nd d (nd d t (p, False, kp) w1) (y, cp, ky) (nd d w2 (q, False, kq) w3))" by blast
  thus ?thesis using nn par same_data_keep [of ?m m']
    by (auto simp: get_def rbtree_black_def set_red_recolour)
qed

text \<open>The rotation at the sibling: the inner nephew is red, the outer one black.\<close>

lemma delete_inner:
  assumes z: "zip_at m ((d, (p, cp, kp), nd d (nd d w1 (v, True, kv) w2) (y, False, ky) w3) # C) x t" and par: "rb_parent m x = p"
  shows "\<exists>m'. do { m \<leftarrow> rbtree_black v m; m \<leftarrow> rbtree_red y m; m \<leftarrow> rotate (opp d) y m; p \<leftarrow> get (rb_parent m) x;
                   w \<leftarrow> get (rb_ch m (opp d)) p; Some (w, m) } = Some (v, m') \<and> keep m m' \<and> rb_parent m' x = p \<and>
              zip_at m' ((d, (p, cp, kp), nd d w1 (v, False, kv) (nd d w2 (y, True, ky) w3)) # C) x t"
proof -
  let ?w = "nd d (nd d w1 (v, True, kv) w2) (y, False, ky) w3" and ?w' = "nd d w1 (v, False, kv) (nd d w2 (y, True, ky) w3)"
  have zp: "zip_at m C p (nd d t (p, cp, kp) ?w)" using zip_at_up [OF z] by auto
  have nn: "x \<noteq> nullptr" "p \<noteq> nullptr" "y \<noteq> nullptr" "v \<noteq> nullptr"
    using zp zip_at_red(1) [OF z] by (auto simp: zip_at_def)
  have dist: "v \<noteq> y" "y \<notin> addrs w1 \<union> addrs w2 \<union> addrs w3" "v \<notin> addrs w1 \<union> addrs w2 \<union> addrs w3"
    using zp by (auto simp: zip_at_def)
  have "rb_ch m (opp d) p = y" using zp by (auto simp: zip_at_def)
  hence zw: "zip_at m ((opp d, (p, cp, kp), t) # C) y ?w"
    using zip_at_down [of m C p "opp d" ?w] zp by (simp add: nd_opp)
  let ?m = "recolour y True (recolour v False m)"
  have "zip_at ?m ((opp d, (p, cp, kp), t) # C) y (recol y True (recol v False ?w))"
    by (intro zip_at_recolour zw) auto
  hence "zip_at ?m ((opp d, (p, cp, kp), t) # C) y (nd (opp d) w3 (y, True, ky) (nd (opp d) w2 (v, False, kv) w1))"
    using dist by (simp add: nd_opp)
  from rotate_zip [OF this] obtain m' where m': "rotate (opp d) y ?m = Some m'" "same_data ?m m'"
    "zip_at m' ((opp d, (p, cp, kp), t) # C) v ?w'" by (auto simp: nd_opp)
  have v: "rb_ch m' (opp d) p = v" and zp': "zip_at m' C p (nd d t (p, cp, kp) ?w')"
    using zip_at_up [OF m'(3)] by (auto simp: nd_opp)
  note z' = zip_at_down [OF zp']
  have x: "rb_ch m' d p = x" using zip_at_addr [OF z z'] m'(2) by (simp add: same_data_def)
  have "rb_parent m' x = p"
    using zip_at_parent [OF z'] x m'(2) par zip_at_red(3) [OF z] by (cases "t = Leaf") (auto simp: same_data_def)
  thus ?thesis using nn m'(1) same_data_keep [OF m'(2)] z' x v
    by (auto simp: get_def rbtree_black_def rbtree_red_def set_red_recolour)
qed

lemma delete_nephews_black:
  assumes z: "zip_at m ((d, (p, cp, kp), nd d w1 (y, False, ky) w2) # C) x t" and par: "rb_parent m x = p"
    and b: "\<not> isred w1" "\<not> isred w2"
  shows "\<exists>m'. delete_nephews d x y m = Some (p, m') \<and> keep m m' \<and>
             zip_at m' C p (nd d t (p, cp, kp) (nd d w1 (y, True, ky) w2))"
proof -
  let ?w = "nd d w1 (y, False, ky) w2"
  have zp: "zip_at m C p (nd d t (p, cp, kp) ?w)" using zip_at_up [OF z] by auto
  have y: "rb_ch m (opp d) p = y" and nn: "x \<noteq> nullptr" "y \<noteq> nullptr"
    using zp zip_at_red(1) [OF z] by (auto simp: zip_at_def)
  have zw: "zip_at m ((opp d, (p, cp, kp), t) # C) y ?w"
    using zip_at_down [of m C p "opp d" ?w] zp by (simp add: nd_opp y)
  have zw2: "zip_at m ((opp d, (y, False, ky), w1) # (opp d, (p, cp, kp), t) # C) (rb_ch m (opp d) y) w2"
    using zip_at_down [of m _ y "opp d" w2] zw by (simp add: nd_opp)
  have "zip_at (recolour y True m) C p (recol y True (nd d t (p, cp, kp) ?w))"
    by (intro zip_at_recolour zp) auto
  moreover have "y \<noteq> p" "y \<notin> addrs t \<union> addrs w1 \<union> addrs w2" using zp by (auto simp: zip_at_def)
  ultimately have "zip_at (recolour y True m) C p (nd d t (p, cp, kp) (nd d w1 (y, True, ky) w2))" by simp
  thus ?thesis
    using nn par b zip_at_red(1,2) [OF zip_at_down [OF zw]] zip_at_red(1,2) [OF zw2]
    by (intro exI [of _ "recolour y True m"])
       (auto simp: delete_nephews_def get_def rbtree_red_def set_red_recolour)
qed

lemma delete_nephews_red:
  assumes z: "zip_at m ((d, (p, cp, kp), nd d w1 (y, False, ky) w2) # C) x t" and par: "rb_parent m x = p"
    and s: "short ((d, (p, cp, kp), nd d w1 (y, False, ky) w2) # C) t" and t: "\<not> isred t" and b: "isred w1 \<or> isred w2"
  shows "\<exists>m' y' t'. delete_nephews d x y m = Some (rb_root m', m') \<and> keep m m' \<and> zip_at m' C y' t' \<and>
             inorder t' = inorder (nd d t (p, cp, kp) (nd d w1 (y, False, ky) w2)) \<and>
             invc t' \<and> isred t' = cp \<and> invh t' \<and> okh C (bh t')"
proof -
  let ?w = "nd d w1 (y, False, ky) w2"
  have zp: "zip_at m C p (nd d t (p, cp, kp) ?w)" using zip_at_up [OF z] by auto
  have y: "rb_ch m (opp d) p = y" and nn: "x \<noteq> nullptr" "y \<noteq> nullptr"
    using zp zip_at_red(1) [OF z] by (auto simp: zip_at_def)
  have zw: "zip_at m ((opp d, (p, cp, kp), t) # C) y ?w"
    using zip_at_down [of m C p "opp d" ?w] zp by (simp add: nd_opp y)
  have zw2: "zip_at m ((opp d, (y, False, ky), w1) # (opp d, (p, cp, kp), t) # C) (rb_ch m (opp d) y) w2"
    using zip_at_down [of m _ y "opp d" w2] zw by (simp add: nd_opp)
  note heads = nn zip_at_red(1,2) [OF zip_at_down [OF zw]] zip_at_red(1,2) [OF zw2]
  have inv: "invc t" "invc w1" "invc w2" "invh t" "invh w1" "invh w2" "bh w1 = bh t" "bh w2 = bh t"
    "okh C (bh t + 1 + (if cp then 0 else 1))"
    using s t invc_invc2 [of t] by (auto simp: short_def)
  show ?thesis
  proof (cases "isred w2")
    case True
    obtain q w3 kq w4 where w2: "w2 = nd d w3 (q, True, kq) w4"
      using True by (cases w2 rule: nd_cases [where d = d]) auto
    let ?t' = "nd d (nd d t (p, False, kp) w1) (y, cp, ky) (nd d w3 (q, False, kq) w4)"
    from delete_last [OF z [unfolded w2] par] obtain m' where
      "delete_nephews d x y m = Some (rb_root m', m')" "keep m m'" "zip_at m' C y ?t'"
      using heads True by (auto simp: delete_nephews_def get_def)
    moreover have "inorder ?t' = inorder (nd d t (p, cp, kp) ?w)"
      unfolding w2 by (cases d) (auto simp: nd_def)
    ultimately show ?thesis using inv True
      by (intro exI [of _ m'] exI [of _ y] exI [of _ ?t']) (auto simp: w2)
  next
    case False
    obtain v w3 kv w4 where w1: "w1 = nd d w3 (v, True, kv) w4"
      using False b by (cases w1 rule: nd_cases [where d = d]) auto
    have v: "rb_ch m d y = v" using zip_at_node(1) [OF zip_at_down [OF zw, unfolded w1]] .
    obtain m1 where m1: "do { m \<leftarrow> rbtree_black v m; m \<leftarrow> rbtree_red y m; m \<leftarrow> rotate (opp d) y m; p \<leftarrow> get (rb_parent m) x;
                   w \<leftarrow> get (rb_ch m (opp d)) p; Some (w, m) } = Some (v, m1)" "keep m m1" "rb_parent m1 x = p"
      "zip_at m1 ((d, (p, cp, kp), nd d w3 (v, False, kv) (nd d w4 (y, True, ky) w2)) # C) x t"
      using delete_inner [OF z [unfolded w1] par] by blast
    let ?t' = "nd d (nd d t (p, False, kp) w3) (v, cp, kv) (nd d w4 (y, False, ky) w2)"
    from delete_last [OF m1(4) m1(3)] obtain m' where
      "delete_nephews d x y m = Some (rb_root m', m')" "keep m1 m'" "zip_at m' C v ?t'"
      using heads False b m1(1) by (auto simp: delete_nephews_def get_def v)
    moreover have "inorder ?t' = inorder (nd d t (p, cp, kp) ?w)"
      unfolding w1 by (cases d) (auto simp: nd_def)
    ultimately show ?thesis using inv False keep_trans [OF m1(2)]
      by (intro exI [of _ m'] exI [of _ v] exI [of _ ?t']) (auto simp: w1)
  qed
qed

lemma delete_fix_ok:
  assumes "zip_at m C x t" "\<And>f D. C = f # D \<Longrightarrow> rb_parent m x = fst (fst (snd f))" "short C t"
  shows "\<exists>m' t'. delete_fix m x = Some m' \<and> keep m m' \<and> rtree m' t' \<and> rb t' \<and> inorder t' = inorder (plug C t)"
  using assms
proof (induction "length C" arbitrary: m C x t rule: less_induct)
  case less
  show ?case
  proof (cases "C = [] \<or> isred t")
    case True
    thus ?thesis using delete_fix_end less.prems by blast
  next
    case False
    then obtain d p cp kp w C1 where C: "C = (d, (p, cp, kp), w) # C1"
      by (metis list.exhaust prod_cases3 prod.collapse)
    note z = less.prems(1) [unfolded C] and par = less.prems(2) [OF C, simplified] and s = less.prems(3) [unfolded C]
    have zp: "zip_at m C1 p (nd d t (p, cp, kp) w)" and x: "rb_ch m d p = x" using zip_at_up [OF z] by auto
    have wn: "w \<noteq> Leaf" using s by (auto simp: short_def)
    have "rb_ch m (opp d) p \<noteq> rb_ch m d p"
      using zip_at_side [of m C1 p "opp d" w cp kp t d] zp wn by (simp add: nd_opp)
    hence d: "(if x = rb_ch m L p then L else R) = d" using x by (cases d) auto
    obtain m1 w' cp' C' where m1: "delete_sibling d x m = Some (rb_ch m1 (opp d) p, m1)" "keep m m1"
      "zip_at m1 ((d, (p, cp', kp), w') # C') x t" "rb_parent m1 x = p" "short ((d, (p, cp', kp), w') # C') t" "\<not> isred w'"
      "inorder (plug ((d, (p, cp', kp), w') # C') t) = inorder (plug C t)" "C' = C1 \<or> cp'"
      using delete_sibling_ok [OF z par s] by (auto simp: C)
    obtain y w1 ky w2 where w': "w' = nd d w1 (y, False, ky) w2"
      using m1(5,6) by (cases w' rule: nd_cases [where d = d]) (auto simp: short_def)
    have y: "rb_ch m1 (opp d) p = y" using zip_at_up [OF m1(3)] by (auto simp: w' zip_at_def)
    have unf: "delete_fix m x = do { (temp, m) \<leftarrow> delete_nephews d x y m1; delete_fix m temp }"
      using zip_at_not_root [OF less.prems(1)] False zip_at_red(1,2) [OF less.prems(1)] par zip_at_node(2) [OF zp] d m1(1)
      by (subst delete_fix.simps) (simp add: get_def Let_def y)
    show ?thesis
    proof (cases "isred w1 \<or> isred w2")
      case True
      obtain m2 y' t' where m2: "delete_nephews d x y m1 = Some (rb_root m2, m2)" "keep m1 m2" "zip_at m2 C' y' t'"
        "inorder t' = inorder (nd d t (p, cp', kp) w')" "invc t'" "isred t' = cp'" "invh t'" "okh C' (bh t')"
        using delete_nephews_red [OF m1(3) [unfolded w'] m1(4) m1(5) [unfolded w']] False True by (auto simp: w')
      have "okc C' cp'" using m1(5) by (simp add: short_def)
      hence "rb (plug C' t')" using m2 by (simp add: rb_plug)
      hence "short [] (plug C' t')" using invc_invc2 by (auto simp: rb_def short_def)
      moreover have "zip_at m2 [] (rb_root m2) (plug C' t')" using m2(3) zip_at_plug rtree_def by blast
      ultimately obtain m3 t3 where "delete_fix m2 (rb_root m2) = Some m3" "keep m2 m3" "rtree m3 t3" "rb t3"
        "inorder t3 = inorder (plug C' t')"
        using delete_fix_end [of m2 "[]" "rb_root m2" "plug C' t'"] by auto
      thus ?thesis using unf m1(2,7) m2(1,2,4) by (auto simp: keep_def inorder_plug)
    next
      case black: False
      let ?t = "nd d t (p, cp', kp) (nd d w1 (y, True, ky) w2)"
      obtain m2 where m2: "delete_nephews d x y m1 = Some (p, m2)" "keep m1 m2" "zip_at m2 C' p ?t"
        using delete_nephews_black [OF m1(3) [unfolded w'] m1(4)] black by auto
      have s2: "short C' ?t" using m1(5) False black invc_invc2 [of t] by (cases cp') (auto simp: short_def w' intro: okc_black)
      have io: "inorder (plug C' ?t) = inorder (plug C t)"
        unfolding m1(7) [symmetric] w' by (cases d) (auto simp: inorder_plug nd_def)
      have par2: "rb_parent m2 p = fst (fst (snd f))" if "C' = f # D" for f D
        using zip_at_parent m2(3) that by (cases f) (metis fst_conv nd_neq_Leaf(1) prod.collapse snd_conv)
      have "\<exists>m' t'. delete_fix m2 p = Some m' \<and> keep m2 m' \<and> rtree m' t' \<and> rb t' \<and> inorder t' = inorder (plug C' ?t)"
        using less.hyps [OF _ m2(3) par2 s2] delete_fix_end [OF m2(3) _ s2] m1(8) by (auto simp: C)
      thus ?thesis using unf m2(1,2) m1(2) io by (auto simp: keep_def)
    qed
  qed
qed

section \<open>One node takes the place of another\<close>

definition replaced :: "addr \<Rightarrow> addr \<Rightarrow> dir \<Rightarrow> rbtree_t \<Rightarrow> rbtree_t" where
  "replaced a b d2 m = m\<lparr>
      rb_ch := (\<lambda>e x. if x = b then rb_ch m e a else if a \<noteq> rb_root m \<and> x = rb_parent m a \<and> e = d2 then b else rb_ch m e x),
      rb_parent := (\<lambda>x. if x = b then rb_parent m a
                        else if x \<noteq> rb_sentinel m \<and> (x = rb_ch m L a \<or> x = rb_ch m R a) then b else rb_parent m x),
      rb_red := (rb_red m)(b := rb_red m a),
      rb_root := (if a = rb_root m then b else rb_root m)\<rparr>"

lemma replace_node_eq:
  assumes "b \<noteq> nullptr" "a \<noteq> b"
    and "a \<noteq> rb_root m \<Longrightarrow> rb_parent m a \<noteq> nullptr \<and> rb_parent m a \<noteq> b \<and> rb_ch m d2 (rb_parent m a) = a \<and> rb_ch m (opp d2) (rb_parent m a) \<noteq> a"
    and "rb_ch m L a \<noteq> nullptr" "rb_ch m R a \<noteq> nullptr" "rb_ch m L a \<noteq> b" "rb_ch m R a \<noteq> b"
  shows "replace_node a b m = Some (replaced a b d2 m)"
  using assms
  by (cases "a = rb_root m"; cases d2; cases m)
     (auto simp: replaced_def replace_node_def get_def set_ch_def set_parent_def set_red_def fun_eq_iff dir_neq)


text \<open>What the nodes of \<open>l\<close>, \<open>r\<close> and \<open>C\<close> see of it; \<open>q\<close> is the recorded parent of \<open>r\<close>, which need not be \<open>a\<close>.\<close>

lemma replace_node_zip:
  assumes tl: "tree_at m a (rb_ch m L a) l" and tr: "tree_at m q (rb_ch m R a) r"
    and ctx: "ctx_at m C (rb_parent m a) a"
    and s: "rb_sentinel m \<noteq> nullptr" "\<not> rb_red m (rb_sentinel m)"
    and dist: "tdist (Node l (b, c, k) r)" "cdist C" "({b} \<union> addrs l \<union> addrs r) \<inter> caddrs C = {}"
    and a: "a \<noteq> b" "a \<noteq> rb_sentinel m" "a \<notin> addrs l \<union> addrs r \<union> caddrs C" and b: "b \<noteq> nullptr" "b \<noteq> rb_sentinel m"
    and d: "rb_red m a = c" "rb_key m b = k"
  shows "\<exists>m'. replace_node a b m = Some m' \<and> keep m m' \<and> zip_at m' C b (Node l (b, c, k) r) \<and>
             rb_parent m' (rb_sentinel m) = rb_parent m (rb_sentinel m)"
proof -
  define p where "p = rb_parent m a"
  define d2 where "d2 = fst (hd C)"
  have root: "a = rb_root m \<longleftrightarrow> C = []" using ctx_at_root [OF ctx] a(3) by auto
  have "a \<notin> caddrs C" using a(3) by blast
  note pc = ctx_at_link [OF ctx _ this, folded d2_def p_def]
  have pn: "p \<noteq> b" "p \<notin> addrs l" "p \<notin> addrs r" if "C \<noteq> []" using pc(1) [OF that] dist(3) by blast+
  have lr: "rb_ch m L a \<in> addrs l \<or> rb_ch m L a = rb_sentinel m \<and> l = Leaf"
    "rb_ch m R a \<in> addrs r \<or> rb_ch m R a = rb_sentinel m \<and> r = Leaf"
    using tree_at_root [OF tl] tree_at_root [OF tr] by auto
  let ?m = "replaced a b d2 m"
  have eq: "replace_node a b m = Some ?m"
  proof (rule replace_node_eq)
    show "a \<noteq> rb_root m \<Longrightarrow> rb_parent m a \<noteq> nullptr \<and> rb_parent m a \<noteq> b \<and> rb_ch m d2 (rb_parent m a) = a \<and> rb_ch m (opp d2) (rb_parent m a) \<noteq> a"
      using root pc(2,4,5) pn(1) a(2) unfolding p_def by blast
    show "rb_ch m L a \<noteq> nullptr" "rb_ch m R a \<noteq> nullptr" "rb_ch m L a \<noteq> b" "rb_ch m R a \<noteq> b"
      using tree_at_root [OF tl] tree_at_root [OF tr] s dist(1) b by auto
  qed (fact a b)+
  have "agree (addrs l - {rb_ch m L a}) m ?m" "agree (addrs r - {rb_ch m R a}) m ?m"
    unfolding agree_def using dist(1) lr pn(2,3) root by (auto simp: replaced_def p_def)
  note ag = this
  have "tree_at ?m b (rb_ch m L a) l"
    by (rule tree_at_reparent [OF tl _ ag(1)]) (use dist(1) lr pn root tree_at_root [OF tl] in \<open>auto simp: replaced_def p_def\<close>)
  moreover have "tree_at ?m b (rb_ch m R a) r"
    by (rule tree_at_reparent [OF tr _ ag(2)]) (use dist(1) lr pn root tree_at_root [OF tr] in \<open>auto simp: replaced_def p_def\<close>)
  moreover have "ctx_at ?m C p b"
  proof (rule ctx_at_relink [OF ctx [folded p_def] dist(2)])
    have ch: "rb_ch m L a \<notin> caddrs C \<or> rb_ch m L a = rb_sentinel m" "rb_ch m R a \<notin> caddrs C \<or> rb_ch m R a = rb_sentinel m"
      using lr dist(3) by auto
    show "agree (caddrs C - {p}) m ?m"
      unfolding agree_def using ch dist(3) by (auto simp: replaced_def p_def)
    show "rb_ch ?m e p = b \<and> rb_ch ?m (opp e) p = rb_ch m (opp e) p \<and> rb_parent ?m p = rb_parent m p \<and>
           rb_red ?m p = rb_red m p \<and> rb_key ?m p = rb_key m p" if C: "C = (e, g, sib) # D" for e g sib D
    proof -
      have "C \<noteq> []" "e = d2" using C by (auto simp: d2_def)
      thus ?thesis using pn ch pc(1) root by (auto simp: replaced_def p_def)
    qed
  qed (use root in \<open>simp_all add: replaced_def\<close>)
  moreover have "rb_ch ?m L b = rb_ch m L a" "rb_ch ?m R b = rb_ch m R a" "rb_parent ?m b = p"
    "rb_red ?m b = c" "rb_key ?m = rb_key m" "rb_sentinel ?m = rb_sentinel m" "rb_red ?m (rb_sentinel m) = rb_red m (rb_sentinel m)"
    "rb_parent ?m (rb_sentinel m) = rb_parent m (rb_sentinel m)"
    using b d by (auto simp: replaced_def p_def)
  ultimately show ?thesis
    using eq dist s b d unfolding zip_at_def by (intro exI [of _ ?m]) (auto simp: keep_def)
qed

section \<open>Splicing a node out\<close>

lemma zip_at_append: "(\<exists>x. zip_at m (C' @ C) x t) \<longleftrightarrow> (\<exists>x. zip_at m C x (plug C' t))"
proof (induction C' arbitrary: t)
  case (Cons f C')
  obtain d a c k sib where f: "f = (d, (a, c, k), sib)" by (cases f) auto
  have "(\<exists>x. zip_at m (f # C' @ C) x t) \<longleftrightarrow> (\<exists>x. zip_at m (C' @ C) x (nd d t (a, c, k) sib))"
    unfolding f by (metis zip_at_down zip_at_up tree_at_nd zip_at_def)
  thus ?case using Cons by (simp add: f)
qed simp

lemma rbtree_min_ok:
  assumes "zip_at m C x t" "t \<noteq> Leaf"
  shows "\<exists>C' b c k v. rbtree_min m x = Some b \<and> zip_at m (C' @ C) b (Node Leaf (b, c, k) v) \<and>
           plug C' (Node Leaf (b, c, k) v) = t \<and> cleft C' = []"
  using assms
proof (induction t arbitrary: C x)
  case (Node l e r)
  obtain a c k where e: "e = (a, c, k)" by (cases e)
  have z: "zip_at m C x (nd L l (a, c, k) r)" using Node.prems(1) by (simp add: e nd_def)
  note n = zip_at_node [OF z]
  have zl: "zip_at m ((L, (a, c, k), r) # C) (rb_ch m L a) l" using zip_at_down z n(1) by blast
  have unf: "rbtree_min m x = (if l = Leaf then Some a else rbtree_min m (rb_ch m L a))"
    using n(1,2) zip_at_red(3) [OF zl] by (subst rbtree_min.simps) (simp add: get_def)
  show ?case
  proof (cases "l = Leaf")
    case True
    thus ?thesis using unf Node.prems(1) n(1) by (intro exI [of _ "[]"]) (auto simp: e)
  next
    case False
    from Node.IH(1) [OF zl False] obtain C' b c' k' v where
      "rbtree_min m (rb_ch m L a) = Some b" "zip_at m (C' @ (L, (a, c, k), r) # C) b (Node Leaf (b, c', k') v)"
      "plug C' (Node Leaf (b, c', k') v) = l" "cleft C' = []" by blast
    moreover have "plug (C' @ [(L, (a, c, k), r)]) t = Node (plug C' t) (a, c, k) r" for t
      by (induction C' t rule: plug.induct) (auto simp: nd_def)
    moreover have "cleft (C' @ [(L, (a, c, k), r)]) = cleft C'"
      by (induction C' rule: cleft.induct) auto
    ultimately show ?thesis
      using unf False by (intro exI [of _ "C' @ [(L, (a, c, k), r)]"]) (auto simp: e)
  qed
qed simp

lemma zip_at_distinct: "zip_at m C x t \<Longrightarrow> distinct (map fst (inorder t))"
proof -
  have "tdist t \<Longrightarrow> distinct (map fst (inorder t))"
    by (induction t rule: inorder.induct) (use inorder_addrs in \<open>auto simp: image_Un [symmetric]\<close>)
  thus "zip_at m C x t \<Longrightarrow> distinct (map fst (inorder t))" by (simp add: zip_at_def)
qed

text \<open>A node with at most one child is spliced out.\<close>

definition spliced :: "dir \<Rightarrow> addr \<Rightarrow> addr \<Rightarrow> addr \<Rightarrow> rbtree_t \<Rightarrow> rbtree_t" where
  "spliced e p y q m = m\<lparr>rb_ch := (rb_ch m)(e := (rb_ch m e)(p := y)), rb_parent := (rb_parent m)(y := q)\<rparr>"

lemma spliced_zip:
  assumes z: "zip_at m ((e, (p, cp, kp), sib) # C) a (nd d Leaf (a, c, k) u)"
  shows "zip_at (spliced e p (rb_ch m (opp d) a) p m) ((e, (p, cp, kp), sib) # C) (rb_ch m (opp d) a) u"
proof -
  define y where "y = rb_ch m (opp d) a"
  obtain q where t: "tree_at m a y u" and ctx: "ctx_at m ((e, (p, cp, kp), sib) # C) q a"
    using z by (auto simp: zip_at_def y_def)
  have n: "p \<notin> addrs u" "p \<noteq> y" "y \<in> addrs u \<or> y = rb_sentinel m"
    using z tree_at_root [OF t] by (auto simp: zip_at_def)
  have "agree (addrs u - {y}) m (spliced e p y p m)" using n by (auto simp: agree_def spliced_def)
  hence "tree_at (spliced e p y p m) p y u"
    by (rule tree_at_reparent [OF t, rotated]) (use z n in \<open>auto simp: zip_at_def spliced_def\<close>)
  moreover have "ctx_at (spliced e p y p m) ((e, (p, cp, kp), sib) # C) q y"
  proof (rule ctx_at_relink [OF ctx])
    have "y \<notin> caddrs ((e, (p, cp, kp), sib) # C)"
      using n(3) z ctx_at_addrs [OF ctx] by (auto simp: zip_at_def)
    thus "agree (caddrs ((e, (p, cp, kp), sib) # C) - {q}) m (spliced e p y p m)"
      using ctx by (auto simp: agree_def spliced_def)
  qed (use z n(2) ctx in \<open>auto simp: zip_at_def spliced_def\<close>)
  ultimately show ?thesis using z ctx unfolding y_def [symmetric] by (auto simp: zip_at_def spliced_def)
qed

lemma unlink_eq:
  assumes z: "zip_at m ((e, (p, cp, kp), sib) # C) a t" and t: "t \<noteq> Leaf"
  shows "do { c \<leftarrow> get (rb_ch m L) p; if a = c then set_ch L p y m else set_ch R p y m } =
           Some (m\<lparr>rb_ch := (rb_ch m)(e := (rb_ch m e)(p := y))\<rparr>)" "rb_parent m a = p"
proof -
  have zp: "zip_at m C p (nd e t (p, cp, kp) sib)" and a: "rb_ch m e p = a" using zip_at_up [OF z] by auto
  show "do { c \<leftarrow> get (rb_ch m L) p; if a = c then set_ch L p y m else set_ch R p y m } =
           Some (m\<lparr>rb_ch := (rb_ch m)(e := (rb_ch m e)(p := y))\<rparr>)"
    using zip_at_side [OF zp t, of L] zip_at_node(2) [OF zp] a by (cases e) (auto simp: get_def set_ch_def)
  show "rb_parent m a = p" by (rule zip_at_parent [OF z t])
qed

lemma clear_node_ok:
  assumes z: "zip_at m C x t" and a: "a \<notin> addrs t" "a \<notin> caddrs C" "a \<noteq> nullptr" "a \<noteq> rb_sentinel m" "C = [] \<Longrightarrow> a \<noteq> rb_root m"
  shows "\<exists>m'. clear_node a m = Some m' \<and> zip_at m' C x t \<and> rb_key m' = (rb_key m)(a := 0) \<and> rb_sentinel m' = rb_sentinel m \<and>
             (\<forall>y. y \<noteq> a \<longrightarrow> rb_parent m' y = rb_parent m y)"
proof -
  obtain m' where m': "clear_node a m = Some m'" "rb_key m' = (rb_key m)(a := 0)" "rb_sentinel m' = rb_sentinel m"
    "\<forall>y. y \<noteq> a \<longrightarrow> rb_parent m' y = rb_parent m y" "rb_root m' = rb_root m" "rb_red m' = rb_red m"
    "\<forall>y e. y \<noteq> a \<longrightarrow> rb_ch m' e y = rb_ch m e y"
    using a(3) by (simp add: clear_node_def set_ch_def set_parent_def set_key_def)
  obtain p where p: "tree_at m p x t" "ctx_at m C p x" using z by (auto simp: zip_at_def)
  have "agree (addrs t) m m'" "agree (caddrs C) m m'" using m' a by (auto simp: agree_def)
  hence "tree_at m' p x t" "ctx_at m' C p x" using p m'(5) by (simp_all add: tree_at_agree ctx_at_agree)
  hence "zip_at m' C x t" using z m'(3,6) by (auto simp: zip_at_def)
  thus ?thesis using m' by auto
qed

section \<open>Deletion\<close>

lemma spliced_rb:
  assumes "rb (plug C (nd d Leaf (b, cb, kb) u))"
  shows "if cb then rb (plug C u) else short C u"
  using assms invc_invc2 [of u] by (auto simp: rb_plug short_def intro: okc_black)

lemma okc_entry: "okc (C' @ (d, (a, c, k), s) # C) r = okc (C' @ (d, (b, c, kb), s) # C) r"
  by (induction C' r rule: okc.induct) auto

lemma okh_entry: "okh (C' @ (d, (a, c, k), s) # C) n = okh (C' @ (d, (b, c, kb), s) # C) n"
  by (induction C' n rule: okh.induct) auto

lemma filter_fst_id: "a \<notin> fst ` set xs \<Longrightarrow> filter (\<lambda>e. fst e \<noteq> a) xs = xs"
  by (auto simp: filter_id_conv)

lemma filter_entry:
  "distinct (map fst (xs @ (a, k) # ys)) \<Longrightarrow> filter (\<lambda>e. fst e \<noteq> a) (xs @ (a, k) # ys) = xs @ ys"
  by (simp add: filter_fst_id)

text \<open>What deletion leaves: the tree without the entry of the node, whose key is cleared.\<close>

definition deleted :: "addr \<Rightarrow> rbt \<Rightarrow> rbtree_t \<Rightarrow> rbtree_t \<Rightarrow> bool" where
  "deleted a t m m' \<longleftrightarrow> (\<exists>t'. rtree m' t' \<and> rb t' \<and> inorder t' = filter (\<lambda>e. fst e \<noteq> a) (inorder t)) \<and>
     rb_key m' = (rb_key m)(a := 0) \<and> rb_sentinel m' = rb_sentinel m"

text \<open>After the splice: the node is cleared and the balance restored.\<close>

lemma delete_finish:
  assumes z: "zip_at m C y u" and par: "\<And>f D. C = f # D \<Longrightarrow> rb_parent m y = fst (fst (snd f))"
    and ok: "if red then rb (plug C u) else short C u"
    and a: "a \<notin> addrs u" "a \<notin> caddrs C" "a \<noteq> nullptr" "a \<noteq> rb_sentinel m" "C \<noteq> []"
    and io: "cleft C @ inorder u @ cright C = filter (\<lambda>e. fst e \<noteq> a) (inorder t)" and k: "keep m0 m"
  shows "\<exists>m'. do { m \<leftarrow> clear_node a m; if red then Some m else delete_fix m y } = Some m' \<and> deleted a t m0 m'"
proof -
  obtain m1 where m1: "clear_node a m = Some m1" "zip_at m1 C y u" "rb_key m1 = (rb_key m)(a := 0)"
    "rb_sentinel m1 = rb_sentinel m" "\<forall>x. x \<noteq> a \<longrightarrow> rb_parent m1 x = rb_parent m x"
    using clear_node_ok [OF z a(1-4)] a(5) by blast
  have io': "inorder (plug C u) = filter (\<lambda>e. fst e \<noteq> a) (inorder t)" using io by (simp add: inorder_plug)
  show ?thesis
  proof (cases red)
    case True
    have "rtree m1 (plug C u)" using m1(2) zip_at_plug by blast
    thus ?thesis using True m1 ok io' k by (auto simp: deleted_def keep_def)
  next
    case False
    have "y \<noteq> a" using zip_at_red(3) [OF z] z a(1,4) tree_at_root by (fastforce simp: zip_at_def)
    hence p1: "rb_parent m1 y = fst (fst (snd f))" if "C = f # D" for f D using m1(5) par that by simp
    have "\<exists>m2 t2. delete_fix m1 y = Some m2 \<and> keep m1 m2 \<and> rtree m2 t2 \<and> rb t2 \<and> inorder t2 = inorder (plug C u)"
      by (rule delete_fix_ok [OF m1(2)]) (use p1 False ok in simp_all)
    thus ?thesis using False m1 io' k by (auto simp: deleted_def keep_def)
  qed
qed

text \<open>The node has at most one child.\<close>

lemma delete_pick_one:
  assumes z: "zip_at m C a (nd d Leaf (a, c, k) u)" and u: "d = R \<Longrightarrow> u \<noteq> Leaf"
  shows "delete_pick a m = Some (a, rb_ch m (opp d) a)"
proof -
  have "zip_at m ((opp d, (a, c, k), Leaf) # C) (rb_ch m (opp d) a) u"
    using zip_at_down [of m C a "opp d" u] z by (simp add: nd_opp)
  note y = zip_at_red(3) [OF this]
  have "rb_ch m d a = rb_sentinel m" using zip_at_red(3) [OF zip_at_down [OF z]] by simp
  thus ?thesis using zip_at_node(2) [OF z] y u by (cases d) (auto simp: delete_pick_def get_def)
qed

lemma delete_root_one:
  assumes z: "zip_at m [] a (nd d Leaf (a, c, k) u)" and u: "d = R \<Longrightarrow> u \<noteq> Leaf" and r: "rb (nd d Leaf (a, c, k) u)"
  shows "\<exists>m'. rbtree_delete a m = Some m' \<and> deleted a (nd d Leaf (a, c, k) u) m m'"
proof -
  define y where "y = rb_ch m (opp d) a"
  let ?m = "m\<lparr>rb_root := y\<rparr>"
  have root: "rb_root m = a" and a: "a \<noteq> nullptr" "a \<noteq> rb_sentinel m" "a \<notin> addrs u" and t: "tree_at m a y u"
    using z by (auto simp: zip_at_def y_def)
  have "tree_at ?m a y u" using t tree_at_agree [of u m ?m] by (auto simp: agree_def)
  hence zy: "zip_at ?m [] y u" using z by (auto simp: zip_at_def)
  obtain m1 t1 where m1: "rbtree_black y ?m = Some m1" "keep ?m m1" "zip_at m1 [] y t1" "inorder t1 = inorder u" "rb t1"
    using zip_at_black [OF zy] r invc_invc2 [of u] by (auto simp: rb_def)
  have t1: "addrs t1 = addrs u" using m1(4) inorder_addrs by metis
  have "rb_root m1 = y" using m1(3) by (simp add: zip_at_def)
  hence "a \<noteq> rb_root m1" using tree_at_root [OF t] a by auto
  then obtain m2 where m2: "clear_node a m1 = Some m2" "zip_at m2 [] y t1" "rb_key m2 = (rb_key m1)(a := 0)"
    "rb_sentinel m2 = rb_sentinel m1"
    using clear_node_ok [OF m1(3), of a] a m1(2) t1 by (auto simp: keep_def)
  have "rtree m2 t1" using m2(2) zip_at_plug [of m2 "[]" t1] by auto
  moreover have "inorder u = filter (\<lambda>e. fst e \<noteq> a) (inorder (nd d Leaf (a, c, k) u))"
    using a(3) inorder_addrs [of u] by (cases d) (auto simp: nd_def filter_fst_id)
  ultimately show ?thesis
    using m1 m2 delete_pick_one [OF z u]
    by (auto simp: rbtree_delete_def root deleted_def keep_def y_def [symmetric])
qed

lemma delete_inner_one:
  assumes z: "zip_at m C a (nd d Leaf (a, c, k) u)" and u: "d = R \<Longrightarrow> u \<noteq> Leaf" and C: "C \<noteq> []"
    and r: "rb (plug C (nd d Leaf (a, c, k) u))"
  shows "\<exists>m'. rbtree_delete a m = Some m' \<and> deleted a (plug C (nd d Leaf (a, c, k) u)) m m'"
proof -
  obtain e p cp kp sib D where Ce: "C = (e, (p, cp, kp), sib) # D"
    using C by (metis list.exhaust prod_cases3 prod.collapse)
  define y where "y = rb_ch m (opp d) a"
  let ?m = "spliced e p y p m"
  note zz = z [unfolded Ce]
  have zs: "zip_at ?m C y u" using spliced_zip [OF zz] by (simp add: Ce y_def)
  have a: "a \<notin> addrs u" "a \<notin> caddrs C" "a \<noteq> nullptr" "a \<noteq> rb_sentinel m" "rb_red m a = c"
    using z zip_at_node [OF z] by (auto simp: zip_at_def)
  have "distinct (map fst (inorder (plug C (nd d Leaf (a, c, k) u))))"
    using z zip_at_plug zip_at_distinct rtree_def by blast
  hence "cleft C @ inorder u @ cright C = filter (\<lambda>e. fst e \<noteq> a) (inorder (plug C (nd d Leaf (a, c, k) u)))"
    using filter_entry [of "cleft C" a k "inorder u @ cright C"] filter_entry [of "cleft C @ inorder u" a k "cright C"]
    by (cases d) (auto simp: inorder_plug nd_def)
  moreover have "rb_parent ?m y = p" "keep m ?m" by (auto simp: spliced_def keep_def)
  ultimately obtain m' where m': "do { m \<leftarrow> clear_node a ?m; if c then Some m else delete_fix m y } = Some m'"
    "deleted a (plug C (nd d Leaf (a, c, k) u)) m m'"
    using delete_finish [OF zs _ spliced_rb [OF r], of a] a C by (auto simp: Ce spliced_def)
  note ul = unlink_eq(1) [OF zz nd_neq_Leaf(1), of y] unlink_eq(2) [OF zz nd_neq_Leaf(1)]
  have "p \<noteq> nullptr" using zip_at_up [OF zz] zip_at_node(2) by blast
  have "y \<noteq> nullptr" using zip_at_red(1) [OF zs] .
  have "rbtree_delete a m = Some m'"
    using m'(1) delete_pick_one [OF z u, folded y_def] zip_at_not_root [OF z C] a(3,5) ul \<open>y \<noteq> nullptr\<close> \<open>p \<noteq> nullptr\<close>
    by (auto simp: rbtree_delete_def get_def set_parent_def spliced_def bind_eq_Some_conv)
  thus ?thesis using m'(2) by blast
qed

text \<open>
  The node \<open>a\<close> has two children and the least node \<open>b\<close> of its right subtree takes its place: \<open>b\<close> is the right child
  of \<open>a\<close>, or it lies deeper.
\<close>

lemma replace_adjacent:
  assumes z: "zip_at m ((R, (a, c, k), l) # C) b (Node Leaf (b, cb, kb) v)" and y: "y = rb_ch m R b"
  shows "\<exists>m2. delete_replace a b y (m\<lparr>rb_ch := (rb_ch m)(R := (rb_ch m R)(a := y))\<rparr>) = Some m2 \<and> keep m m2 \<and>
           zip_at m2 C b (Node l (b, c, kb) v) \<and> (v = Leaf \<longrightarrow> rb_parent m2 (rb_sentinel m) = b)"
proof -
  let ?m = "spliced R a y b m"
  obtain q where tv: "tree_at m b y v" and tl: "tree_at m a (rb_ch m L a) l" and ctx: "ctx_at m C (rb_parent m a) a"
    and s: "rb_sentinel m \<noteq> nullptr" "\<not> rb_red m (rb_sentinel m)" "a \<noteq> rb_sentinel m" "b \<noteq> nullptr" "b \<noteq> rb_sentinel m"
    and dt: "rb_red m a = c" "rb_key m b = kb" "rb_parent m b = a"
    using z by (auto simp: zip_at_def y)
  have dist: "tdist (Node l (b, c, kb) v)" "cdist C" "({b} \<union> addrs l \<union> addrs v) \<inter> caddrs C = {}" "a \<noteq> b"
    "a \<notin> addrs l \<union> addrs v \<union> caddrs C"
    using z by (auto simp: zip_at_def)
  have yv: "y \<in> addrs v \<and> rb_parent m y = b \<or> y = rb_sentinel m \<and> v = Leaf"
    using tree_at_root [OF tv] tree_at_parent [OF tv] by (cases "v = Leaf") auto
  hence yn: "y \<noteq> a" "y \<notin> addrs l" "y \<notin> caddrs C" "y \<noteq> nullptr"
    using dist s tree_at_addrs [OF tl] ctx_at_addrs [OF ctx] tree_at_addrs [OF tv] by auto
  have "agree (addrs l) m ?m" "agree (addrs v) m ?m" "agree (caddrs C) m ?m"
    using yv yn dist(5) tree_at_addrs [OF tv] by (auto simp: agree_def spliced_def)
  hence "tree_at ?m a (rb_ch m L a) l" "tree_at ?m b y v" "ctx_at ?m C (rb_parent m a) a"
    using tl tv ctx tree_at_agree [of l m ?m] tree_at_agree [of v m ?m] ctx_at_agree [of C m ?m] by (auto simp: spliced_def)
  hence "\<exists>m2. replace_node a b ?m = Some m2 \<and> keep ?m m2 \<and> zip_at m2 C b (Node l (b, c, kb) v) \<and>
             rb_parent m2 (rb_sentinel ?m) = rb_parent ?m (rb_sentinel ?m)"
    using s dt dist yn(1) by (intro replace_node_zip) (auto simp: spliced_def)
  thus ?thesis
    using yv yn s(4,5) dt(3) by (auto simp: delete_replace_def get_def set_parent_def spliced_def keep_def dest: tree_at_addrs [OF tv])
qed

lemma caddrs_append [simp]: "caddrs (C @ D) = caddrs C \<union> caddrs D"
  by (induction C rule: caddrs.induct) auto

lemma cdist_append [simp]: "cdist (C @ D) \<longleftrightarrow> cdist C \<and> cdist D \<and> caddrs C \<inter> caddrs D = {}"
  by (induction C rule: cdist.induct) auto

lemma replace_deep:
  assumes z: "zip_at m ((e, (p, cp, kp), sib) # C' @ (R, (a, c, k), l) # C) b (Node Leaf (b, cb, kb) v)" and y: "y = rb_ch m R b"
  shows "\<exists>m2. delete_replace a b y (m\<lparr>rb_ch := (rb_ch m)(e := (rb_ch m e)(p := y))\<rparr>) = Some m2 \<and> keep m m2 \<and>
           zip_at m2 C b (Node l (b, c, kb) (plug ((e, (p, cp, kp), sib) # C') v)) \<and> (v = Leaf \<longrightarrow> rb_parent m2 (rb_sentinel m) = p)"
proof -
  let ?m = "spliced e p y p m" and ?r = "plug ((e, (p, cp, kp), sib) # C') v"
  have z1: "zip_at ?m ((e, (p, cp, kp), sib) # C' @ (R, (a, c, k), l) # C) y v"
    using spliced_zip [of m e p cp kp sib _ b L cb kb v] z by (simp add: nd_def y)
  hence "\<exists>x. zip_at ?m ((R, (a, c, k), l) # C) x ?r"
    using zip_at_append [of ?m "(e, (p, cp, kp), sib) # C'" _ v] by auto
  then obtain x where x: "zip_at ?m C a (nd R ?r (a, c, k) l)" using zip_at_up by blast
  have pb: "rb_parent m b = p" using zip_at_parent [OF z] by simp
  have zb: "zip_at m ((e, (p, cp, kp), sib) # C' @ (R, (a, c, k), l) # C) b (nd L Leaf (b, cb, kb) v)"
    using z by (simp add: nd_def)
  have b: "p \<noteq> a" "a \<noteq> b" "b \<notin> addrs ?r" "b \<notin> addrs l" "b \<notin> caddrs C" 
    using z by (auto simp: zip_at_def addrs_plug)
  note nb = zip_at_node(2,3,5) [OF zb]
  obtain q where t: "tree_at ?m q a (nd R ?r (a, c, k) l)" "ctx_at ?m C q a" using x by (auto simp: zip_at_def)
  have d: "tdist (nd R ?r (a, c, k) l)" "cdist C" "addrs (nd R ?r (a, c, k) l) \<inter> caddrs C = {}"
    "rb_sentinel ?m \<noteq> nullptr" "\<not> rb_red ?m (rb_sentinel ?m)"
    using x unfolding zip_at_def by blast+
  have "\<exists>m2. replace_node a b ?m = Some m2 \<and> keep ?m m2 \<and> zip_at m2 C b (Node l (b, c, kb) ?r) \<and>
             rb_parent m2 (rb_sentinel ?m) = rb_parent ?m (rb_sentinel ?m)"
  proof (rule replace_node_zip)
    show "tree_at ?m a (rb_ch ?m L a) l" "tree_at ?m a (rb_ch ?m R a) ?r" "ctx_at ?m C (rb_parent ?m a) a" "rb_red ?m a = c"
      "a \<noteq> rb_sentinel ?m"
      using t unfolding tree_at_nd by auto
    show "tdist (Node l (b, c, kb) ?r)" "({b} \<union> addrs l \<union> addrs ?r) \<inter> caddrs C = {}" "a \<notin> addrs l \<union> addrs ?r \<union> caddrs C"
      using d b unfolding tdist_nd addrs_nd by auto
  qed (use d b nb in \<open>simp_all add: spliced_def\<close>)
  then obtain m2 where m2: "replace_node a b ?m = Some m2" "keep ?m m2" "zip_at m2 C b (Node l (b, c, kb) ?r)"
    "rb_parent m2 (rb_sentinel ?m) = rb_parent ?m (rb_sentinel ?m)" by blast
  have "v = Leaf \<longrightarrow> y = rb_sentinel m" using zip_at_red(3) [OF z1] by (simp add: spliced_def)
  hence "v = Leaf \<longrightarrow> rb_parent m2 (rb_sentinel m) = p" using m2(4) by (auto simp: spliced_def)
  moreover have "keep m m2" using m2(2) by (simp add: keep_def spliced_def)
  moreover have "delete_replace a b y (m\<lparr>rb_ch := (rb_ch m)(e := (rb_ch m e)(p := y))\<rparr>) = Some m2"
    using m2(1) pb b(1) nb(1) zip_at_red(1) [OF z1] by (auto simp: delete_replace_def get_def set_parent_def spliced_def)
  ultimately show ?thesis using m2(3) by blast
qed

lemma delete_replace_ok:
  assumes z: "zip_at m (C' @ (R, (a, c, k), l) # C) b (Node Leaf (b, cb, kb) v)" and y: "y = rb_ch m R b"
  shows "\<exists>m1 m2. do { c \<leftarrow> get (rb_ch m L) (rb_parent m b); if b = c then set_ch L (rb_parent m b) y m else set_ch R (rb_parent m b) y m } = Some m1 \<and>
           delete_replace a b y m1 = Some m2 \<and> keep m m2 \<and> zip_at m2 (C' @ (R, (b, c, kb), l) # C) y v \<and>
           (\<forall>f D. C' @ (R, (b, c, kb), l) # C = f # D \<longrightarrow> rb_parent m2 y = fst (fst (snd f)))"
proof -
  have bn: "Node Leaf (b, cb, kb) v \<noteq> Leaf" by simp
  have zy: "zip_at m ((R, (b, cb, kb), Leaf) # C' @ (R, (a, c, k), l) # C) y v"
    using zip_at_down [of m _ b R v cb kb Leaf] z by (simp add: nd_def y)
  have "\<exists>m1 m2. do { c \<leftarrow> get (rb_ch m L) (rb_parent m b); if b = c then set_ch L (rb_parent m b) y m else set_ch R (rb_parent m b) y m } = Some m1 \<and>
           delete_replace a b y m1 = Some m2 \<and> keep m m2 \<and> zip_at m2 C b (Node l (b, c, kb) (plug C' v)) \<and>
           (\<forall>f D. C' @ (R, (b, c, kb), l) # C = f # D \<longrightarrow> v = Leaf \<longrightarrow> rb_parent m2 (rb_sentinel m) = fst (fst (snd f)))"
  proof (cases C')
    case Nil
    note z0 = z [unfolded Nil append_Nil]
    show ?thesis
      using replace_adjacent [OF z0 y] unlink_eq(1) [OF z0 bn, of y] unlink_eq(2) [OF z0 bn] by (auto simp: Nil)
  next
    case (Cons f D')
    obtain e p cp kp sib where f: "f = (e, (p, cp, kp), sib)" by (cases f) auto
    note z0 = z [unfolded Cons f append_Cons]
    show ?thesis
      using replace_deep [OF z0 y] unlink_eq(1) [OF z0 bn, of y] unlink_eq(2) [OF z0 bn] by (auto simp: Cons f)
  qed
  then obtain m1 m2 where m2: "do { c \<leftarrow> get (rb_ch m L) (rb_parent m b); if b = c then set_ch L (rb_parent m b) y m else set_ch R (rb_parent m b) y m } = Some m1"
    "delete_replace a b y m1 = Some m2" "keep m m2" "zip_at m2 C b (nd R (plug C' v) (b, c, kb) l)"
    "\<forall>f D. C' @ (R, (b, c, kb), l) # C = f # D \<longrightarrow> v = Leaf \<longrightarrow> rb_parent m2 (rb_sentinel m) = fst (fst (snd f))"
    by (auto simp: nd_def)
  obtain x where x: "zip_at m2 (C' @ (R, (b, c, kb), l) # C) x v"
    using zip_at_down [OF m2(4)] zip_at_append by blast
  have xy: "x = y" using zip_at_addr [OF zy x] m2(3) by (simp add: keep_def)
  have "rb_parent m2 y = fst (fst (snd f))" if f: "C' @ (R, (b, c, kb), l) # C = f # D" for f D
  proof (cases "v = Leaf")
    case True
    thus ?thesis using m2(5) f zip_at_red(3) [OF zy] by simp
  next
    case False
    obtain e p cp kp sib where g: "f = (e, (p, cp, kp), sib)" by (cases f) auto
    show ?thesis using zip_at_parent [OF x [unfolded f g] False] by (simp add: xy g)
  qed
  thus ?thesis using m2(1-3) x xy by blast
qed

lemma delete_two:
  assumes z: "zip_at m C a (Node l (a, c, k) r)" and lr: "l \<noteq> Leaf" "r \<noteq> Leaf" and rb: "rb (plug C (Node l (a, c, k) r))"
  shows "\<exists>m'. rbtree_delete a m = Some m' \<and> deleted a (plug C (Node l (a, c, k) r)) m m'"
proof -
  have zR: "zip_at m C a (nd R r (a, c, k) l)" and zL: "zip_at m C a (nd L l (a, c, k) r)" using z by (simp_all add: nd_def)
  obtain C' b cb kb v where b: "rbtree_min m (rb_ch m R a) = Some b"
    "zip_at m (C' @ (R, (a, c, k), l) # C) b (Node Leaf (b, cb, kb) v)" "plug C' (Node Leaf (b, cb, kb) v) = r" "cleft C' = []"
    using rbtree_min_ok [OF zip_at_down [OF zR] lr(2)] by blast
  have nb: "b \<noteq> nullptr" "rb_red m b = cb" using zip_at_node [of m _ b L Leaf b cb kb v] b(2) by (auto simp: nd_def)
  have bs: "rb_ch m L b = rb_sentinel m" using b(2) by (auto simp: zip_at_def)
  define y where "y = rb_ch m R b"
  obtain m1 m2 where m2: "do { c \<leftarrow> get (rb_ch m L) (rb_parent m b); if b = c then set_ch L (rb_parent m b) y m else set_ch R (rb_parent m b) y m } = Some m1"
    "delete_replace a b y m1 = Some m2" "keep m m2" "zip_at m2 (C' @ (R, (b, c, kb), l) # C) y v"
    "\<forall>f D. C' @ (R, (b, c, kb), l) # C = f # D \<longrightarrow> rb_parent m2 y = fst (fst (snd f))"
    using delete_replace_ok [OF b(2) y_def] by blast
  have pk: "delete_pick a m = Some (b, y)"
    using zip_at_node(2) [OF zL] zip_at_red(3) [OF zip_at_down [OF zL]] zip_at_red(3) [OF zip_at_down [OF zR]] lr b(1) nb(1) bs
    by (simp add: delete_pick_def get_def y_def)
  have pl: "plug C (Node l (a, c, k) r) = plug (C' @ (R, (a, c, k), l) # C) (Node Leaf (b, cb, kb) v)"
  proof -
    have "plug (C' @ D) t = plug D (plug C' t)" for D t by (induction C' t rule: plug.induct) auto
    thus ?thesis by (simp add: b(3) nd_def)
  qed
  have "if cb then rb (plug (C' @ (R, (a, c, k), l) # C) v) else short (C' @ (R, (a, c, k), l) # C) v"
    using rb pl by (intro spliced_rb [where d = L and b = b and kb = kb]) (simp add: nd_def)
  hence ok: "if cb then rb (plug (C' @ (R, (b, c, kb), l) # C) v) else short (C' @ (R, (b, c, kb), l) # C) v"
    unfolding rb_plug short_def okc_entry [of C' R a c k l C _ b kb] okh_entry [of C' R a c k l C _ b kb] .
  have a: "a \<notin> addrs v" "a \<notin> caddrs (C' @ (R, (b, c, kb), l) # C)" "a \<noteq> nullptr" "a \<noteq> rb_sentinel m" "a \<noteq> b"
    using b(2) zip_at_node(2,3) [OF zL] by (auto simp: zip_at_def)
  have cl: "cleft (C' @ D) = cleft D" "cright (C' @ D) = cright C' @ cright D" for D
    using b(4) by (induction C' rule: cleft.induct) auto
  have "distinct (map fst (inorder (plug C (Node l (a, c, k) r))))"
    using z zip_at_plug zip_at_distinct rtree_def by blast
  hence io: "cleft (C' @ (R, (b, c, kb), l) # C) @ inorder v @ cright (C' @ (R, (b, c, kb), l) # C) =
      filter (\<lambda>e. fst e \<noteq> a) (inorder (plug C (Node l (a, c, k) r)))"
    using filter_entry [of "cleft C @ inorder l" a k "(b, kb) # inorder v @ cright C' @ cright C"]
    by (simp add: pl inorder_plug cl)
  have "\<exists>m'. do { m \<leftarrow> clear_node a m2; if cb then Some m else delete_fix m y } = Some m' \<and> deleted a (plug C (Node l (a, c, k) r)) m m'" (is "\<exists>m'. ?f = _ \<and> _")
    by (rule delete_finish [OF m2(4) _ ok a(1-3) _ _ io m2(3)]) (use m2(3,5) a(4) in \<open>auto simp: keep_def\<close>)
  moreover have "b \<noteq> rb_root m" using zip_at_not_root [OF b(2)] by simp
  hence "rbtree_delete a m = ?f"
    using m2(1,2) pk nb a(5) by (auto simp: rbtree_delete_def get_def bind_eq_Some_conv split: if_splits)
  ultimately show ?thesis by simp
qed

lemma addrs_split: "a \<in> addrs t \<Longrightarrow> \<exists>C l c k r. t = plug C (Node l (a, c, k) r)"
proof (induction t)
  case (Node l e r)
  obtain b c k where e: "e = (b, c, k)" by (cases e)
  have app: "plug (C @ D) t = plug D (plug C t)" for C D t by (induction C t rule: plug.induct) auto
  consider "a = b" | "a \<in> addrs l" | "a \<in> addrs r" using Node.prems by (auto simp: e)
  thus ?case
  proof cases
    case 1
    show ?thesis by (rule exI [of _ "[]"]) (auto simp: 1 e)
  next
    case 2
    then obtain C l' c' k' r' where "l = plug C (Node l' (a, c', k') r')" using Node.IH by blast
    hence "Node l e r = plug (C @ [(L, e, r)]) (Node l' (a, c', k') r')" by (simp add: app e nd_def)
    thus ?thesis by blast
  next
    case 3
    then obtain C l' c' k' r' where "r = plug C (Node l' (a, c', k') r')" using Node.IH by blast
    hence "Node l e r = plug (C @ [(R, e, l)]) (Node l' (a, c', k') r')" by (simp add: app e nd_def)
    thus ?thesis by blast
  qed
qed simp

theorem rbtree_delete_ok:
  assumes "rtree m t" "rb t" "a \<in> addrs t"
  shows "\<exists>m'. rbtree_delete a m = Some m' \<and> deleted a t m m'"
proof -
  obtain C l c k r where t: "t = plug C (Node l (a, c, k) r)" using addrs_split [OF assms(3)] by blast
  obtain x where "zip_at m C x (Node l (a, c, k) r)" using assms(1) zip_at_plug unfolding t by blast
  hence z: "zip_at m C a (Node l (a, c, k) r)" by (auto simp: zip_at_def)
  have one: "\<exists>m'. rbtree_delete a m = Some m' \<and> deleted a t m m'"
    if "Node l (a, c, k) r = nd d Leaf (a, c, k) u" "d = R \<Longrightarrow> u \<noteq> Leaf" for d u
  proof (cases "C = []")
    case True
    thus ?thesis using delete_root_one [of m a d c k u] that z assms(2) by (simp add: t)
  next
    case False
    thus ?thesis using delete_inner_one [of m C a d c k u] that z assms(2) by (simp add: t)
  qed
  show ?thesis
  proof (cases "l = Leaf \<or> r = Leaf")
    case True
    thus ?thesis using one [of L r] one [of R l] by (cases "l = Leaf") (auto simp: nd_def)
  next
    case False
    thus ?thesis using delete_two [OF z] assms(2) unfolding t by blast
  qed
qed
end
