(* ===== verification/Dfs_Rbtree_Store.thy ===== *)
theory Dfs_Rbtree_Store
  imports Dfs_Rbtree_Insert Dfs_Rbtree_Delete
begin

text \<open>
  The red-black tree as an ordered store. The contract is a locale, with what follows from it for sequences of
  operations, and it is interpreted on the tree by the results of \<open>Dfs_Rbtree_Insert\<close> and \<open>Dfs_Rbtree_Delete\<close>.
\<close>

section \<open>Insertion into a sorted list\<close>

lemma ins_sorted_simps [simp]:
  "ins_sorted e [] = [e]"
  "ins_sorted e (x # xs) = (if snd x \<le> snd e then x # ins_sorted e xs else e # x # xs)"
  by (simp_all add: ins_sorted_def)

lemma set_ins_sorted [simp]: "set (ins_sorted e xs) = insert e (set xs)"
  by (induction xs) auto

lemma sorted_ins_sorted: "sorted (map snd xs) \<Longrightarrow> sorted (map snd (ins_sorted e xs))"
  by (induction xs) auto

section \<open>The store contract\<close>

text \<open>
  What the timers rely on: a store holds entries (node, key) in the order of their keys, insertion puts the
  node after the entries with smaller or equal keys, deletion removes the entry of a node and clears its
  key, and the least entry can be read.
\<close>

locale ordered_store =
  fixes stores :: "'s \<Rightarrow> (addr \<times> int) list \<Rightarrow> bool"
    and key :: "'s \<Rightarrow> addr \<Rightarrow> int"
    and usable :: "'s \<Rightarrow> addr \<Rightarrow> bool"
    and ins :: "addr \<Rightarrow> 's \<Rightarrow> 's option"
    and del :: "addr \<Rightarrow> 's \<Rightarrow> 's option"
    and is_empty :: "'s \<Rightarrow> bool"
    and least :: "'s \<Rightarrow> addr option"
  assumes sorted: "stores m es \<Longrightarrow> sorted (map snd es)"
    and distinct: "stores m es \<Longrightarrow> distinct (map fst es)"
    and keys: "stores m es \<Longrightarrow> (a, k) \<in> set es \<Longrightarrow> key m a = k"
    and empty: "stores m es \<Longrightarrow> is_empty m \<longleftrightarrow> es = []"
    and least: "stores m (e # es) \<Longrightarrow> least m = Some (fst e)"
    and insert: "stores m es \<Longrightarrow> usable m a \<Longrightarrow> a \<notin> fst ` set es \<Longrightarrow>
      \<exists>m'. ins a m = Some m' \<and> stores m' (ins_sorted (a, key m a) es) \<and> key m' = key m \<and> usable m' = usable m"
    and delete: "stores m es \<Longrightarrow> a \<in> fst ` set es \<Longrightarrow>
      \<exists>m'. del a m = Some m' \<and> stores m' (filter (\<lambda>e. fst e \<noteq> a) es) \<and> key m' = (key m)(a := 0) \<and> usable m' = usable m"
begin

lemma least_key:
  assumes "stores m (e # es)" "(a, k) \<in> set (e # es)"
  shows "snd e \<le> k"
  using sorted [OF assms(1)] assms(2) by auto

lemma delete_least:
  assumes "stores m (e # es)"
  shows "\<exists>m'. least m = Some (fst e) \<and> del (fst e) m = Some m' \<and> stores m' es \<and> key m' = (key m)(fst e := 0) \<and> usable m' = usable m"
proof -
  have "filter (\<lambda>x. fst x \<noteq> fst e) (e # es) = es"
    using distinct [OF assms] by (simp add: filter_fst_id)
  thus ?thesis using least [OF assms] delete [OF assms, of "fst e"] by auto
qed

end

section \<open>Sequences of operations\<close>

datatype rb_op = Ins addr | Del addr

text \<open>The operations on a store, and on the list of entries that specifies it.\<close>

fun run_ops :: "(addr \<Rightarrow> 's \<Rightarrow> 's option) \<Rightarrow> (addr \<Rightarrow> 's \<Rightarrow> 's option) \<Rightarrow> rb_op list \<Rightarrow> 's \<Rightarrow> 's option" where
  "run_ops i d [] m = Some m"
| "run_ops i d (Ins a # ops) m = do { m \<leftarrow> i a m; run_ops i d ops m }"
| "run_ops i d (Del a # ops) m = do { m \<leftarrow> d a m; run_ops i d ops m }"

fun spec_ops :: "rb_op list \<Rightarrow> (addr \<Rightarrow> int) \<Rightarrow> (addr \<times> int) list \<Rightarrow> (addr \<times> int) list" where
  "spec_ops [] key es = es"
| "spec_ops (Ins a # ops) key es = spec_ops ops key (ins_sorted (a, key a) es)"
| "spec_ops (Del a # ops) key es = spec_ops ops (key(a := 0)) (filter (\<lambda>e. fst e \<noteq> a) es)"

text \<open>A node is inserted when it is not in the store and deleted when it is.\<close>

fun ops_ok :: "(addr \<Rightarrow> bool) \<Rightarrow> rb_op list \<Rightarrow> addr set \<Rightarrow> bool" where
  "ops_ok usable [] A = True"
| "ops_ok usable (Ins a # ops) A \<longleftrightarrow> usable a \<and> a \<notin> A \<and> ops_ok usable ops (insert a A)"
| "ops_ok usable (Del a # ops) A \<longleftrightarrow> a \<in> A \<and> ops_ok usable ops (A - {a})"

context ordered_store
begin

lemma run_refines:
  "stores m es \<Longrightarrow> ops_ok (usable m) ops (fst ` set es) \<Longrightarrow>
   \<exists>m'. run_ops ins del ops m = Some m' \<and> stores m' (spec_ops ops (key m) es)"
proof (induction ops arbitrary: m es)
  case (Cons op ops)
  show ?case
  proof (cases op)
    case (Ins a)
    obtain m' where m': "ins a m = Some m'" "stores m' (ins_sorted (a, key m a) es)" "key m' = key m" "usable m' = usable m"
      using insert [OF Cons.prems(1)] Cons.prems(2) by (auto simp: Ins)
    have "ops_ok (usable m') ops (fst ` set (ins_sorted (a, key m a) es))"
      using Cons.prems(2) m'(4) by (simp add: Ins)
    thus ?thesis using Cons.IH [OF m'(2)] m' by (simp add: Ins)
  next
    case (Del a)
    obtain m' where m': "del a m = Some m'" "stores m' (filter (\<lambda>e. fst e \<noteq> a) es)" "key m' = (key m)(a := 0)" "usable m' = usable m"
      using delete [OF Cons.prems(1)] Cons.prems(2) by (auto simp: Del)
    have "fst ` set (filter (\<lambda>e. fst e \<noteq> a) es) = fst ` set es - {a}" by auto
    hence "ops_ok (usable m') ops (fst ` set (filter (\<lambda>e. fst e \<noteq> a) es))"
      using Cons.prems(2) m'(4) by (simp add: Del)
    thus ?thesis using Cons.IH [OF m'(2)] m'(1) unfolding m'(3) by (simp add: Del fun_upd_def)
  qed
qed simp

end

section \<open>The tree is such a store\<close>

definition rb_stores :: "rbtree_t \<Rightarrow> (addr \<times> int) list \<Rightarrow> bool" where
  "rb_stores m es \<longleftrightarrow> (\<exists>t. rtree m t \<and> rb t \<and> inorder t = es) \<and> sorted (map snd es)"

definition rb_usable :: "rbtree_t \<Rightarrow> addr \<Rightarrow> bool" where
  "rb_usable m a \<longleftrightarrow> a \<noteq> nullptr \<and> a \<noteq> rb_sentinel m"

lemma rbtree_insert_timer_eq:
  assumes "rb_root m \<noteq> nullptr" "node \<noteq> nullptr"
  shows "rbtree_insert rbtree_insert_timer_value node m = rbtree_insert rbtree_insert_value node m"
  using assms by (simp add: rbtree_insert_def rbtree_insert_timer_value_def)

lemma tree_at_keys: "tree_at m p x t \<Longrightarrow> (a, k) \<in> set (inorder t) \<Longrightarrow> rb_key m a = k"
  by (induction m p x t rule: tree_at.induct) auto

lemma rb_stores_insert:
  assumes "rb_stores m es" "rb_usable m a" "a \<notin> fst ` set es"
  shows "\<exists>m'. rbtree_insert rbtree_insert_timer_value a m = Some m' \<and> rb_stores m' (ins_sorted (a, rb_key m a) es) \<and>
           rb_key m' = rb_key m \<and> rb_usable m' = rb_usable m"
proof -
  obtain t where t: "rtree m t" "rb t" "inorder t = es" "sorted (map snd es)" using assms(1) by (auto simp: rb_stores_def)
  have "rb_root m \<noteq> nullptr" using t(1) zip_at_red(1) by (auto simp: rtree_def)
  moreover have "a \<notin> addrs t" using assms(3) t(3) inorder_addrs by metis
  ultimately show ?thesis
    using rbtree_insert_ok [of m t a] t assms(2) sorted_ins_sorted [OF t(4)]
    by (fastforce simp: rbtree_insert_timer_eq rb_usable_def rb_stores_def keep_def)
qed

lemma rb_stores_delete:
  assumes "rb_stores m es" "a \<in> fst ` set es"
  shows "\<exists>m'. rbtree_delete a m = Some m' \<and> rb_stores m' (filter (\<lambda>e. fst e \<noteq> a) es) \<and>
           rb_key m' = (rb_key m)(a := 0) \<and> rb_usable m' = rb_usable m"
proof -
  obtain t where t: "rtree m t" "rb t" "inorder t = es" "sorted (map snd es)" using assms(1) by (auto simp: rb_stores_def)
  have "a \<in> addrs t" using assms(2) t(3) inorder_addrs by metis
  from rbtree_delete_ok [OF t(1,2) this] show ?thesis
    using t(3,4) sorted_filter [of snd] by (fastforce simp: deleted_def rb_stores_def rb_usable_def)
qed

lemma rb_stores_min:
  assumes "rb_stores m (e # es)"
  shows "rbtree_min m (rb_root m) = Some (fst e)"
proof -
  obtain t where t: "rtree m t" "inorder t = e # es" using assms by (auto simp: rb_stores_def)
  hence "t \<noteq> Leaf" by auto
  then obtain C' b c k v where "rbtree_min m (rb_root m) = Some b" "plug C' (Node Leaf (b, c, k) v) = t" "cleft C' = []"
    using rbtree_min_ok t(1) unfolding rtree_def by blast
  moreover from this(2) have "inorder (plug C' (Node Leaf (b, c, k) v)) = e # es" using t(2) by simp
  ultimately show ?thesis by (auto simp: inorder_plug)
qed

interpretation rbs: ordered_store rb_stores rb_key rb_usable "rbtree_insert rbtree_insert_timer_value" rbtree_delete
  "\<lambda>m. rb_root m = rb_sentinel m" "\<lambda>m. rbtree_min m (rb_root m)"
proof (unfold_locales, goal_cases)
  case (2 m es)
  thus ?case using zip_at_distinct by (fastforce simp: rb_stores_def rtree_def)
next
  case (3 m es a k)
  thus ?case using tree_at_keys by (fastforce simp: rb_stores_def rtree_def zip_at_def)
next
  case (4 m es)
  then obtain t where t: "rtree m t" "inorder t = es" by (auto simp: rb_stores_def)
  have "t = Leaf \<longleftrightarrow> es = []" using t(2) by (cases t rule: inorder.cases) auto
  thus ?case using zip_at_red(3) t(1) by (auto simp: rtree_def)
qed (auto simp: rb_stores_insert rb_stores_delete rb_stores_min, simp add: rb_stores_def)

section \<open>The depth of the tree\<close>

fun height :: "rbt \<Rightarrow> nat" where
  "height Leaf = 0"
| "height (Node l e r) = Suc (max (height l) (height r))"

lemma height_bh: "invc t \<Longrightarrow> invh t \<Longrightarrow> height t \<le> 2 * bh t + (if isred t then 1 else 0)"
  by (induction t rule: invh.induct) (auto split: if_splits)

lemma bh_size: "invh t \<Longrightarrow> 2 ^ bh t \<le> length (inorder t) + 1"
proof (induction t rule: invh.induct)
  case (2 l a c k r)
  have "2 ^ (bh l + 1) \<le> (length (inorder l) + 1) + (length (inorder r) + 1)"
    using 2 by simp
  thus ?case by (auto intro: order_trans)
qed simp

fun follow :: "rbtree_t \<Rightarrow> dir list \<Rightarrow> addr \<Rightarrow> addr option" where
  "follow m [] x = Some x"
| "follow m (d # ds) x = (if x = rb_sentinel m then None else follow m ds (rb_ch m d x))"

lemma follow_height:
  "tree_at m p x t \<Longrightarrow> follow m ds x = Some y \<Longrightarrow> length ds \<le> height t"
proof (induction t arbitrary: p x ds)
  case (Node l e r)
  obtain a c k where e: "e = (a, c, k)" by (cases e)
  show ?case
  proof (cases ds)
    case (Cons d ds')
    have "length ds' \<le> height (case d of L \<Rightarrow> l | R \<Rightarrow> r)"
      using Node Cons by (cases d) (auto simp: e split: if_splits)
    thus ?thesis using Cons by (cases d) auto
  qed simp
next
  case Leaf
  thus ?case by (cases ds) auto
qed

lemma rb_stores_depth:
  assumes st: "rb_stores m es" and f: "follow m ds (rb_root m) = Some x"
  shows "2 ^ length ds \<le> (length es + 1) ^ 2"
proof -
  obtain t where t: "rtree m t" "rb t" "inorder t = es" using st by (auto simp: rb_stores_def)
  have "length ds \<le> height t" using follow_height f t(1) by (auto simp: rtree_def zip_at_def)
  also have "height t \<le> 2 * bh t" using height_bh t(2) by (fastforce simp: rb_def)
  finally have "(2::nat) ^ length ds \<le> 2 ^ (2 * bh t)" by (rule power_increasing) simp
  also have "\<dots> = (2 ^ bh t) ^ 2" by (simp add: power_mult power2_eq_square mult_2 power_add)
  also have "\<dots> \<le> (length es + 1) ^ 2" using bh_size t by (intro power_mono) (auto simp: rb_def)
  finally show ?thesis .
qed

lemma rb_stores_init:
  assumes "rbtree_init s m = Some m0" "s \<noteq> nullptr"
  shows "rb_stores m0 []"
proof -
  have "rtree m0 Leaf" using assms
    by (auto simp: rbtree_init_def rbtree_sentinel_init_def rbtree_black_def set_red_def rtree_def zip_at_def)
  thus ?thesis by (auto simp: rb_stores_def rb_def intro!: exI [of _ Leaf])
qed

text \<open>C14: Starting from an initialised tree, every sequence of insertions of nodes that are not in the tree and of
  deletions of nodes that are has a result (no null dereference, every loop ends), the tree then holds the entries the
  list specification gives, in order, and a path from the root through \<open>n\<close> nodes satisfies \<open>2^n \<le> (size + 1)^2\<close>.
\<close>

theorem rbtree_ops_refine:
  assumes "rbtree_init s m = Some m0" "s \<noteq> nullptr" "ops_ok (rb_usable m0) ops {}"
  shows "\<exists>m'. run_ops (rbtree_insert rbtree_insert_timer_value) rbtree_delete ops m0 = Some m' \<and>
           rb_stores m' (spec_ops ops (rb_key m0) []) \<and>
           (\<forall>ds x. follow m' ds (rb_root m') = Some x \<longrightarrow> 2 ^ length ds \<le> (length (spec_ops ops (rb_key m0) []) + 1) ^ 2)"
  using rbs.run_refines [OF rb_stores_init [OF assms(1,2)]] assms(3) rb_stores_depth by fastforce

text \<open>A heap of nodes whose keys are their addresses.\<close>

definition heap0 :: rbtree_t where
  "heap0 = \<lparr>rb_ch = \<lambda>_ _. 0, rb_parent = \<lambda>_. 0, rb_red = \<lambda>_. True, rb_key = int, rb_root = 0, rb_sentinel = 0\<rparr>"

theorem rbtree_ops_refine_witness:
  "\<exists>m0 m'. rbtree_init 8 heap0 = Some m0 \<and>
     run_ops (rbtree_insert rbtree_insert_timer_value) rbtree_delete [Ins 30, Ins 10, Ins 20, Del 10] m0 = Some m' \<and>
     rb_stores m' [(20, 20), (30, 30)]"
proof -
  let ?m = "heap0\<lparr>rb_red := (rb_red heap0)(8 := False), rb_root := 8, rb_sentinel := 8\<rparr>"
  have i: "rbtree_init 8 heap0 = Some ?m"
    by (simp add: rbtree_init_def rbtree_sentinel_init_def rbtree_black_def set_red_def)
  have "ops_ok (rb_usable ?m) [Ins 30, Ins 10, Ins 20, Del 10] {}" by (simp add: rb_usable_def)
  moreover have "spec_ops [Ins 30, Ins 10, Ins 20, Del 10] (rb_key ?m) [] = [(20, 20), (30, 30)]"
    by (simp add: heap0_def)
  ultimately show ?thesis using rbtree_ops_refine [OF i] i by fastforce
qed
end
