(* ===== verification/Dfs_Timer.thy ===== *)
theory Dfs_Timer
  imports Dfs_Rbtree_Store
begin

text \<open>
  The event timers of \<^verbatim>\<open>src/src/core/dfs_event_timer.cpp\<close>, a client of the red-black tree: they rest on the
  interpretation of the store contract of \<open>Dfs_Rbtree_Store\<close> and are shown to refine a map from events to deadlines.
\<close>

section \<open>Timers\<close>

text \<open>
  The state is extended by the event loop (\<open>Dfs_Event\<close>), whose handlers work on the whole of it.
  An event embeds its tree node at a fixed offset (\<^verbatim>\<open>offsetof(event_t, timer)\<close>: a pointer, the flags and the
  handler come first). The state holds the tree, the address of its sentinel, the flags \<^verbatim>\<open>timer_set\<close> and
  \<^verbatim>\<open>timedout\<close> of every event, what \<^verbatim>\<open>time_handler()\<close> returns, and the handlers called so far.
\<close>

record timer_t =
  tm_rbtree :: rbtree_t
  tm_sentinel :: addr
  tm_set :: "addr \<Rightarrow> bool"
  tm_out :: "addr \<Rightarrow> bool"
  tm_clock :: int
  tm_calls :: "addr list"

definition EV_TIMER :: nat where "EV_TIMER = 24"

definition timer_node :: "addr \<Rightarrow> addr" where
  "timer_node ev = ev + EV_TIMER"

definition EVENT_TIMER_INFINITE :: int where "EVENT_TIMER_INFINITE = -1"
definition EVENT_TIMER_LAZY_DELAY :: int where "EVENT_TIMER_LAZY_DELAY = 300"

definition event_timer_init :: "'a timer_t_scheme \<Rightarrow> (int \<times> 'a timer_t_scheme) option" where
  "event_timer_init tm =
     do { m \<leftarrow> rbtree_init (tm_sentinel tm) (tm_rbtree tm); Some (NGX_OK, tm\<lparr>tm_rbtree := m\<rparr>) }"

definition event_timer_del :: "addr \<Rightarrow> 'a timer_t_scheme \<Rightarrow> 'a timer_t_scheme option" where
  "event_timer_del ev tm =
     (if \<not> tm_set tm ev then Some tm
      else do { m \<leftarrow> rbtree_delete (timer_node ev) (tm_rbtree tm);
                Some (tm\<lparr>tm_rbtree := m, tm_set := (tm_set tm)(ev := False)\<rparr>) })"

definition event_timer_insert :: "addr \<Rightarrow> int \<Rightarrow> 'a timer_t_scheme \<Rightarrow> 'a timer_t_scheme option" where
  "event_timer_insert ev key tm =
     do { m \<leftarrow> set_key (timer_node ev) key (tm_rbtree tm);
          m \<leftarrow> rbtree_insert rbtree_insert_timer_value (timer_node ev) m;
          Some (tm\<lparr>tm_rbtree := m, tm_set := (tm_set tm)(ev := True)\<rparr>) }"

definition event_timer_add :: "addr \<Rightarrow> int \<Rightarrow> 'a timer_t_scheme \<Rightarrow> 'a timer_t_scheme option" where
  "event_timer_add ev timer tm =
     do { key \<leftarrow> chk_int64 (tm_clock tm + timer);
          if tm_set tm ev then
            do { diff \<leftarrow> chk_int64 (key - rb_key (tm_rbtree tm) (timer_node ev));
                 diff \<leftarrow> chk_int64 \<bar>diff\<bar>;
                 if diff < EVENT_TIMER_LAZY_DELAY then Some tm
                 else do { tm \<leftarrow> event_timer_del ev tm; event_timer_insert ev key tm } }
          else event_timer_insert ev key tm }"

definition event_find_timer :: "'a timer_t_scheme \<Rightarrow> int option" where
  "event_find_timer tm =
     (if rb_root (tm_rbtree tm) = tm_sentinel tm then Some EVENT_TIMER_INFINITE
      else do { node \<leftarrow> rbtree_min (tm_rbtree tm) (rb_root (tm_rbtree tm));
                timer \<leftarrow> chk_int64 (rb_key (tm_rbtree tm) node - tm_clock tm);
                Some (if timer > 0 then timer else 0) })"

text \<open>\<open>handler ev\<close> is the function the event's handler pointer points to.\<close>

partial_function (option) event_timers_expire ::
  "(addr \<Rightarrow> 'a timer_t_scheme \<Rightarrow> 'a timer_t_scheme option) \<Rightarrow> 'a timer_t_scheme \<Rightarrow> 'a timer_t_scheme option" where
  "event_timers_expire handler tm =
     (if rb_root (tm_rbtree tm) = rb_sentinel (tm_rbtree tm) then Some tm
      else do {
        node \<leftarrow> rbtree_min (tm_rbtree tm) (rb_root (tm_rbtree tm));
        if rb_key (tm_rbtree tm) node \<le> tm_clock tm then do {
          let ev = node - EV_TIMER;
          m \<leftarrow> rbtree_delete (timer_node ev) (tm_rbtree tm);
          tm \<leftarrow> handler ev (tm\<lparr>tm_rbtree := m, tm_set := (tm_set tm)(ev := False), tm_out := (tm_out tm)(ev := True),
                               tm_calls := tm_calls tm @ [ev]\<rparr>);
          event_timers_expire handler tm }
        else Some tm })"

section \<open>The abstract timers\<close>

text \<open>The deadline of every event with a timer.\<close>

definition deadline :: "'a timer_t_scheme \<Rightarrow> addr \<rightharpoonup> int" where
  "deadline tm ev = (if tm_set tm ev then Some (rb_key (tm_rbtree tm) (timer_node ev)) else None)"

lemma timer_node_inj [simp]: "timer_node a = timer_node b \<longleftrightarrow> a = b"
  by (simp add: timer_node_def)

lemma timer_node_nonnull [simp]: "timer_node a \<noteq> nullptr" "timer_node a - EV_TIMER = a"
  by (simp_all add: timer_node_def EV_TIMER_def)

definition holds :: "'a timer_t_scheme \<Rightarrow> (addr \<times> int) list \<Rightarrow> bool" where
  "holds tm es \<longleftrightarrow> rb_stores (tm_rbtree tm) es \<and>
     (\<forall>ev k. (timer_node ev, k) \<in> set es \<longleftrightarrow> deadline tm ev = Some k) \<and> fst ` set es \<subseteq> range timer_node"

text \<open>
  The invariant: the tree holds the nodes of the events whose flag is set with their deadlines, deadlines and
  clock are not negative, and no event embeds the sentinel.
\<close>

definition timer_inv :: "'a timer_t_scheme \<Rightarrow> bool" where
  "timer_inv tm \<longleftrightarrow> (\<exists>es. holds tm es) \<and> rb_sentinel (tm_rbtree tm) = tm_sentinel tm \<and> tm_sentinel tm \<notin> range timer_node \<and>
     0 \<le> tm_clock tm \<and> tm_clock tm < 2 ^ 63 \<and> (\<forall>ev k. deadline tm ev = Some k \<longrightarrow> 0 \<le> k \<and> k < 2 ^ 63)"

lemma holds_keys: "holds tm es \<Longrightarrow> (timer_node ev, k) \<in> set es \<longleftrightarrow> deadline tm ev = Some k"
  by (simp add: holds_def)

lemma holds_set: "holds tm es \<Longrightarrow> timer_node ev \<in> fst ` set es \<longleftrightarrow> tm_set tm ev"
proof -
  assume h: "holds tm es"
  have "timer_node ev \<in> fst ` set es \<longleftrightarrow> (\<exists>k. (timer_node ev, k) \<in> set es)" by force
  thus ?thesis by (simp add: holds_keys [OF h] deadline_def)
qed

definition same_rest :: "'a timer_t_scheme \<Rightarrow> 'a timer_t_scheme \<Rightarrow> bool" where
  "same_rest tm tm' \<longleftrightarrow> tm_clock tm' = tm_clock tm \<and> tm_sentinel tm' = tm_sentinel tm \<and> tm_out tm' = tm_out tm \<and> tm_calls tm' = tm_calls tm"

lemma usable_node:
  assumes "rb_sentinel m \<notin> range timer_node" shows "rb_usable m (timer_node ev)"
  unfolding rb_usable_def using assms by (metis rangeI timer_node_nonnull(1))

lemma usable_sentinel: "rb_usable m' = rb_usable m \<Longrightarrow> rb_sentinel m \<noteq> nullptr \<Longrightarrow> rb_sentinel m' \<noteq> nullptr \<Longrightarrow> rb_sentinel m' = rb_sentinel m"
  by (auto simp: rb_usable_def fun_eq_iff)

lemma rb_stores_sentinel: "rb_stores m es \<Longrightarrow> rb_sentinel m \<noteq> nullptr"
  by (auto simp: rb_stores_def rtree_def zip_at_def)

lemma delete_holds:
  fixes tm :: "'a timer_t_scheme"
  assumes h: "holds tm es" and ev: "tm_set tm ev"
  shows "\<exists>m. rbtree_delete (timer_node ev) (tm_rbtree tm) = Some m \<and> rb_sentinel m = rb_sentinel (tm_rbtree tm) \<and>
    (\<forall>tm' :: 'a timer_t_scheme. tm_rbtree tm' = m \<and> tm_set tm' = (tm_set tm)(ev := False) \<longrightarrow>
        holds tm' (filter (\<lambda>e. fst e \<noteq> timer_node ev) es) \<and> deadline tm' = (deadline tm)(ev := None))"
proof -
  have st: "rb_stores (tm_rbtree tm) es" using h by (simp add: holds_def)
  obtain m where m: "rbtree_delete (timer_node ev) (tm_rbtree tm) = Some m"
    "rb_stores m (filter (\<lambda>e. fst e \<noteq> timer_node ev) es)" "rb_key m = (rb_key (tm_rbtree tm))(timer_node ev := 0)"
    "rb_usable m = rb_usable (tm_rbtree tm)"
    using rbs.delete [OF st] holds_set [OF h] ev by blast
  have "deadline tm' = (deadline tm)(ev := None)"
    if "tm_rbtree tm' = m" "tm_set tm' = (tm_set tm)(ev := False)" for tm' :: "'a timer_t_scheme"
    using that m(3) by (auto simp: deadline_def fun_eq_iff)
  thus ?thesis using m h usable_sentinel [OF m(4)] rb_stores_sentinel [OF st] rb_stores_sentinel [OF m(2)]
    by (auto simp: holds_def)
qed

lemma event_timer_del_ok:
  fixes tm :: "'a timer_t_scheme"
  assumes "timer_inv tm"
  shows "\<exists>tm'. event_timer_del ev tm = Some tm' \<and> timer_inv tm' \<and> deadline tm' = (deadline tm)(ev := None) \<and>
           same_rest tm tm' \<and> \<not> tm_set tm' ev"
proof (cases "tm_set tm ev")
  case False
  hence "deadline tm = (deadline tm)(ev := None)" by (auto simp: deadline_def fun_eq_iff)
  thus ?thesis using assms False by (auto simp: event_timer_del_def same_rest_def)
next
  case True
  obtain es where "holds tm es" using assms by (auto simp: timer_inv_def)
  from delete_holds [OF this True] obtain m where m: "rbtree_delete (timer_node ev) (tm_rbtree tm) = Some m"
    "rb_sentinel m = rb_sentinel (tm_rbtree tm)"
    "\<And>tm' :: 'a timer_t_scheme. tm_rbtree tm' = m \<Longrightarrow> tm_set tm' = (tm_set tm)(ev := False) \<Longrightarrow>
        (\<exists>es. holds tm' es) \<and> deadline tm' = (deadline tm)(ev := None)" by blast
  let ?tm = "tm\<lparr>tm_rbtree := m, tm_set := (tm_set tm)(ev := False)\<rparr>"
  have "(\<exists>es. holds ?tm es) \<and> deadline ?tm = (deadline tm)(ev := None)" by (rule m(3)) simp_all
  thus ?thesis using assms True m(1,2) by (auto simp: event_timer_del_def same_rest_def timer_inv_def)
qed

lemma event_timer_insert_ok:
  assumes inv: "timer_inv tm" and ev: "\<not> tm_set tm ev" and k: "0 \<le> k" "k < 2 ^ 63"
  shows "\<exists>tm'. event_timer_insert ev k tm = Some tm' \<and> timer_inv tm' \<and> deadline tm' = (deadline tm)(ev \<mapsto> k) \<and> same_rest tm tm'"
proof -
  obtain es where h: "holds tm es" using inv by (auto simp: timer_inv_def)
  let ?m = "(tm_rbtree tm)\<lparr>rb_key := (rb_key (tm_rbtree tm))(timer_node ev := k)\<rparr>"
  have nin: "timer_node ev \<notin> fst ` set es" using holds_set [OF h] ev by simp
  obtain t where t: "rtree (tm_rbtree tm) t" "rb t" "inorder t = es" "sorted (map snd es)"
    using h by (auto simp: holds_def rb_stores_def)
  have "timer_node ev \<notin> addrs t" using nin t(3) inorder_addrs by metis
  hence "agree (addrs t) (tm_rbtree tm) ?m" by (auto simp: agree_def)
  hence "rtree ?m t" using t(1) by (auto simp: rtree_def zip_at_def tree_at_agree)
  hence st: "rb_stores ?m es" using t by (auto simp: rb_stores_def)
  have us: "rb_usable ?m (timer_node ev)" using inv by (intro usable_node) (auto simp: timer_inv_def)
  obtain m where m: "rbtree_insert rbtree_insert_timer_value (timer_node ev) ?m = Some m"
    "rb_stores m (ins_sorted (timer_node ev, k) es)" "rb_key m = rb_key ?m" "rb_usable m = rb_usable ?m"
    using rbs.insert [OF st us nin] by auto
  let ?tm = "tm\<lparr>tm_rbtree := m, tm_set := (tm_set tm)(ev := True)\<rparr>"
  have d: "deadline ?tm = (deadline tm)(ev \<mapsto> k)" using m(3) by (auto simp: deadline_def fun_eq_iff)
  hence "holds ?tm (ins_sorted (timer_node ev, k) es)"
    using h m(2) ev by (auto simp: holds_def deadline_def)
  moreover have "rb_sentinel m = rb_sentinel (tm_rbtree tm)"
    using usable_sentinel [OF m(4)] rb_stores_sentinel [OF st] rb_stores_sentinel [OF m(2)] by simp
  ultimately show ?thesis
    using m(1) inv k d by (auto simp: event_timer_insert_def set_key_def timer_inv_def same_rest_def)
qed

lemma event_timer_add_ok:
  assumes inv: "timer_inv tm" and t: "0 \<le> timer" "tm_clock tm + timer < 2 ^ 63"
  shows "\<exists>tm'. event_timer_add ev timer tm = Some tm' \<and> timer_inv tm' \<and> same_rest tm tm' \<and>
           deadline tm' = (if \<exists>k. deadline tm ev = Some k \<and> \<bar>tm_clock tm + timer - k\<bar> < EVENT_TIMER_LAZY_DELAY
                           then deadline tm else (deadline tm)(ev \<mapsto> tm_clock tm + timer))"
proof -
  let ?k = "tm_clock tm + timer"
  have k: "0 \<le> ?k" using inv t by (simp add: timer_inv_def)
  have chk: "chk_int64 ?k = Some ?k" using k t by (simp add: chk_int64_def)
  show ?thesis
  proof (cases "tm_set tm ev")
    case False
    thus ?thesis using event_timer_insert_ok [OF inv False k t(2)] chk by (auto simp: event_timer_add_def deadline_def)
  next
    case True
    let ?o = "rb_key (tm_rbtree tm) (timer_node ev)"
    have o: "deadline tm ev = Some ?o" using True by (simp add: deadline_def)
    hence "0 \<le> ?o" "?o < 2 ^ 63" using inv by (auto simp: timer_inv_def)
    hence c2: "chk_int64 (?k - ?o) = Some (?k - ?o)" "chk_int64 \<bar>?k - ?o\<bar> = Some \<bar>?k - ?o\<bar>"
      using k t by (auto simp: chk_int64_def)
    obtain tm1 where tm1: "event_timer_del ev tm = Some tm1" "timer_inv tm1" "deadline tm1 = (deadline tm)(ev := None)"
      "same_rest tm tm1" "\<not> tm_set tm1 ev" using event_timer_del_ok [OF inv] by blast
    from event_timer_insert_ok [OF tm1(2,5) k t(2)] obtain tm2 where tm2: "event_timer_insert ev ?k tm1 = Some tm2"
      "timer_inv tm2" "deadline tm2 = (deadline tm1)(ev \<mapsto> ?k)" "same_rest tm1 tm2" by blast
    show ?thesis
      using tm1 tm2 True chk c2 o inv by (auto simp: event_timer_add_def same_rest_def)
  qed
qed

text \<open>C16: \<^verbatim>\<open>event_timer_add\<close> sets the deadline of the event to now plus the interval, except that a timer that is set and
  whose deadline would move by less than 300 ms keeps it; nothing else changes and the invariant holds.
\<close>

theorem event_timer_add_spec:
  assumes inv: "timer_inv tm" and t: "0 \<le> timer" "tm_clock tm + timer < 2 ^ 63"
  shows "\<exists>tm'. event_timer_add ev timer tm = Some tm' \<and> timer_inv tm' \<and> same_rest tm tm' \<and>
           deadline tm' = (if \<exists>k. deadline tm ev = Some k \<and> \<bar>tm_clock tm + timer - k\<bar> < EVENT_TIMER_LAZY_DELAY
                           then deadline tm else (deadline tm)(ev \<mapsto> tm_clock tm + timer))"
  using event_timer_add_ok [OF assms] .

lemma holds_nonempty: "holds tm es \<Longrightarrow> es = [] \<longleftrightarrow> deadline tm = Map.empty"
proof -
  assume h: "holds tm es"
  have "deadline tm ev = None" if "es = []" for ev using holds_keys [OF h, of ev] that by (cases "deadline tm ev") auto
  moreover have "deadline tm \<noteq> Map.empty" if "es = e # es'" for e es'
  proof -
    obtain ev where "fst e = timer_node ev" using h \<open>es = e # es'\<close> by (auto simp: holds_def)
    hence "deadline tm ev = Some (snd e)" using holds_keys [OF h, of ev "snd e"] that by (metis list.set_intros(1) prod.collapse)
    thus ?thesis by auto
  qed
  ultimately show ?thesis by (cases es) auto
qed

lemma holds_ran: "holds tm es \<Longrightarrow> ran (deadline tm) = snd ` set es"
proof -
  assume h: "holds tm es"
  have "k \<in> ran (deadline tm)" if "(a, k) \<in> set es" for a k
  proof -
    have "a \<in> range timer_node" using h that by (force simp: holds_def)
    thus ?thesis using holds_keys [OF h] that by (auto simp: ran_def)
  qed
  moreover have "k \<in> snd ` set es" if "k \<in> ran (deadline tm)" for k
    using that holds_keys [OF h] by (force simp: ran_def)
  ultimately show ?thesis by force
qed

text \<open>\<^verbatim>\<open>event_find_timer\<close> is the time until the earliest deadline, zero when it has passed, and -1 without timers.
\<close>

theorem event_find_timer_least:
  assumes inv: "timer_inv tm"
  shows "event_find_timer tm =
    Some (if deadline tm = Map.empty then EVENT_TIMER_INFINITE else max 0 (Min (ran (deadline tm)) - tm_clock tm))"
proof -
  obtain es where h: "holds tm es" using inv by (auto simp: timer_inv_def)
  hence st: "rb_stores (tm_rbtree tm) es" by (simp add: holds_def)
  have s: "rb_sentinel (tm_rbtree tm) = tm_sentinel tm" using inv by (simp add: timer_inv_def)
  show ?thesis
  proof (cases es)
    case Nil
    thus ?thesis using rbs.empty [OF st] holds_nonempty [OF h] s by (simp add: event_find_timer_def)
  next
    case (Cons e es')
    have m: "rbtree_min (tm_rbtree tm) (rb_root (tm_rbtree tm)) = Some (fst e)" using rbs.least st unfolding Cons by blast
    have "Min (snd ` set es) = snd e"
      using rbs.sorted [OF st] by (intro Min_eqI) (auto simp: Cons)
    moreover have key: "rb_key (tm_rbtree tm) (fst e) = snd e" using rbs.keys [OF st, of "fst e" "snd e"] by (simp add: Cons)
    moreover have "0 \<le> snd e \<and> snd e < 2 ^ 63"
    proof -
      have "snd e \<in> ran (deadline tm)" by (simp add: holds_ran [OF h] Cons)
      thus ?thesis using inv by (auto simp: timer_inv_def ran_def)
    qed
    ultimately show ?thesis
      using inv m rbs.empty [OF st] holds_nonempty [OF h] s holds_ran [OF h]
      by (auto simp: event_find_timer_def chk_int64_def Cons timer_inv_def max_def)
  qed
qed

section \<open>Expiry\<close>

text \<open>What the loop asks of the handlers at the time \<open>now\<close>: they keep the invariant of the timers and one of the rest of the
  state, keep the clock, and a timer that they set is due later only.\<close>

definition rearmed :: "'a timer_t_scheme \<Rightarrow> 'a timer_t_scheme \<Rightarrow> bool" where
  "rearmed tm tm' \<longleftrightarrow> (\<forall>ev k. deadline tm' ev = Some k \<longrightarrow> deadline tm ev = Some k \<or> tm_clock tm < k)"

definition well_behaved :: "int \<Rightarrow> ('a \<Rightarrow> bool) \<Rightarrow> (addr \<Rightarrow> 'a timer_t_scheme \<Rightarrow> 'a timer_t_scheme option) \<Rightarrow> bool" where
  "well_behaved now J handler \<longleftrightarrow> (\<forall>ev tm. timer_inv tm \<longrightarrow> tm_clock tm = now \<longrightarrow> J (timer_t.more tm) \<longrightarrow>
     (\<exists>tm'. handler ev tm = Some tm' \<and> timer_inv tm' \<and> J (timer_t.more tm') \<and> rearmed tm tm' \<and>
           tm_clock tm' = tm_clock tm \<and> tm_calls tm' = tm_calls tm))"

text \<open>The events whose deadline has passed; every turn takes one away.\<close>

definition due :: "'a timer_t_scheme \<Rightarrow> addr set" where
  "due tm = {ev. \<exists>k \<le> tm_clock tm. deadline tm ev = Some k}"

text \<open>
  What expiry has to do, on the level of deadlines: as long as a timer is due, take one with the least deadline, disarm it,
  mark it as timed out and run its handler. \<open>expiry handler tm evs tm'\<close> says that this leads from \<open>tm\<close> to \<open>tm'\<close> with the
  handlers of \<open>evs\<close> called in this order; it ends only when nothing is due any more.
\<close>

definition fired :: "'a timer_t_scheme \<Rightarrow> addr \<Rightarrow> 'a timer_t_scheme \<Rightarrow> bool" where
  "fired tm ev tm' \<longleftrightarrow> deadline tm' = (deadline tm)(ev := None) \<and> tm_out tm' = (tm_out tm)(ev := True) \<and>
     tm_clock tm' = tm_clock tm \<and> tm_calls tm' = tm_calls tm @ [ev] \<and> timer_t.more tm' = timer_t.more tm"

inductive expiry :: "(addr \<Rightarrow> 'a timer_t_scheme \<Rightarrow> 'a timer_t_scheme option) \<Rightarrow> 'a timer_t_scheme \<Rightarrow> addr list \<Rightarrow> 'a timer_t_scheme \<Rightarrow> bool"
  for handler where
  finish: "due tm = {} \<Longrightarrow> expiry handler tm [] tm"
| turn: "ev \<in> due tm \<Longrightarrow> (\<And>ev' k'. deadline tm ev' = Some k' \<Longrightarrow> the (deadline tm ev) \<le> k') \<Longrightarrow> fired tm ev tm1 \<Longrightarrow>
    timer_inv tm1 \<Longrightarrow> handler ev tm1 = Some tm2 \<Longrightarrow> tm_clock tm2 = tm_clock tm \<Longrightarrow> expiry handler tm2 evs tm' \<Longrightarrow> expiry handler tm (ev # evs) tm'"

text \<open>If no handler touches the timers of other events, every due timer gets its call.\<close>

lemma expiry_calls_all:
  assumes "expiry handler tm evs tm'" "\<And>ev a b x. timer_inv a \<Longrightarrow> handler ev a = Some b \<Longrightarrow> x \<noteq> ev \<Longrightarrow> deadline b x = deadline a x"
  shows "due tm \<subseteq> set evs"
  using assms(1)
proof (induction rule: expiry.induct)
  case (turn ev tm tm1 tm2 evs tm')
  have "x \<in> due tm2" if "x \<in> due tm" "x \<noteq> ev" for x
  proof -
    have "deadline tm2 x = deadline tm x" using assms(2)[OF turn.hyps(4,5) that(2)] turn.hyps(3) that(2) by (simp add: fired_def)
    then show ?thesis using that(1) turn.hyps(6) by (simp add: due_def)
  qed
  then show ?case using turn.IH by auto
qed simp

lemma holds_finite: "holds tm es \<Longrightarrow> finite (dom (deadline tm))"
proof -
  assume h: "holds tm es"
  have "dom (deadline tm) \<subseteq> timer_node -` (fst ` set es)"
    using holds_keys [OF h] by force
  moreover have "finite (timer_node -` (fst ` set es))" by (rule finite_vimageI) (auto simp: inj_on_def)
  ultimately show ?thesis by (rule finite_subset)
qed

text \<open>One turn of the loop.\<close>

lemma expire_step:
  fixes tm :: "'a timer_t_scheme"
  assumes inv: "timer_inv tm" "J (timer_t.more tm)" and w: "well_behaved (tm_clock tm) J handler"
  shows "(\<forall>ev k. deadline tm ev = Some k \<longrightarrow> tm_clock tm < k) \<and> event_timers_expire handler tm = Some tm \<or>
    (\<exists>ev k tm'. event_timers_expire handler tm = event_timers_expire handler tm' \<and> timer_inv tm' \<and> J (timer_t.more tm') \<and>
        deadline tm ev = Some k \<and> k \<le> tm_clock tm \<and> (\<forall>ev' k'. deadline tm ev' = Some k' \<longrightarrow> k \<le> k') \<and>
        (\<forall>ev' k'. deadline tm' ev' = Some k' \<longrightarrow> ev' \<noteq> ev \<and> deadline tm ev' = Some k' \<or> tm_clock tm < k') \<and>
        tm_clock tm' = tm_clock tm \<and> tm_calls tm' = tm_calls tm @ [ev] \<and> (\<exists>tm1. fired tm ev tm1 \<and> timer_inv tm1 \<and> handler ev tm1 = Some tm'))"
proof -
  obtain es where h: "holds tm es" using inv by (auto simp: timer_inv_def)
  hence st: "rb_stores (tm_rbtree tm) es" by (simp add: holds_def)
  show ?thesis
  proof (cases es)
    case Nil
    hence "deadline tm = Map.empty" using holds_nonempty [OF h] by simp
    thus ?thesis using rbs.empty [OF st] Nil by (subst (1) event_timers_expire.simps) simp
  next
    case (Cons e es')
    have m: "rbtree_min (tm_rbtree tm) (rb_root (tm_rbtree tm)) = Some (fst e)" using rbs.least st unfolding Cons by blast
    have key: "rb_key (tm_rbtree tm) (fst e) = snd e" using rbs.keys [OF st, of "fst e" "snd e"] by (simp add: Cons)
    have le: "snd e \<le> k" if "deadline tm ev = Some k" for ev k
      using rbs.least_key [of _ e es'] st holds_keys [OF h, of ev k] that unfolding Cons by blast
    obtain ev where ev: "fst e = timer_node ev" using h Cons by (auto simp: holds_def)
    have d: "deadline tm ev = Some (snd e)"
      using holds_keys [OF h, of ev "snd e"] ev Cons by (metis list.set_intros(1) prod.collapse)
    hence set: "tm_set tm ev" by (auto simp: deadline_def split: if_splits)
    have ne: "rb_root (tm_rbtree tm) \<noteq> rb_sentinel (tm_rbtree tm)" using rbs.empty [OF st] Cons by simp
    show ?thesis
    proof (cases "snd e \<le> tm_clock tm")
      case False
      hence "event_timers_expire handler tm = Some tm" using ne m key by (subst event_timers_expire.simps) simp
      thus ?thesis using le False by fastforce
    next
      case True
      obtain m1 where m1: "rbtree_delete (timer_node ev) (tm_rbtree tm) = Some m1" "rb_sentinel m1 = rb_sentinel (tm_rbtree tm)"
        "\<And>tm' :: 'a timer_t_scheme. tm_rbtree tm' = m1 \<Longrightarrow> tm_set tm' = (tm_set tm)(ev := False) \<Longrightarrow>
          (\<exists>es. holds tm' es) \<and> deadline tm' = (deadline tm)(ev := None)"
        using delete_holds [OF h set] by blast
      let ?tm = "tm\<lparr>tm_rbtree := m1, tm_set := (tm_set tm)(ev := False), tm_out := (tm_out tm)(ev := True),
                               tm_calls := tm_calls tm @ [ev]\<rparr>"
      have h1: "(\<exists>es. holds ?tm es) \<and> deadline ?tm = (deadline tm)(ev := None)" by (rule m1(3)) simp_all
      hence f: "fired tm ev ?tm" by (simp add: fired_def)
      have i1: "timer_inv ?tm" using inv(1) m1(2) h1 by (auto simp: timer_inv_def)
      moreover have "J (timer_t.more ?tm)" "tm_clock ?tm = tm_clock tm" using inv(2) by simp_all
      ultimately obtain tm' where "handler ev ?tm = Some tm'" "timer_inv tm'" "J (timer_t.more tm')" "rearmed ?tm tm'"
        "tm_clock tm' = tm_clock ?tm" "tm_calls tm' = tm_calls ?tm" using w unfolding well_behaved_def by blast
      moreover from this have "event_timers_expire handler tm = event_timers_expire handler tm'"
        using ne m key m1(1) True ev by (subst event_timers_expire.simps) (simp add: Let_def)
      moreover have "\<forall>ev' k'. deadline tm' ev' = Some k' \<longrightarrow> ev' \<noteq> ev \<and> deadline tm ev' = Some k' \<or> tm_clock tm < k'"
        using \<open>rearmed ?tm tm'\<close> h1 by (auto simp: rearmed_def split: if_splits)
      ultimately show ?thesis
        using d le True f i1 by (intro disjI2 exI [of _ ev] exI [of _ "snd e"] exI [of _ tm']) auto
    qed
  qed
qed

lemma expire_all:
  assumes "timer_inv tm" "J (timer_t.more tm)" "tm_clock tm = now" and w: "well_behaved now J handler"
  shows "\<exists>tm' evs. event_timers_expire handler tm = Some tm' \<and> timer_inv tm' \<and> J (timer_t.more tm') \<and>
           tm_clock tm' = tm_clock tm \<and> tm_calls tm' = tm_calls tm @ evs \<and> due tm' = {} \<and>
           distinct evs \<and> sorted (map (\<lambda>ev. the (deadline tm ev)) evs) \<and> set evs \<subseteq> due tm \<and> expiry handler tm evs tm'"
  using assms(1-3)
proof (induction "card (due tm)" arbitrary: tm rule: less_induct)
  case less
  have w': "well_behaved (tm_clock tm) J handler" using w less.prems(3) by simp
  from expire_step [OF less.prems(1,2) w'] show ?case
  proof (elim disjE exE conjE, goal_cases)
    case 1
    thus ?case using less.prems by (intro exI [of _ tm] exI [of _ "[]"]) (force simp: due_def intro: expiry.finish)
  next
    case (2 ev k tm1 tm0)
    have "due tm \<subseteq> dom (deadline tm)" by (auto simp: due_def)
    hence fin: "finite (due tm)" using less.prems(1) holds_finite by (auto simp: timer_inv_def intro: finite_subset)
    have le: "deadline tm x = Some j \<and> x \<noteq> ev" if "deadline tm1 x = Some j" "j \<le> tm_clock tm" for x j using 2(7) that by fastforce
    hence sub: "due tm1 \<subseteq> due tm - {ev}" using 2(8) by (auto simp: due_def)
    moreover have ev: "ev \<in> due tm" using 2(4,5) by (auto simp: due_def)
    ultimately have "card (due tm1) < card (due tm)" using fin by (intro psubset_card_mono) auto
    moreover have "tm_clock tm1 = now" using 2(8) less.prems(3) by simp
    ultimately obtain tm' evs where i: "event_timers_expire handler tm1 = Some tm'" "timer_inv tm'" "J (timer_t.more tm')"
      "tm_clock tm' = tm_clock tm1" "tm_calls tm' = tm_calls tm1 @ evs" "due tm' = {}"
      "distinct evs" "sorted (map (\<lambda>ev. the (deadline tm1 ev)) evs)" "set evs \<subseteq> due tm1" "expiry handler tm1 evs tm'"
      using less.hyps [OF _ 2(2,3)] by blast
    have eq: "deadline tm x = deadline tm1 x" if "x \<in> set evs" for x using le 2(8) i(9) that by (fastforce simp: due_def)
    have "map (\<lambda>ev. the (deadline tm ev)) evs = map (\<lambda>ev. the (deadline tm1 ev)) evs" using eq by simp
    hence "sorted (map (\<lambda>ev. the (deadline tm ev)) evs)" using i(8) by (simp only:)
    moreover have "\<forall>x\<in>set evs. k \<le> the (deadline tm x)" using i(9) eq 2(6) by (fastforce simp: due_def)
    moreover have "expiry handler tm (ev # evs) tm'"
    proof -
      have "the (deadline tm ev) \<le> k'" if "deadline tm ev' = Some k'" for ev' k' using 2(4,6) that by auto
      then show ?thesis using ev i(10) 2(8,10,11,12) by (intro expiry.turn)
    qed
    ultimately show ?case
      using i(1-7,9) 2(1,4,8,9) sub ev by (intro exI [of _ tm'] exI [of _ "ev # evs"]) auto
  qed
qed

text \<open>What the timer handler of a slow connection does to the timers (\<^verbatim>\<open>nn_conn_decode\<close> sets its timer anew) meets this.\<close>

lemma rearm_well_behaved:
  assumes "0 < timer" "now + timer < 2 ^ 63"
  shows "well_behaved now (\<lambda>_. True) (\<lambda>ev. event_timer_add ev timer)"
  unfolding well_behaved_def
proof (intro allI impI)
  fix ev and tm :: "'a timer_t_scheme"
  assume tm: "timer_inv tm" "tm_clock tm = now"
  obtain tm' where "event_timer_add ev timer tm = Some tm'" "timer_inv tm'" "same_rest tm tm'"
    "deadline tm' = deadline tm \<or> deadline tm' = (deadline tm)(ev \<mapsto> tm_clock tm + timer)"
    using event_timer_add_ok [OF tm(1), of timer ev] assms tm(2) by (auto split: if_splits)
  thus "\<exists>tm'. event_timer_add ev timer tm = Some tm' \<and> timer_inv tm' \<and> True \<and> rearmed tm tm' \<and>
      tm_clock tm' = tm_clock tm \<and> tm_calls tm' = tm_calls tm"
    using assms(1) tm(2) by (fastforce simp: rearmed_def same_rest_def split: if_splits)
qed

text \<open>C15: expiry of timers, for handlers that keep the invariants and the clock and set timers in the future only.
  \<^verbatim>\<open>event_timers_expire\<close> ends, also when the handlers set timers anew. It runs as \<open>expiry\<close> says: as long as a timer is due,
  the one with the earliest deadline is taken out of the tree, marked as timed out, and its handler is run on the resulting
  state; so a due timer can stay uncalled only if a handler called before it has removed it or set it anew. The handlers run are
  those of timers that were due at the start, each once and in the order of their deadlines, and no due timer is left. When
  the handlers leave the timers of other events alone, they are exactly the handlers of all due timers.\<close>

theorem event_timers_expire_spec:
  assumes "timer_inv tm" "J (timer_t.more tm)" "well_behaved (tm_clock tm) J handler"
  shows "\<exists>tm' evs. event_timers_expire handler tm = Some tm' \<and> timer_inv tm' \<and> J (timer_t.more tm') \<and> tm_calls tm' = tm_calls tm @ evs \<and>
           expiry handler tm evs tm' \<and> (\<forall>ev k. deadline tm' ev = Some k \<longrightarrow> tm_clock tm < k) \<and>
           distinct evs \<and> sorted (map (\<lambda>ev. the (deadline tm ev)) evs) \<and>
           (\<forall>ev\<in>set evs. \<exists>k \<le> tm_clock tm. deadline tm ev = Some k) \<and>
           ((\<forall>ev a b x. timer_inv a \<longrightarrow> handler ev a = Some b \<longrightarrow> x \<noteq> ev \<longrightarrow> deadline b x = deadline a x) \<longrightarrow> set evs = due tm)"
proof -
  obtain tm' evs where e: "event_timers_expire handler tm = Some tm'" "timer_inv tm'" "J (timer_t.more tm')"
      "tm_clock tm' = tm_clock tm" "tm_calls tm' = tm_calls tm @ evs" "due tm' = {}"
      "distinct evs" "sorted (map (\<lambda>ev. the (deadline tm ev)) evs)" "set evs \<subseteq> due tm" "expiry handler tm evs tm'"
    using expire_all [OF assms(1,2) refl assms(3)] by blast
  have "tm_clock tm < k" if "deadline tm' ev = Some k" for ev k
    using e(4,6) that by (auto simp: due_def) (meson not_le)
  moreover have "\<forall>ev\<in>set evs. \<exists>k \<le> tm_clock tm. deadline tm ev = Some k" using e(9) by (auto simp: due_def)
  moreover have "set evs = due tm" if "\<forall>ev a b x. timer_inv a \<longrightarrow> handler ev a = Some b \<longrightarrow> x \<noteq> ev \<longrightarrow> deadline b x = deadline a x"
    using expiry_calls_all [OF e(10)] e(9) that by blast
  ultimately show ?thesis using e by blast
qed

section \<open>Initialisation\<close>

lemma event_timer_init_ok:
  assumes "tm_sentinel tm \<noteq> nullptr" "tm_sentinel tm \<notin> range timer_node" "\<And>ev. \<not> tm_set tm ev" "0 \<le> tm_clock tm" "tm_clock tm < 2 ^ 63"
  shows "\<exists>tm'. event_timer_init tm = Some (NGX_OK, tm') \<and> timer_inv tm' \<and> deadline tm' = Map.empty \<and> same_rest tm tm'"
proof -
  let ?m = "(tm_rbtree tm)\<lparr>rb_red := (rb_red (tm_rbtree tm))(tm_sentinel tm := False), rb_root := tm_sentinel tm, rb_sentinel := tm_sentinel tm\<rparr>"
  let ?tm = "tm\<lparr>tm_rbtree := ?m\<rparr>"
  have "event_timer_init tm = Some (NGX_OK, ?tm)"
    using assms(1) by (simp add: event_timer_init_def rbtree_init_def rbtree_sentinel_init_def rbtree_black_def set_red_def)
  moreover have "rtree ?m Leaf" using assms(1) by (simp add: rtree_def zip_at_def)
  hence "rb_stores ?m []" by (auto simp: rb_stores_def rb_def intro!: exI [of _ Leaf])
  moreover have "deadline ?tm = Map.empty" using assms(3) by (auto simp: deadline_def fun_eq_iff)
  ultimately show ?thesis
    using assms by (intro exI [of _ ?tm]) (auto simp: timer_inv_def same_rest_def holds_def intro!: exI [of _ "[]"])
qed

section \<open>A concrete state\<close>

text \<open>One event at address 1000 with deadline 7, the clock at 7.\<close>

definition one_timer :: timer_t where
  "one_timer = \<lparr>tm_rbtree = \<lparr>rb_ch = \<lambda>_ _. 8, rb_parent = \<lambda>_. 0, rb_red = \<lambda>_. False, rb_key = \<lambda>_. 7, rb_root = 1024, rb_sentinel = 8\<rparr>,
     tm_sentinel = 8, tm_set = \<lambda>ev. ev = 1000, tm_out = \<lambda>_. False, tm_clock = 7, tm_calls = []\<rparr>"

lemma one_timer_deadline: "deadline one_timer = [1000 \<mapsto> 7]"
  by (auto simp: deadline_def one_timer_def fun_eq_iff)

lemma one_timer_clock: "tm_clock one_timer = 7"
  by (simp add: one_timer_def)

lemma one_timer_inv: "timer_inv one_timer"
proof -
  have "rtree (tm_rbtree one_timer) (Node Leaf (1024, False, 7) Leaf)"
    by (simp add: rtree_def zip_at_def one_timer_def)
  hence "rb_stores (tm_rbtree one_timer) [(1024, 7)]"
    by (auto simp: rb_stores_def rb_def intro!: exI [of _ "Node Leaf (1024, False, 7) Leaf"])
  hence "holds one_timer [(1024, 7)]"
    by (auto simp: holds_def one_timer_deadline timer_node_def EV_TIMER_def image_iff intro!: exI [of _ 1000])
  moreover have "tm_sentinel one_timer \<notin> range timer_node"
    by (auto simp: one_timer_def timer_node_def EV_TIMER_def)
  ultimately show ?thesis
    by (auto simp: timer_inv_def one_timer_deadline) (auto simp: one_timer_def)
qed

theorem event_timer_add_spec_witness:
  "\<exists>tm. event_timer_add 1000 400 one_timer = Some tm \<and> deadline tm 1000 = Some 407"
  using event_timer_add_spec [OF one_timer_inv, of 400 1000]
  by (auto simp: one_timer_clock one_timer_deadline EVENT_TIMER_LAZY_DELAY_def)

theorem event_find_timer_least_witness: "event_find_timer one_timer = Some 0"
  using event_find_timer_least [OF one_timer_inv] by (simp add: one_timer_deadline one_timer_clock)

text \<open>The handler sets the timer of its event anew, by a second.\<close>

theorem event_timers_expire_spec_witness:
  "\<exists>tm. event_timers_expire (\<lambda>ev. event_timer_add ev 1000) one_timer = Some tm \<and> tm_calls tm = [1000] \<and>
     (\<forall>ev k. deadline tm ev = Some k \<longrightarrow> 7 < k)"
proof -
  have now: "0 \<le> tm_clock one_timer + 1000" "tm_clock one_timer + 1000 < 2 ^ 63" by (simp_all add: one_timer_clock)
  have w: "well_behaved (tm_clock one_timer) (\<lambda>_. True) (\<lambda>ev. event_timer_add ev 1000)"
    using now by (intro rearm_well_behaved) simp_all
  from event_timers_expire_spec [OF one_timer_inv TrueI w] obtain tm evs where
    tm: "event_timers_expire (\<lambda>ev. event_timer_add ev 1000) one_timer = Some tm"
    "\<forall>ev k. deadline tm ev = Some k \<longrightarrow> tm_clock one_timer < k" "tm_calls tm = tm_calls one_timer @ evs"
    "expiry (\<lambda>ev. event_timer_add ev 1000) one_timer evs tm" "distinct evs"
    "\<forall>ev\<in>set evs. \<exists>k \<le> tm_clock one_timer. deadline one_timer ev = Some k"
    by blast
  have due: "due one_timer = {1000}" by (auto simp: due_def one_timer_deadline one_timer_clock split: if_splits)
  have "evs \<noteq> []" using tm(4) due by (auto elim: expiry.cases)
  moreover have "set evs \<subseteq> {1000}" using tm(6) due unfolding due_def by blast
  ultimately have "evs = [1000]" using tm(5) by (cases evs; cases "tl evs") auto
  moreover have "tm_calls one_timer = []" by (simp add: one_timer_def)
  ultimately show ?thesis using tm(1-3) one_timer_clock by auto
qed

end
