(* ===== verification/Dfs_Time.thy ===== *)
theory Dfs_Time
  imports Dfs_Printf "HOL-Library.Signed_Division"
begin

text \<open>
  Time: the calendar of \<^verbatim>\<open>src/src/core/dfs_time.cpp\<close> and the cached time of \<^verbatim>\<open>src/src/dn_time.cpp\<close>. Times are 32-bit
  words as in the source, so the calendar is that of the seconds modulo \<open>2 ^ 32\<close>. The calendar is compared with a
  definition that counts the days of the years and months from 1970 on.
\<close>

section \<open>The calendar routines\<close>

record tm_t =
  tm_sec :: int
  tm_min :: int
  tm_hour :: int
  tm_mday :: int
  tm_mon :: int
  tm_year :: int
  tm_wday :: int

text \<open>The day and the year counted from March on, for the days since the first of March of the year 0.\<close>

definition gm_date :: "u32 \<Rightarrow> int \<times> u32" where
  "gm_date days = (let year = (days + 2) * 400 div (365 * 400 + 100 - 4 + 1);
          yday = sint (days - (365 * year + year div 4 - year div 100 + year div 400)) in
            (if yday < 0 then
               (let leap = (if year mod 4 = 0 \<and> (year mod 100 \<noteq> 0 \<or> year mod 400 = 0) then 1 else 0) in
                (sint (365 + leap + word_of_int yday :: u32), year - 1))
             else (yday, year)))"

text \<open>The month and its day; the year ends with December again.\<close>

definition gm_month :: "int \<Rightarrow> u32 \<Rightarrow> u32 \<times> u32 \<times> u32" where
  "gm_month yday year =
     (let mon = word_of_int ((yday + 31) * 10 sdiv 306);
          mday = word_of_int yday - (367 * mon div 12 - 30) + 1 in
      if yday \<ge> 306 then (year + 1, mon - 10, mday) else (year, mon + 2, mday))"

definition time_gmtime :: "int \<Rightarrow> tm_t" where
  "time_gmtime t =
     (let n = word_of_int t :: u32;
          days = n div 86400;
          wday = (4 + days) mod 7;
          n = n mod 86400;
          hour = n div 3600;
          n = n mod 3600;
          mins = n div 60;
          sec = n mod 60;
          days = days - (31 + 28) + 719527;
          (yday, year) = gm_date days;
          (year, mon, mday) = gm_month yday year in
      \<lparr>tm_sec = sint sec, tm_min = sint mins, tm_hour = sint hour, tm_mday = sint mday, tm_mon = sint mon,
       tm_year = sint year, tm_wday = sint wday\<rparr>)"

text \<open>The names, the two output formats and the reading of a month.\<close>

definition ascii :: "string \<Rightarrow> u8 list" where
  "ascii s = map of_char s"

definition week :: "u8 list list" where
  "week = map ascii [''Sun'', ''Mon'', ''Tue'', ''Wed'', ''Thu'', ''Fri'', ''Sat'']"

definition months :: "u8 list list" where
  "months = map ascii [''Jan'', ''Feb'', ''Mar'', ''Apr'', ''May'', ''Jun'', ''Jul'', ''Aug'', ''Sep'', ''Oct'', ''Nov'', ''Dec'']"

text \<open>A name as an argument of the formatted output; an index outside of the table is undefined.\<close>

definition name_at :: "u8 list list \<Rightarrow> int \<Rightarrow> varg option" where
  "name_at xs i = (if 0 \<le> i then do { s \<leftarrow> rd xs (nat i); Some (VStr (s @ [0])) } else None)"

definition v_int :: "int \<Rightarrow> varg" where "v_int i = V32 (word_of_int i)"

definition time_to_http_time :: "u64 \<Rightarrow> int \<Rightarrow> u8 list option" where
  "time_to_http_time buf t =
     (let tm = time_gmtime t in
      do { w \<leftarrow> name_at week (tm_wday tm);
           m \<leftarrow> name_at months (tm_mon tm - 1);
           string_xxsprintf buf (ascii ''%s, %02d %s %4d %02d:%02d:%02d GMT'' @ [0])
             [w, v_int (tm_mday tm), m, v_int (tm_year tm), v_int (tm_hour tm), v_int (tm_min tm), v_int (tm_sec tm)] })"

definition time_to_http_cookie_time :: "u64 \<Rightarrow> int \<Rightarrow> u8 list option" where
  "time_to_http_cookie_time buf t =
     (let tm = time_gmtime t in
      do { w \<leftarrow> name_at week (tm_wday tm);
           m \<leftarrow> name_at months (tm_mon tm - 1);
           string_xxsprintf buf
             ((if tm_year tm > 2037 then ascii ''%s, %02d-%s-%d %02d:%02d:%02d GMT''
               else ascii ''%s, %02d-%s-%02d %02d:%02d:%02d GMT'') @ [0])
             [w, v_int (tm_mday tm), m, v_int (if tm_year tm > 2037 then tm_year tm else tm_year tm smod 100),
              v_int (tm_hour tm), v_int (tm_min tm), v_int (tm_sec tm)] })"

definition time_monthtoi :: "u8 list \<Rightarrow> int option" where
  "time_monthtoi s =
     do { ch1 \<leftarrow> rd s 1;
          ch2 \<leftarrow> rd s 2;
          c \<leftarrow> rd s 0;
          Some (if c = of_char CHR ''J'' then
                  if ch1 = of_char CHR ''a'' then (if ch2 = of_char CHR ''n'' then 0 else NGX_ERROR)
                  else if ch1 \<noteq> of_char CHR ''u'' then NGX_ERROR
                  else if ch2 = of_char CHR ''n'' then 5
                  else if ch2 = of_char CHR ''l'' then 6 else NGX_ERROR
                else if c = of_char CHR ''F'' then
                  (if ch1 = of_char CHR ''e'' \<and> ch2 = of_char CHR ''b'' then 1 else NGX_ERROR)
                else if c = of_char CHR ''M'' then
                  if ch1 \<noteq> of_char CHR ''a'' then NGX_ERROR
                  else if ch2 = of_char CHR ''r'' then 2
                  else if ch2 = of_char CHR ''y'' then 4 else NGX_ERROR
                else if c = of_char CHR ''A'' then
                  if ch1 = of_char CHR ''p'' \<and> ch2 = of_char CHR ''r'' then 3
                  else if ch1 = of_char CHR ''u'' \<and> ch2 = of_char CHR ''g'' then 7 else NGX_ERROR
                else if c = of_char CHR ''S'' then
                  (if ch1 = of_char CHR ''e'' \<and> ch2 = of_char CHR ''p'' then 8 else NGX_ERROR)
                else if c = of_char CHR ''O'' then
                  (if ch1 = of_char CHR ''c'' \<and> ch2 = of_char CHR ''t'' then 9 else NGX_ERROR)
                else if c = of_char CHR ''N'' then
                  (if ch1 = of_char CHR ''o'' \<and> ch2 = of_char CHR ''v'' then 10 else NGX_ERROR)
                else if c = of_char CHR ''D'' then
                  (if ch1 = of_char CHR ''e'' \<and> ch2 = of_char CHR ''c'' then 11 else NGX_ERROR)
                else NGX_ERROR) }"

section \<open>The calendar\<close>

definition leap_year :: "nat \<Rightarrow> bool" where
  "leap_year y \<longleftrightarrow> y mod 4 = 0 \<and> (y mod 100 \<noteq> 0 \<or> y mod 400 = 0)"

definition month_len :: "nat \<Rightarrow> nat \<Rightarrow> nat" where
  "month_len y m = [31, 28 + of_bool (leap_year y), 31, 30, 31, 30, 31, 31, 30, 31, 30, 31] ! (m - 1)"

definition epoch_day :: "nat \<Rightarrow> nat \<Rightarrow> nat \<Rightarrow> nat" where
  "epoch_day y m d = (\<Sum>i = 1970..<y. 365 + of_bool (leap_year i)) + (\<Sum>i = 1..<m. month_len y i) + (d - 1)"

definition march1 :: "nat \<Rightarrow> nat" where
  "march1 y = 365 * y + y div 4 - y div 100 + y div 400"

lemma div_range: "0 < k \<Longrightarrow> k * (n div k) \<le> (n :: nat) \<and> n < k * (n div k) + k"
  using mult_div_mod_eq [of k n] mod_less_divisor [of k n] by linarith

lemma march1_eq: "march1 y + y div 100 = 365 * y + y div 4 + y div 400"
proof -
  have "y div 100 \<le> y" by simp
  thus ?thesis unfolding march1_def by linarith
qed

lemma march1_Suc: "march1 (Suc y) = march1 y + 365 + of_bool (leap_year (Suc y))"
proof -
  have a: "Suc y div k = y div k + of_bool (Suc y mod k = 0)" for k by (simp add: div_Suc mod_Suc)
  have "Suc y mod 100 = 0 \<longrightarrow> Suc y mod 4 = 0" "Suc y mod 400 = 0 \<longrightarrow> Suc y mod 100 = 0" by presburger+
  thus ?thesis using march1_eq [of y] march1_eq [of "Suc y"] unfolding leap_year_def a by (auto split: if_splits)
qed

lemma days_before_year: "1969 \<le> y \<Longrightarrow> (\<Sum>i = 1970..<Suc y. 365 + of_bool (leap_year i)) + 719468 = march1 y + 306"
proof (induction y rule: nat_induct_at_least)
  case base
  then show ?case by (simp add: march1_def)
next
  case (Suc y)
  then show ?case by (simp add: march1_Suc)
qed

lemma month_cases:
  assumes "yday \<le> (365 :: nat)"
  obtains "(yday + 31) * 10 div 306 = 1" "yday < 31" | "(yday + 31) * 10 div 306 = 2" "31 \<le> yday" "yday < 61"
  | "(yday + 31) * 10 div 306 = 3" "61 \<le> yday" "yday < 92" | "(yday + 31) * 10 div 306 = 4" "92 \<le> yday" "yday < 122"
  | "(yday + 31) * 10 div 306 = 5" "122 \<le> yday" "yday < 153" | "(yday + 31) * 10 div 306 = 6" "153 \<le> yday" "yday < 184"
  | "(yday + 31) * 10 div 306 = 7" "184 \<le> yday" "yday < 214" | "(yday + 31) * 10 div 306 = 8" "214 \<le> yday" "yday < 245"
  | "(yday + 31) * 10 div 306 = 9" "245 \<le> yday" "yday < 275" | "(yday + 31) * 10 div 306 = 10" "275 \<le> yday" "yday < 306"
  | "(yday + 31) * 10 div 306 = 11" "306 \<le> yday" "yday < 337" | "(yday + 31) * 10 div 306 = 12" "337 \<le> yday" "yday \<le> 365"
proof -
  define k where "k = (yday + 31) * 10 div 306"
  have k: "306 * k \<le> (yday + 31) * 10" "(yday + 31) * 10 < 306 * k + 306"
    using div_range [of 306 "(yday + 31) * 10"] unfolding k_def by simp_all
  hence "1 \<le> k \<and> k \<le> 12" using assms by simp
  hence "k \<in> {1, 2, 3, 4, 5, 6, 7, 8, 9, 10, 11, 12}" unfolding insert_iff empty_iff by presburger
  thus thesis using that k assms unfolding k_def [symmetric] by (elim insertE emptyE) simp_all
qed

lemma year_bounds:
  fixes d :: nat
  defines "y \<equiv> (d + 2) * 400 div 146097"
  shows "march1 y \<le> d + 2" "d < march1 y + 365"
proof -
  have y: "146097 * y \<le> (d + 2) * 400" "(d + 2) * 400 < 146097 * y + 146097"
    using div_range [of 146097 "(d + 2) * 400"] unfolding y_def by simp_all
  have "400 * march1 y \<le> 146097 * y + 396" "146097 * y \<le> 400 * march1 y + 699"
    using march1_eq [of y] div_range [of 4 y] div_range [of 100 y] div_range [of 400 y] by linarith+
  thus "march1 y \<le> d + 2" "d < march1 y + 365" using y by simp_all
qed

lemma of_nat_div32: "a < 2 ^ 32 \<Longrightarrow> b < 2 ^ 32 \<Longrightarrow> (of_nat a :: u32) div of_nat b = of_nat (a div b)"
  by (rule word_unat_eq_iff [THEN iffD2]) (simp add: unat_div_distrib unsigned_of_nat take_bit_nat_eq_self le_less_trans [OF div_le_dividend])

lemma of_nat_mod32: "a < 2 ^ 32 \<Longrightarrow> b < 2 ^ 32 \<Longrightarrow> (of_nat a :: u32) mod of_nat b = of_nat (a mod b)"
  by (rule word_unat_eq_iff [THEN iffD2]) (simp add: unat_mod_distrib unsigned_of_nat take_bit_nat_eq_self le_less_trans [OF mod_less_eq_dividend])

lemma sint_of_int32: "- (2 ^ 31) \<le> x \<Longrightarrow> x < 2 ^ 31 \<Longrightarrow> sint (word_of_int x :: u32) = x"
  using to_int32_id [of x] by (simp add: to_int32_def)

lemma sint_of_nat32: "a < 2 ^ 31 \<Longrightarrow> sint (of_nat a :: u32) = int a"
  using sint_of_int32 [of "int a"] by simp

text \<open>The year and the day of the year that starts with March.\<close>

definition march_date :: "nat \<Rightarrow> nat \<times> nat" where
  "march_date d = (let y = (d + 2) * 400 div 146097 in
     if d < march1 y then (y - 1, 365 + of_bool (leap_year y) + d - march1 y) else (y, d - march1 y))"

lemma march_date:
  assumes "719468 \<le> d" "march_date d = (y, yd)"
  shows "d = march1 y + yd" "yd < 365 + of_bool (leap_year (Suc y))" "1970 \<le> y + of_bool (306 \<le> yd)"
proof -
  define y0 where "y0 = (d + 2) * 400 div 146097"
  note b = year_bounds [of d, folded y0_def]
  have m: "(y, yd) = (if d < march1 y0 then (y0 - 1, 365 + of_bool (leap_year y0) + d - march1 y0) else (y0, d - march1 y0))"
    using assms(2) unfolding march_date_def Let_def y0_def [symmetric] by (rule sym)
  have pos: "y0 = Suc (y0 - 1)" if "d < march1 y0" using that by (cases y0) (simp_all add: march1_def)
  show d: "d = march1 y + yd"
    using m b march1_Suc [of "y0 - 1"] pos by (auto split: if_splits)
  show yd: "yd < 365 + of_bool (leap_year (Suc y))"
    using m b march1_Suc [of "y0 - 1"] pos by (auto split: if_splits)
  have "mono march1" by (rule mono_iff_le_Suc [THEN iffD2]) (simp add: march1_Suc)
  hence "march1 (Suc y) \<le> march1 1969" if "y \<le> 1968" using that monoD [of march1 "Suc y" 1969] by linarith
  moreover have "march1 1969 = 719162" by (simp add: march1_def)
  ultimately have "\<not> y \<le> 1968" using assms(1) d yd march1_Suc [of y] by linarith
  moreover have "306 \<le> yd" if "y = 1969" using d assms(1) \<open>march1 1969 = 719162\<close> that by simp
  ultimately show "1970 \<le> y + of_bool (306 \<le> yd)" by (cases "y = 1969") simp_all
qed

lemma month_offset:
  assumes "yd < 365 + of_bool l" "306 \<le> yd \<Longrightarrow> l = leap_year y'"
    and "mon = (yd + 31) * 10 div 306" "m = (if 306 \<le> yd then mon - 10 else mon + 2)" "md = yd + 31 - 367 * mon div 12"
  shows "sum_list (map (month_len y') [1..<m]) + (md - 1) = (if 306 \<le> yd then yd - 306 else yd + 59 + of_bool (leap_year y')) \<and>
    1 \<le> m \<and> m \<le> 12 \<and> 1 \<le> md \<and> md \<le> month_len y' m \<and>
    367 * mon div 12 \<le> yd + 30 \<and> 30 \<le> 367 * mon div 12 \<and> mon \<le> 12 \<and> (306 \<le> yd \<longrightarrow> 10 < mon)"
proof -
  have le: "yd \<le> 365" using assms(1) by (cases l) simp_all
  show ?thesis
  proof (cases "leap_year y'")
    case True
    from le show ?thesis by (cases rule: month_cases) (use True assms(3-5) in \<open>auto simp: month_len_def upt_conv_Cons\<close>)
  next
    case False
    hence "337 \<le> yd \<longrightarrow> yd < 365" using assms(1,2) by (cases l) auto
    from le this show ?thesis
      by (cases rule: month_cases) (use False assms(3-5) in \<open>auto simp: month_len_def upt_conv_Cons\<close>)
  qed
qed

lemma epoch_day_march:
  assumes "719468 \<le> d" "march_date d = (y, yd)"
    and "mon = (yd + 31) * 10 div 306" "y' = (if 306 \<le> yd then y + 1 else y)" "m = (if 306 \<le> yd then mon - 10 else mon + 2)"
    and "md = yd + 31 - 367 * mon div 12"
  shows "epoch_day y' m md = d - 719468 \<and> 1 \<le> m \<and> m \<le> 12 \<and> 1 \<le> md \<and> md \<le> month_len y' m \<and> 1970 \<le> y' \<and>
    367 * mon div 12 \<le> yd + 30 \<and> 30 \<le> 367 * mon div 12 \<and> mon \<le> 12 \<and> (306 \<le> yd \<longrightarrow> 10 < mon)"
proof -
  note md = march_date [OF assms(1,2)]
  obtain B S :: nat where B: "B = (\<Sum>i = 1970..<y'. 365 + of_bool (leap_year i))"
    and S: "S = sum_list (map (month_len y') [1..<m]) + (md - 1)" by blast
  have e: "epoch_day y' m md = B + S"
    by (simp add: epoch_day_def sum_list_distinct_conv_sum_set B S)
  have y': "1970 \<le> y'" using md(3) assms(4) by (cases "306 \<le> yd") simp_all
  have "B + 719468 = march1 y + 306" if "306 \<le> yd"
    using days_before_year [of y] md(3) that assms(4) by (simp add: B)
  moreover have "B + 719468 + 59 + of_bool (leap_year y) = march1 y" if "\<not> 306 \<le> yd"
    using days_before_year [of "y - 1"] march1_Suc [of "y - 1"] md(3) that assms(4) by (simp add: B)
  moreover have l: "306 \<le> yd \<Longrightarrow> leap_year (Suc y) = leap_year y'" "\<not> 306 \<le> yd \<Longrightarrow> y' = y" using assms(4) by simp_all
  moreover note o = month_offset [OF md(2) l(1) assms(3,5,6), folded S]
  ultimately have "B + S = d - 719468" using md(1) by (cases "306 \<le> yd") auto
  with o y' e show ?thesis by simp
qed

section \<open>The words of the code\<close>

lemma march1_word: "y < 2 ^ 16 \<Longrightarrow>
    365 * of_nat y + of_nat y div 4 - of_nat y div 100 + of_nat y div 400 = (of_nat (march1 y) :: u32)"
proof -
  assume y: "y < 2 ^ 16"
  have d: "(of_nat y :: u32) div 4 = of_nat (y div 4)" "(of_nat y :: u32) div 100 = of_nat (y div 100)"
    "(of_nat y :: u32) div 400 = of_nat (y div 400)"
    using y of_nat_div32 [of y 4] of_nat_div32 [of y 100] of_nat_div32 [of y 400] by simp_all
  have "(of_nat (march1 y + y div 100) :: u32) = of_nat (365 * y + y div 4 + y div 400)" by (simp only: march1_eq)
  thus ?thesis by (simp add: d algebra_simps)
qed

lemma leap_word: "y < 2 ^ 16 \<Longrightarrow>
    (if (of_nat y :: u32) mod 4 = 0 \<and> ((of_nat y :: u32) mod 100 \<noteq> 0 \<or> (of_nat y :: u32) mod 400 = 0) then 1 else 0 :: u32)
    = of_nat (of_bool (leap_year y))"
proof -
  assume y: "y < 2 ^ 16"
  have d: "(of_nat y :: u32) mod 4 = of_nat (y mod 4)" "(of_nat y :: u32) mod 100 = of_nat (y mod 100)"
    "(of_nat y :: u32) mod 400 = of_nat (y mod 400)"
    using y of_nat_mod32 [of y 4] of_nat_mod32 [of y 100] of_nat_mod32 [of y 400] by simp_all
  have z: "(of_nat a :: u32) = 0 \<longleftrightarrow> a = 0" if "a < 400" for a
    using that by (auto simp: word_of_nat_eq_0_iff dest: dvd_imp_le)
  have "y mod 4 < 400" "y mod 100 < 400" "y mod 400 < 400" using mod_less_divisor [of 4 y] mod_less_divisor [of 100 y] by simp_all
  thus ?thesis by (simp add: d z leap_year_def)
qed

lemma sint_of_nat_diff: "a < 2 ^ 31 \<Longrightarrow> b < 2 ^ 31 \<Longrightarrow> sint (of_nat a - of_nat b :: u32) = int a - int b"
  using sint_of_int32 [of "int a - int b"] by simp

lemma gm_date_march:
  assumes "d < 2 ^ 20" "march_date d = (y, yd)"
  shows "gm_date (of_nat d) = (int yd, of_nat y)"
proof -
  define y0 where "y0 = (d + 2) * 400 div 146097"
  have y0: "y0 < 2 ^ 16" using assms(1) div_range [of 146097 "(d + 2) * 400"] unfolding y0_def by simp
  have year: "(of_nat d + 2) * 400 div (365 * 400 + 100 - 4 + 1) = (of_nat y0 :: u32)"
    using of_nat_div32 [of "(d + 2) * 400" 146097] assms(1) unfolding y0_def by (simp add: add.commute)
  note b = year_bounds [of d, folded y0_def]
  have yday: "sint (of_nat d - (365 * of_nat y0 + of_nat y0 div 4 - of_nat y0 div 100 + of_nat y0 div 400) :: u32) = int d - int (march1 y0)"
    using march1_word [OF y0] sint_of_nat_diff [of d "march1 y0"] assms(1) b by simp
  have m: "(y, yd) = (if d < march1 y0 then (y0 - 1, 365 + of_bool (leap_year y0) + d - march1 y0) else (y0, d - march1 y0))"
    using assms(2) unfolding march_date_def Let_def y0_def [symmetric] by (rule sym)
  show ?thesis
  proof (cases "d < march1 y0")
    case True
    have pos: "0 < y0" using True by (cases y0) (simp_all add: march1_def)
    let ?k = "365 + of_bool (leap_year y0) + d - march1 y0"
    have k: "int ?k = 365 + int (of_bool (leap_year y0)) + (int d - int (march1 y0))" using b by simp
    have "365 + of_nat (of_bool (leap_year y0)) + word_of_int (int d - int (march1 y0)) = (word_of_int (int ?k) :: u32)"
      unfolding k by simp
    moreover have "sint (word_of_int (int ?k) :: u32) = int ?k" using True by (intro sint_of_int32) (auto simp: of_bool_def)
    moreover have "(of_nat y0 :: u32) - 1 = of_nat (y0 - 1)" using pos by simp
    ultimately show ?thesis
      using True m unfolding gm_date_def Let_def year yday leap_word [OF y0] by simp
  next
    case False
    thus ?thesis using m unfolding gm_date_def Let_def year yday by simp
  qed
qed

lemma gm_month_march:
  assumes "719468 \<le> d" "d < 2 ^ 20" "march_date d = (y, yd)"
  shows "\<exists>y' m md. gm_month (int yd) (of_nat y) = (of_nat y', of_nat m, of_nat md) \<and> y' < 2 ^ 16 \<and>
    epoch_day y' m md = d - 719468 \<and> 1970 \<le> y' \<and> 1 \<le> m \<and> m \<le> 12 \<and> 1 \<le> md \<and> md \<le> month_len y' m"
proof -
  define mon where "mon = (yd + 31) * 10 div 306"
  note e = epoch_day_march [OF assms(1,3) mon_def refl refl refl]
  let ?y = "if 306 \<le> yd then y + 1 else y" and ?m = "if 306 \<le> yd then mon - 10 else mon + 2"
    and ?md = "yd + 31 - 367 * mon div 12"
  have "(int yd + 31) * 10 sdiv 306 = int mon"
    by (simp add: mon_def signed_divide_int_def zdiv_int algebra_simps)
  hence w: "(word_of_int ((int yd + 31) * 10 sdiv 306) :: u32) = of_nat mon" by simp
  have "(367 * of_nat mon :: u32) div 12 = of_nat (367 * mon div 12)"
    using of_nat_div32 [of "367 * mon" 12] e by simp
  moreover have "(of_nat yd :: u32) - (of_nat (367 * mon div 12) - 30) + 1 = of_nat ?md"
    using e by (simp add: of_nat_diff)
  moreover have "(of_nat mon :: u32) - 10 = of_nat (mon - 10)" if "306 \<le> yd" using e that by (simp add: of_nat_diff)
  ultimately have "gm_month (int yd) (of_nat y) = (of_nat ?y, of_nat ?m, of_nat ?md)"
    unfolding gm_month_def Let_def w by simp
  moreover have "y < 65535" using march_date(1) [OF assms(1,3)] march1_eq [of y] assms(2) div_range [of 100 y] by simp
  hence "?y < 2 ^ 16" by simp
  ultimately show ?thesis using e by blast
qed

lemma gmtime_calendar:
  fixes t :: int
  defines "n \<equiv> nat (t mod 2 ^ 32)" and "tm \<equiv> time_gmtime t"
  shows "\<exists>y m d. tm_year tm = int y \<and> tm_mon tm = int m \<and> tm_mday tm = int d \<and> epoch_day y m d = n div 86400 \<and>
      1970 \<le> y \<and> 1 \<le> m \<and> m \<le> 12 \<and> 1 \<le> d \<and> d \<le> month_len y m \<and>
      tm_wday tm = int ((4 + n div 86400) mod 7) \<and> tm_hour tm = int (n mod 86400 div 3600) \<and>
      tm_min tm = int (n mod 3600 div 60) \<and> tm_sec tm = int (n mod 60)"
proof -
  have n: "n < 2 ^ 32" by (simp add: n_def nat_less_iff)
  have w: "(word_of_int t :: u32) = of_nat n"
  proof -
    have "(word_of_int t :: u32) = word_of_int (int n)" by (simp add: n_def word_of_int_eq_iff take_bit_eq_mod)
    thus ?thesis by simp
  qed
  define d where "d = n div 86400 + 719468"
  have d: "719468 \<le> d" "d < 2 ^ 20" using n div_range [of 86400 n] unfolding d_def by simp_all
  obtain y yd where md: "march_date d = (y, yd)" by (cases "march_date d") auto
  from gm_month_march [OF d this] obtain y' m d' where g: "gm_month (int yd) (of_nat y) = (of_nat y', of_nat m, of_nat d')"
    "y' < 2 ^ 16" "epoch_day y' m d' = d - 719468" "1970 \<le> y'" "1 \<le> m" "m \<le> 12" "1 \<le> d'" "d' \<le> month_len y' m" by blast
  have "d' \<le> 31" using g(5,6,8) by (cases "leap_year y'") (auto simp: month_len_def nth_Cons split: nat.splits if_splits)
  have days: "(of_nat n :: u32) div 86400 = of_nat (n div 86400)" using of_nat_div32 [of n 86400] n by simp
  have "(of_nat n :: u32) div 86400 - (31 + 28) + 719527 = of_nat d" by (simp add: days d_def)
  moreover have "(4 + (of_nat n :: u32) div 86400) mod 7 = of_nat ((4 + n div 86400) mod 7)"
    using of_nat_mod32 [of "4 + n div 86400" 7] d(2) by (simp add: days d_def)
  moreover have m1: "(of_nat n :: u32) mod 86400 = of_nat (n mod 86400)" using of_nat_mod32 [of n 86400] n by simp
  moreover have "(of_nat (n mod 86400) :: u32) div 3600 = of_nat (n mod 86400 div 3600)"
    using of_nat_div32 [of "n mod 86400" 3600] mod_less_divisor [of 86400 n] by simp
  moreover have m2: "(of_nat (n mod 86400) :: u32) mod 3600 = of_nat (n mod 3600)"
    using of_nat_mod32 [of "n mod 86400" 3600] mod_less_divisor [of 86400 n] by (simp add: mod_mod_cancel)
  moreover have "(of_nat (n mod 3600) :: u32) div 60 = of_nat (n mod 3600 div 60)"
    using of_nat_div32 [of "n mod 3600" 60] mod_less_divisor [of 3600 n] by simp
  moreover have "(of_nat (n mod 3600) :: u32) mod 60 = of_nat (n mod 60)"
    using of_nat_mod32 [of "n mod 3600" 60] mod_less_divisor [of 3600 n] by (simp add: mod_mod_cancel)
  moreover have "n mod 86400 div 3600 < 2 ^ 31" "n mod 3600 div 60 < 2 ^ 31"
    using div_range [of 3600 "n mod 86400"] div_range [of 60 "n mod 3600"] mod_less_divisor [of 86400 n] mod_less_divisor [of 3600 n] by simp_all
  ultimately have "tm = \<lparr>tm_sec = int (n mod 60), tm_min = int (n mod 3600 div 60), tm_hour = int (n mod 86400 div 3600),
      tm_mday = int d', tm_mon = int m, tm_year = int y', tm_wday = int ((4 + n div 86400) mod 7)\<rparr>"
    using g(1,2,6) \<open>d' \<le> 31\<close> mod_less_divisor [of 60 n] mod_less_divisor [of 7 "4 + n div 86400"]
    unfolding tm_def time_gmtime_def Let_def w by (simp add: gm_date_march [OF d(2) md] sint_of_nat32)
  thus ?thesis using g(3-8) by (auto simp: d_def)
qed

text \<open>C30: \<^verbatim>\<open>time_gmtime\<close> is the Gregorian calendar for every second up to 2106: the date is a valid one, as many days after
  the first of January 1970 as the seconds say, with the time of day and the day of the week (1970 began on a Thursday).\<close>

theorem time_gmtime_calendar:
  fixes t :: int
  defines "n \<equiv> nat (t mod 2 ^ 32)" and "tm \<equiv> time_gmtime t"
  shows "\<exists>y m d. tm_year tm = int y \<and> tm_mon tm = int m \<and> tm_mday tm = int d \<and> epoch_day y m d = n div 86400 \<and>
      1970 \<le> y \<and> 1 \<le> m \<and> m \<le> 12 \<and> 1 \<le> d \<and> d \<le> month_len y m \<and>
      tm_wday tm = int ((4 + n div 86400) mod 7) \<and> tm_hour tm = int (n mod 86400 div 3600) \<and>
      tm_min tm = int (n mod 3600 div 60) \<and> tm_sec tm = int (n mod 60)"
  unfolding n_def tm_def by (rule gmtime_calendar)

section \<open>The printed time\<close>

text \<open>The digits of a number of known length.\<close>

definition digit :: "nat \<Rightarrow> u8" where
  "digit k = of_nat k + 0x30"

definition two :: "nat \<Rightarrow> u8 list" where
  "two v = [digit (v div 10), digit (v mod 10)]"

definition four :: "nat \<Rightarrow> u8 list" where
  "four v = [digit (v div 1000), digit (v div 100 mod 10), digit (v div 10 mod 10), digit (v mod 10)]"

lemma dec_loop_small: "v < 10 \<Longrightarrow> dec_loop v = [digit v]"
  by (subst dec_loop.simps) (simp add: digit_def)

lemma dec_loop_step: "10 \<le> v \<Longrightarrow> dec_loop v = dec_loop (v div 10) @ [digit (v mod 10)]"
  using div_greater_zero_iff [of v 10] by (subst dec_loop.simps) (simp add: digit_def)

lemma dec_loop_two: "v < 100 \<Longrightarrow> replicate (2 - length (dec_loop v)) 0x30 @ dec_loop v = two v"
  by (cases "v < 10") (simp_all add: dec_loop_small dec_loop_step two_def digit_def)

lemma dec_loop_four: "1000 \<le> v \<Longrightarrow> v < 10000 \<Longrightarrow> dec_loop v = four v"
  by (simp add: dec_loop_small dec_loop_step four_def div_mult2_eq [symmetric] flip: div_mult2_eq)

lemma num_digits_small: "v < 2 ^ 32 \<Longrightarrow> num_digits 0 (of_nat v) = dec_loop v"
  by (auto simp: num_digits_def unsigned_of_nat unsigned_ucast_eq take_bit_nat_eq_self word_le_nat_alt)

lemma loop_char:
  assumes "c \<noteq> 0" "c \<noteq> 0x25" "length out < mx"
  shows "vsnprintf_loop buf mx (c # f) args out = vsnprintf_loop buf mx f args (out @ [c])"
  using assms by (subst vsnprintf_loop.simps) simp

lemma loop_string:
  assumes "0 \<notin> set s" "length out + length s < mx"
  shows "vsnprintf_loop buf mx (0x25 # 0x73 # f) (VStr (s @ [0]) # args) out = vsnprintf_loop buf mx f args (out @ s)"
proof -
  have "takeWhile (\<lambda>ch. ch \<noteq> 0) (s @ [0]) = s" using assms(1) by (induction s) auto
  hence "convert buf mx (0x73 # f) out (VStr (s @ [0]) # args) = Some (f, out @ s, args)"
    using assms(2) by (simp add: convert_def put_conv_def put_string_def)
  thus ?thesis using assms(2) by (subst vsnprintf_loop.simps) simp
qed

lemma loop_d2:
  assumes "v < 100" "length out + 2 < mx"
  shows "vsnprintf_loop buf mx (0x25 # 0x30 # 0x32 # 0x64 # f) (v_int (int v) # args) out = vsnprintf_loop buf mx f args (out @ two v)"
proof -
  have l: "length (dec_loop v) \<le> 2" "length (replicate (2 - length (dec_loop v)) (0x30 :: u8) @ dec_loop v) = 2"
    using assms(1) by (cases "v < 10"; simp add: dec_loop_small dec_loop_step)+
  have "put_num mx out \<lparr>fs_zero = 0x30, fs_width = 2, fs_sign = True, fs_hexadecimal = 0, fs_max_width = False, fs_slen = - 1\<rparr> (int v) 0
     = Some (out @ two v)"
    using assms l by (simp add: put_num_def num_digits_small Let_def NGX_INT64_LEN_def dec_loop_two [symmetric])
  hence "convert buf mx (0x30 # 0x32 # 0x64 # f) out (v_int (int v) # args) = Some (f, out @ two v, args)"
    using assms by (simp add: convert_def put_conv_def num_chars_def fetch_num_def fetch_signed_def v_int_def sint_of_nat32)
  thus ?thesis using assms(2) by (subst vsnprintf_loop.simps) simp
qed

lemma loop_d4:
  assumes "1000 \<le> v" "v < 10000" "length out + 4 < mx"
  shows "vsnprintf_loop buf mx (0x25 # 0x34 # 0x64 # f) (v_int (int v) # args) out = vsnprintf_loop buf mx f args (out @ four v)"
proof -
  have "put_num mx out \<lparr>fs_zero = 0x20, fs_width = 4, fs_sign = True, fs_hexadecimal = 0, fs_max_width = False, fs_slen = - 1\<rparr> (int v) 0
     = Some (out @ four v)"
    using assms by (simp add: put_num_def num_digits_small Let_def NGX_INT64_LEN_def dec_loop_four) (simp add: four_def)
  hence "convert buf mx (0x34 # 0x64 # f) out (v_int (int v) # args) = Some (f, out @ four v, args)"
    using assms by (simp add: convert_def put_conv_def num_chars_def fetch_num_def fetch_signed_def v_int_def sint_of_nat32)
  thus ?thesis using assms(3) by (subst vsnprintf_loop.simps) simp
qed

text \<open>What \<open>time_gmtime_calendar\<close> needs to be printed: the ranges of the fields.\<close>

lemma epoch_day_year: "1970 \<le> y \<Longrightarrow> 365 * (y - 1970) \<le> epoch_day y m d"
proof -
  assume "1970 \<le> y"
  have "(\<Sum>i = 1970..<y. 365) \<le> (\<Sum>i = 1970..<y. 365 + of_bool (leap_year i) :: nat)" by (intro sum_mono) simp
  thus ?thesis by (simp add: epoch_day_def)
qed

lemma gmtime_ranges:
  obtains y m d h mi s w where "time_gmtime t = \<lparr>tm_sec = int s, tm_min = int mi, tm_hour = int h, tm_mday = int d,
      tm_mon = int m, tm_year = int y, tm_wday = int w\<rparr>" "1000 \<le> y" "y < 10000" "1 \<le> m" "m \<le> 12" "d < 100" "h < 100" "mi < 100" "s < 100" "w < 7"
proof -
  define n where "n = nat (t mod 2 ^ 32)"
  have n: "n < 2 ^ 32" by (simp add: n_def nat_less_iff)
  obtain y m d where g: "tm_year (time_gmtime t) = int y" "tm_mon (time_gmtime t) = int m" "tm_mday (time_gmtime t) = int d"
     "epoch_day y m d = n div 86400" "1970 \<le> y" "1 \<le> m" "m \<le> 12" "1 \<le> d" "d \<le> month_len y m"
     "tm_wday (time_gmtime t) = int ((4 + n div 86400) mod 7)" "tm_hour (time_gmtime t) = int (n mod 86400 div 3600)"
     "tm_min (time_gmtime t) = int (n mod 3600 div 60)" "tm_sec (time_gmtime t) = int (n mod 60)"
    using gmtime_calendar [of t] unfolding n_def [symmetric] by blast
  have "365 * (y - 1970) \<le> n div 86400" using epoch_day_year [OF g(5), of m d] g(4) by simp
  hence "y < 10000" using n div_range [of 86400 n] by simp
  moreover have "d < 100" using g(6,7,9) by (cases "leap_year y") (auto simp: month_len_def nth_Cons split: nat.splits if_splits)
  moreover have "n mod 86400 div 3600 < 100" "n mod 3600 div 60 < 100"
    using div_range [of 3600 "n mod 86400"] div_range [of 60 "n mod 3600"] mod_less_divisor [of 86400 n] mod_less_divisor [of 3600 n] by simp_all
  moreover have "n mod 60 < 100" using mod_less_divisor [of 60 n] by simp
  ultimately show thesis using g by (intro that [of "n mod 60" "n mod 3600 div 60" "n mod 86400 div 3600" d m y "(4 + n div 86400) mod 7"]) simp_all
qed

text \<open>The text of a time.\<close>

definition http_text :: "tm_t \<Rightarrow> u8 list" where
  "http_text tm = week ! nat (tm_wday tm) @ ascii '', '' @ two (nat (tm_mday tm)) @ ascii '' '' @ months ! nat (tm_mon tm - 1) @
     ascii '' '' @ four (nat (tm_year tm)) @ ascii '' '' @ two (nat (tm_hour tm)) @ ascii '':'' @ two (nat (tm_min tm)) @ ascii '':'' @
     two (nat (tm_sec tm)) @ ascii '' GMT''"

lemma names3: "w < 7 \<Longrightarrow> length (week ! w) = 3 \<and> 0 \<notin> set (week ! w)"
  "m < 12 \<Longrightarrow> length (months ! m) = 3 \<and> 0 \<notin> set (months ! m)"
proof -
  have "\<forall>x\<in>set week. length x = 3 \<and> 0 \<notin> set x" "\<forall>x\<in>set months. length x = 3 \<and> 0 \<notin> set x" 
     "length week = 7" "length months = 12" by (simp_all add: week_def months_def ascii_def)
  thus "w < 7 \<Longrightarrow> length (week ! w) = 3 \<and> 0 \<notin> set (week ! w)"
  "m < 12 \<Longrightarrow> length (months ! m) = 3 \<and> 0 \<notin> set (months ! m)" by simp_all
qed

lemma month_names: "m < 12 \<Longrightarrow> time_monthtoi (months ! m @ rest) = Some (int m)"
proof -
  assume "m < 12"
  hence "m \<in> {0, 1, 2, 3, 4, 5, 6, 7, 8, 9, 10, 11}" unfolding insert_iff empty_iff by presburger
  thus ?thesis by (elim insertE emptyE) (simp_all add: months_def ascii_def time_monthtoi_def rd_def)
qed

text \<open>C32: the text of \<^verbatim>\<open>time_to_http_time\<close> is, for every time, the 29 characters of an RFC 1123 date with the fields of
  \<^verbatim>\<open>time_gmtime\<close>, and \<^verbatim>\<open>time_monthtoi\<close> reads the month back from it.\<close>

theorem http_time_text: 
  "time_to_http_time buf t = Some (http_text (time_gmtime t)) \<and> length (http_text (time_gmtime t)) = 29 \<and>
   time_monthtoi (drop 8 (http_text (time_gmtime t))) = Some (tm_mon (time_gmtime t) - 1)"
proof -
  obtain y m d h mi s w where g: "time_gmtime t = \<lparr>tm_sec = int s, tm_min = int mi, tm_hour = int h, tm_mday = int d,
      tm_mon = int m, tm_year = int y, tm_wday = int w\<rparr>" "1000 \<le> y" "y < 10000" "1 \<le> m" "m \<le> 12" "d < 100" "h < 100" "mi < 100" "s < 100" "w < 7"
    by (rule gmtime_ranges [of t])
  obtain k where k: "m = Suc k" "k < 12" using g(4,5) by (cases m) auto
  have l: "length (two v) = 2" "length (four v) = 4" for v by (simp_all add: two_def four_def)
  have len: "length week = 7" "length months = 12" by (simp_all add: week_def months_def)
  have "time_to_http_time buf t = Some (http_text (time_gmtime t))"
    using g(2-) k len names3(1) [OF g(10)] names3(2) [OF k(2)] l unfolding http_text_def g(1)
    by (simp add: time_to_http_time_def g(1) name_at_def string_xxsprintf_def string_xxvsnprintf_def ascii_def
      loop_char loop_string loop_d2 loop_d4) (subst vsnprintf_loop.simps, simp)
  moreover have "length (http_text (time_gmtime t)) = 29"
    using names3(1) [OF g(10)] names3(2) [OF k(2)] l unfolding http_text_def g(1) by (simp add: k(1) ascii_def)
  moreover have "drop 8 (http_text (time_gmtime t)) = months ! k @ drop 11 (http_text (time_gmtime t))"
    using names3(1) [OF g(10)] names3(2) [OF k(2)] l unfolding http_text_def g(1) by (simp add: k(1) ascii_def)
  ultimately show ?thesis using month_names [OF k(2)] g(1) k(1) by simp
qed

section \<open>The cached time\<close>

text \<open>
  The globals of \<^verbatim>\<open>dn_time.cpp\<close>. The cache is the array of 64 rows of 20 bytes; the rows are consecutive, so a write
  behind a row goes on into the next one, and a write behind the array is undefined. \<open>ct_log\<close> is the offset of
  \<^verbatim>\<open>dfs_err_log_time.data\<close> in the cache. The lock is held during a call only, by another thread.
\<close>

record cached_time =
  ct_slot :: u32
  ct_cache :: "u8 list"
  ct_msec :: int
  ct_sec :: int
  ct_usec :: int
  ct_lock :: bool
  ct_log :: "nat option"
  ct_log_len :: nat

definition CACHE_TIME_SLOT :: u32 where "CACHE_TIME_SLOT = 64"

definition SLOT_SIZE :: nat where "SLOT_SIZE = 20"

text \<open>\<open>localtime_r\<close> is the C library function.\<close>

definition time_localtime :: "(int \<Rightarrow> tm_t) \<Rightarrow> int \<Rightarrow> tm_t" where
  "time_localtime localtime_r s = (let tm = localtime_r s in tm\<lparr>tm_mon := tm_mon tm + 1, tm_year := tm_year tm + 1900\<rparr>)"

text \<open>A \<^verbatim>\<open>%d\<close> of the C library with a width, and the text that is written.\<close>

definition c_dec :: "bool \<Rightarrow> nat \<Rightarrow> int \<Rightarrow> u8 list" where
  "c_dec zero w v =
     (let ds = dec_loop (nat \<bar>v\<bar>); sg = (if v < 0 then [0x2d] else []); n = w - length sg - length ds in
      if zero then sg @ replicate n 0x30 @ ds else replicate n 0x20 @ sg @ ds)"

definition log_time :: "tm_t \<Rightarrow> u32 \<Rightarrow> u8 list" where
  "log_time tm msec = c_dec False 4 (tm_year tm) @ ascii ''/'' @ c_dec True 2 (tm_mon tm) @ ascii ''/'' @ c_dec True 2 (tm_mday tm) @
     ascii '' '' @ c_dec True 2 (tm_hour tm) @ ascii '':'' @ c_dec True 2 (tm_min tm) @ ascii '':'' @ c_dec True 2 (tm_sec tm) @
     ascii ''.'' @ c_dec True 4 (sint msec)"

text \<open>\<open>tv_sec\<close> and \<open>tv_usec\<close> are the answer of \<^verbatim>\<open>gettimeofday\<close>.\<close>

definition time_update :: "(int \<Rightarrow> tm_t) \<Rightarrow> int \<Rightarrow> int \<Rightarrow> cached_time \<Rightarrow> cached_time option" where
  "time_update localtime_r tv_sec tv_usec s =
     (if ct_lock s then Some s
      else do {
        let msec = (word_of_int (tv_usec sdiv 1000) :: u32);
        cur \<leftarrow> chk_int64 (tv_sec * 1000);
        cur \<leftarrow> chk_int64 (cur + uint msec);
        let s = s\<lparr>ct_msec := cur\<rparr>;
        nmsec \<leftarrow> chk_int64 (ct_sec s * 1000);
        nmsec \<leftarrow> chk_int64 (nmsec + ct_usec s sdiv 1000);
        delta \<leftarrow> chk_int64 (cur - nmsec);
        if delta < 10 then Some s
        else do {
          let slot = (ct_slot s + 1) XOR (CACHE_TIME_SLOT - 1);
          let s = s\<lparr>ct_slot := slot, ct_sec := tv_sec, ct_usec := tv_usec\<rparr>;
          let tm = time_localtime localtime_r tv_sec;
          let p0 = unat slot * SLOT_SIZE;
          cache \<leftarrow> wrn (ct_cache s) p0 (log_time tm msec @ [0]);
          Some (s\<lparr>ct_cache := cache, ct_log := Some p0\<rparr>) } })"

definition time_init :: "(int \<Rightarrow> tm_t) \<Rightarrow> int \<Rightarrow> int \<Rightarrow> cached_time \<Rightarrow> (int \<times> cached_time) option" where
  "time_init localtime_r tv_sec tv_usec s =
     do { s \<leftarrow> time_update localtime_r tv_sec tv_usec (s\<lparr>ct_log_len := 24\<rparr>); Some (NGX_OK, s) }"

definition time_curtime :: "cached_time \<Rightarrow> int" where
  "time_curtime s = ct_msec s"

definition time_logstr :: "cached_time \<Rightarrow> nat option \<times> nat" where
  "time_logstr s = (ct_log s, ct_log_len s)"

text \<open>The text that a holder of a pointer into the cache reads.\<close>

definition log_text :: "cached_time \<Rightarrow> nat \<Rightarrow> u8 list" where
  "log_text s p = take 24 (drop p (ct_cache s))"

text \<open>Since \<^verbatim>\<open>slot\<close> is combined by an exclusive or it takes two values only.\<close>

definition cache_ok :: "cached_time \<Rightarrow> bool" where
  "cache_ok s \<longleftrightarrow> length (ct_cache s) = 1280 \<and> ct_slot s \<in> {0, 62} \<and> ct_log s \<in> {None, Some (unat (ct_slot s) * SLOT_SIZE)}"

text \<open>A broken-down time as \<^verbatim>\<open>localtime_r\<close> returns it, for years of four digits.\<close>

definition local_ok :: "tm_t \<Rightarrow> bool" where
  "local_ok tm \<longleftrightarrow> 0 \<le> tm_mon tm \<and> tm_mon tm < 12 \<and> 1 \<le> tm_mday tm \<and> tm_mday tm \<le> 31 \<and> 0 \<le> tm_hour tm \<and> tm_hour tm < 24 \<and>
     0 \<le> tm_min tm \<and> tm_min tm < 60 \<and> 0 \<le> tm_sec tm \<and> tm_sec tm \<le> 60 \<and> -900 \<le> tm_year tm \<and> tm_year tm < 8100"

lemma sdiv_nonneg: "0 \<le> a \<Longrightarrow> 0 < b \<Longrightarrow> a sdiv b = a div (b :: int)"
  by (cases "a = 0") (simp_all add: signed_divide_int_def)

lemma c_dec_two: "0 \<le> v \<Longrightarrow> v < 100 \<Longrightarrow> c_dec True 2 v = two (nat v)"
  using dec_loop_two [of "nat v"] by (simp add: c_dec_def Let_def)

lemma length_dec_loop4: "v < 10000 \<Longrightarrow> length (dec_loop v) \<le> 4"
  by (cases "v < 10"; cases "v < 100"; cases "v < 1000") (simp_all add: dec_loop_small dec_loop_step flip: div_mult2_eq)

lemma c_dec_length4: "0 \<le> v \<Longrightarrow> v < 10000 \<Longrightarrow> length (c_dec z 4 v) = 4"
  using length_dec_loop4 [of "nat v"] by (simp add: c_dec_def Let_def)

lemma log_time_length:
  assumes "local_ok (localtime_r s)" "unat msec < 1000"
  shows "length (log_time (time_localtime localtime_r s) msec) = 24"
proof -
  have "sint msec = int (unat msec)" using assms(2) sint_of_nat32 [of "unat msec"] by simp
  have l: "length (two v) = 2" for v by (simp add: two_def)
  have m: "length (c_dec True 4 (sint msec)) = 4" using assms(2) c_dec_length4 [of "int (unat msec)" True] unfolding \<open>sint msec = _\<close> by linarith
  show ?thesis using assms(1) m unfolding log_time_def time_localtime_def Let_def local_ok_def
    by (simp add: c_dec_two c_dec_length4 ascii_def l)
qed

text \<open>C31: when the clock has advanced by ten milliseconds, \<^verbatim>\<open>time_update\<close> publishes the text of the new time and leaves the
  text that was published before intact for its readers, although every text is longer than its row: only the first
  and the last but one row of the 64 are ever used.\<close>

theorem time_update_publishes:
  assumes ok: "cache_ok s" "\<not> ct_lock s" and tv: "0 \<le> sec" "sec < 2 ^ 50" "0 \<le> usec" "usec < 1000000"
    and old: "0 \<le> ct_sec s" "ct_sec s < 2 ^ 50" "0 \<le> ct_usec s" "ct_usec s < 1000000"
    and late: "ct_sec s * 1000 + ct_usec s div 1000 + 10 \<le> sec * 1000 + usec div 1000" and tm: "local_ok (localtime_r sec)"
  shows "\<exists>s' p. time_update localtime_r sec usec s = Some s' \<and> cache_ok s' \<and> time_curtime s' = sec * 1000 + usec div 1000 \<and>
     ct_slot s' = 62 - ct_slot s \<and> fst (time_logstr s') = Some p \<and>
     log_text s' p = log_time (time_localtime localtime_r sec) (word_of_int (usec div 1000)) \<and>
     (\<forall>q. fst (time_logstr s) = Some q \<longrightarrow> q \<noteq> p \<and> log_text s' q = log_text s q) \<and>
     SLOT_SIZE < length (log_text s' p)"
proof -
  let ?msec = "word_of_int (usec div 1000) :: u32" and ?p = "unat (62 - ct_slot s) * SLOT_SIZE"
  let ?t = "log_time (time_localtime localtime_r sec) ?msec"
  have us: "usec sdiv 1000 = usec div 1000" "ct_usec s sdiv 1000 = ct_usec s div 1000" using tv old by (simp_all add: sdiv_nonneg)
  have um: "uint ?msec = usec div 1000" "unat ?msec < 1000"
    using tv by (auto simp: take_bit_int_eq_self unsigned_of_int nat_less_iff)
  have len: "length ?t = 24" using log_time_length [of localtime_r sec ?msec, OF tm um(2)] .
  have slot: "(ct_slot s + 1) XOR (CACHE_TIME_SLOT - 1) = 62 - ct_slot s" "62 - ct_slot s \<in> {0, 62}"
    using ok(1) by (auto simp: cache_ok_def CACHE_TIME_SLOT_def)
  have p: "?p + 25 \<le> 1280" "ct_slot s = 0 \<Longrightarrow> ?p = 1240" "ct_slot s = 62 \<Longrightarrow> ?p = 0"
    using slot(2) by (auto simp: SLOT_SIZE_def)
  let ?c = "take ?p (ct_cache s) @ (?t @ [0]) @ drop (?p + 25) (ct_cache s)"
  let ?s = "s\<lparr>ct_msec := sec * 1000 + usec div 1000, ct_slot := 62 - ct_slot s, ct_sec := sec, ct_usec := usec, ct_cache := ?c, ct_log := Some ?p\<rparr>"
  have lc: "length (ct_cache s) = 1280" using ok(1) by (simp add: cache_ok_def)
  have r: "0 \<le> usec div 1000" "usec div 1000 < 1000" "0 \<le> ct_usec s div 1000" "ct_usec s div 1000 < 1000"
    using tv old by auto
  have "chk_int64 (sec * 1000) = Some (sec * 1000)" "chk_int64 (sec * 1000 + usec div 1000) = Some (sec * 1000 + usec div 1000)"
    "chk_int64 (ct_sec s * 1000) = Some (ct_sec s * 1000)"
    "chk_int64 (ct_sec s * 1000 + ct_usec s div 1000) = Some (ct_sec s * 1000 + ct_usec s div 1000)"
    "chk_int64 (sec * 1000 + usec div 1000 - (ct_sec s * 1000 + ct_usec s div 1000)) = Some (sec * 1000 + usec div 1000 - (ct_sec s * 1000 + ct_usec s div 1000))"
    unfolding chk_int64_def using tv old r late by simp_all
  hence "time_update localtime_r sec usec s = Some ?s"
    using ok(2) tv old late lc len p(1) us um(1) slot(1) by (simp add: time_update_def Let_def)
  moreover have "cache_ok ?s" using lc len p(1) slot(2) by (simp add: cache_ok_def)
  moreover have "log_text ?s ?p = ?t" using lc len p(1) by (simp add: log_text_def)
  moreover have "q \<noteq> ?p \<and> log_text ?s q = log_text s q" if "ct_log s = Some q" for q
  proof -
    have "q = unat (ct_slot s) * SLOT_SIZE" "ct_slot s = 0 \<or> ct_slot s = 62" using that ok(1) by (auto simp: cache_ok_def)
    thus ?thesis using p lc len by (auto simp: SLOT_SIZE_def log_text_def)
  qed
  ultimately show ?thesis using len by (intro exI [of _ ?s] exI [of _ ?p]) (simp add: time_curtime_def time_logstr_def SLOT_SIZE_def)
qed

definition cache0 :: cached_time where
  "cache0 = \<lparr>ct_slot = 0, ct_cache = replicate 1280 0, ct_msec = 0, ct_sec = 0, ct_usec = 0, ct_lock = False, ct_log = None, ct_log_len = 24\<rparr>"

theorem time_update_publishes_witness:
  "\<exists>s. time_update time_gmtime 784111777 500000 cache0 = Some s \<and> ct_slot s = 62 \<and> time_curtime s = 784111777500"
proof -
  have "cache_ok cache0" "\<not> ct_lock cache0" by (simp_all add: cache0_def cache_ok_def)
  moreover have "time_gmtime 784111777 = \<lparr>tm_sec = 37, tm_min = 49, tm_hour = 8, tm_mday = 6, tm_mon = 11, tm_year = 1994, tm_wday = 0\<rparr>"
    by code_simp
  hence "local_ok (time_gmtime 784111777)" by (simp add: local_ok_def)
  ultimately show ?thesis
    using time_update_publishes [of cache0 784111777 500000 time_gmtime] by (auto simp: cache0_def)
qed

end
