(* ===== verification/Dfs_Event.thy ===== *)
theory Dfs_Event
  imports Dfs_Conn Dfs_Queue Dfs_Timer Dfs_Time
begin

text \<open>
  The event loop: the dispatch of reported events in \<^verbatim>\<open>src/src/core/dfs_epoll.cpp\<close>, of posted events in
  \<^verbatim>\<open>src/src/core/dfs_event.cpp\<close>, and a turn of a thread in \<^verbatim>\<open>src/src/dn_thread.cpp\<close>. It composes the connections of \<open>Dfs_Conn\<close>, the
  rings of \<open>Dfs_Queue\<close>, the timers of \<open>Dfs_Timer\<close> and the clock of \<open>Dfs_Time\<close>. The handlers are a parameter. A handler works on
  the connections and the timers (\<open>loop_t\<close>) and not on the event base (\<open>base_t\<close>) with its posted queues: in the sources only
  \<^verbatim>\<open>dfs_epoll.cpp\<close>, \<^verbatim>\<open>dfs_event.cpp\<close> and \<^verbatim>\<open>dn_thread.cpp\<close> touch these. Nothing else is asked of a handler here.
\<close>

section \<open>State\<close>

text \<open>
  What the handlers see: the timers of the thread with their clock, the connections with their two events, the addresses of the
  events of a connection and the connection of an event (\<^verbatim>\<open>data\<close>), and the flag \<^verbatim>\<open>accepted\<close> of an event. Connections are never
  freed in this state: the handlers of the client connections give theirs back to the pool of the thread, which keeps the memory.
  (\<^verbatim>\<open>channel_handler\<close> of \<^verbatim>\<open>dn_worker_process.cpp\<close> frees its connection, and the loop reads it again; it is outside of this model.)
\<close>

record loop_t = timer_t +
  lp_conn :: "addr \<Rightarrow> conn_t"
  lp_read :: "addr \<Rightarrow> addr"
  lp_write :: "addr \<Rightarrow> addr"
  lp_data :: "addr \<Rightarrow> addr"
  lp_accepted :: "addr \<Rightarrow> bool"

text \<open>
  The event base: the links of the queue nodes and the heads of the two posted queues, the cached time, whether
  \<^verbatim>\<open>ep_base->time_update\<close> is set, the last time-out handed to \<^verbatim>\<open>epoll_wait\<close>, the other fields of \<^verbatim>\<open>event_base_t\<close>, and the heads of
  the two queues of the thread.
\<close>

record base_t =
  eb_links :: qheap
  eb_accq :: addr
  eb_evq :: addr
  eb_time :: cached_time
  eb_has_update :: bool
  eb_wait :: int
  eb_ep :: int
  eb_event_flags :: u32
  eb_event_list :: addr
  eb_nevents :: u32
  eb_thread_accq :: addr
  eb_thread_evq :: addr

type_synonym ev_handler_t = "addr \<Rightarrow> loop_t \<Rightarrow> loop_t option"

text \<open>The offset of \<^verbatim>\<open>post_queue\<close> in an event, and what \<^verbatim>\<open>queue_data\<close> undoes.\<close>

definition EV_POST :: nat where "EV_POST = 64"

definition post_queue :: "addr \<Rightarrow> addr" where
  "post_queue ev = ev + EV_POST"

definition EPOLLIN :: u32 where "EPOLLIN = 1"
definition EPOLLOUT :: u32 where "EPOLLOUT = 4"
definition EPOLLERR :: u32 where "EPOLLERR = 8"
definition EPOLLHUP :: u32 where "EPOLLHUP = 16"

definition EVENT_UPDATE_TIME :: u32 where "EVENT_UPDATE_TIME = 1"
definition EVENT_POST_EVENTS :: u32 where "EVENT_POST_EVENTS = 2"

text \<open>The answer of \<^verbatim>\<open>epoll_wait\<close>: the reported pointers (the lowest bit is the instance) with their event bits.\<close>

datatype wait_ans = Wait_events "(addr \<times> u32) list" | Wait_eintr | Wait_error

text \<open>What one turn gets from outside: the answer, the time of day, and \<^verbatim>\<open>localtime_r\<close>.\<close>

record wait_env =
  we_ans :: wait_ans
  we_sec :: int
  we_usec :: int
  we_local :: "int \<Rightarrow> tm_t"

section \<open>Reported events\<close>

definition upd_conn :: "addr \<Rightarrow> (conn_t \<Rightarrow> conn_t) \<Rightarrow> loop_t \<Rightarrow> loop_t" where
  "upd_conn c f s = s\<lparr>lp_conn := (lp_conn s)(c := f (lp_conn s c))\<rparr>"

definition call_handler :: "ev_handler_t \<Rightarrow> addr \<Rightarrow> loop_t \<Rightarrow> loop_t option" where
  "call_handler handler ev s = handler ev (s\<lparr>tm_calls := tm_calls s @ [ev]\<rparr>)"

text \<open>Post the event or call its handler.\<close>

definition fire :: "ev_handler_t \<Rightarrow> bool \<Rightarrow> bool \<Rightarrow> addr \<Rightarrow> addr \<Rightarrow> addr \<Rightarrow> loop_t \<times> base_t \<Rightarrow> (loop_t \<times> base_t) option" where
  "fire handler post inst c queue ev = (\<lambda>(s, b).
     if post then do {
        let s = upd_conn c (upd_ev EVENT_READ_EVENT (\<lambda>e. e\<lparr>ev_last_instance := inst\<rparr>)) s;
        hp \<leftarrow> queue_insert_tail (eb_links b) queue (post_queue ev);
        Some (s, b\<lparr>eb_links := hp\<rparr>) }
      else do { s \<leftarrow> call_handler handler ev s; Some (s, b) })"

definition report_events :: "u32 \<Rightarrow> u32" where
  "report_events events =
     (if events AND (EPOLLERR OR EPOLLHUP) \<noteq> 0 \<and> events AND (EPOLLIN OR EPOLLOUT) = 0
      then events OR (EPOLLIN OR EPOLLOUT) else events)"

text \<open>One iteration over the reported events. \<open>go\<close> is whether the read half did not \<^verbatim>\<open>continue\<close>.\<close>

definition process_event :: "ev_handler_t \<Rightarrow> bool \<Rightarrow> addr \<times> u32 \<Rightarrow> loop_t \<times> base_t \<Rightarrow> (loop_t \<times> base_t) option" where
  "process_event handler post r = (\<lambda>(s, b).
     let inst = odd (fst r); c = fst r - fst r mod 2 in
      if c = nullptr then None
      else if c_fd (lp_conn s c) = NGX_INVALID_FILE \<or> ev_instance (c_read (lp_conn s c)) \<noteq> inst then Some (s, b)
      else do {
        let events = report_events (snd r);
        (go, s, b) \<leftarrow>
          (if events AND EPOLLIN \<noteq> 0 \<and> ev_active (c_read (lp_conn s c)) then do {
             let rev = lp_read s c;
             let s = upd_conn c (upd_ev EVENT_READ_EVENT (\<lambda>e. e\<lparr>ev_ready := True\<rparr>)) s;
             if \<not> ev_handler (c_read (lp_conn s c)) then Some (False, s, b)
             else do {
               (s, b) \<leftarrow> fire handler post inst c (if lp_accepted s rev then eb_accq b else eb_evq b) rev (s, b);
               Some (True, s, b) } }
           else Some (True, s, b));
        if go \<and> events AND EPOLLOUT \<noteq> 0 \<and> ev_active (c_write (lp_conn s c)) then do {
          let wev = lp_write s c;
          let s = upd_conn c (upd_ev EVENT_WRITE_EVENT (\<lambda>e. e\<lparr>ev_ready := True\<rparr>)) s;
          if \<not> ev_handler (c_write (lp_conn s c)) then Some (s, b)
          else fire handler post inst c (eb_evq b) wev (s, b) }
        else Some (s, b) })"

fun process_list :: "ev_handler_t \<Rightarrow> bool \<Rightarrow> (addr \<times> u32) list \<Rightarrow> loop_t \<times> base_t \<Rightarrow> (loop_t \<times> base_t) option" where
  "process_list handler post [] sb = Some sb"
| "process_list handler post (r # rs) sb = do { sb \<leftarrow> process_event handler post r sb; process_list handler post rs sb }"

definition epoll_process_events :: "ev_handler_t \<Rightarrow> wait_env \<Rightarrow> int \<Rightarrow> u32 \<Rightarrow> loop_t \<times> base_t \<Rightarrow> (int \<times> loop_t \<times> base_t) option" where
  "epoll_process_events handler env timer flags = (\<lambda>(s, b).
     do {
       let b = b\<lparr>eb_wait := timer\<rparr>;
       (s, b) \<leftarrow> (if flags AND EVENT_UPDATE_TIME \<noteq> 0 \<and> eb_has_update b then
               do { t \<leftarrow> time_update (we_local env) (we_sec env) (we_usec env) (eb_time b);
                    Some (s\<lparr>tm_clock := time_curtime t\<rparr>, b\<lparr>eb_time := t\<rparr>) }
             else Some (s, b));
       (case we_ans env of
          Wait_error \<Rightarrow> Some (NGX_ERROR, s, b)
        | Wait_eintr \<Rightarrow> Some (NGX_OK, s, b)
        | Wait_events rs \<Rightarrow>
            if rs = [] then Some (if timer \<noteq> EVENT_TIMER_INFINITE then NGX_OK else NGX_ERROR, s, b)
            else do { sb \<leftarrow> process_list handler (flags AND EVENT_POST_EVENTS \<noteq> 0) rs (s, b); Some (NGX_OK, sb) }) })"

section \<open>Posted events\<close>

partial_function (option) event_process_posted :: "ev_handler_t \<Rightarrow> addr \<Rightarrow> loop_t \<Rightarrow> base_t \<Rightarrow> (loop_t \<times> base_t) option" where
  "event_process_posted handler posted s b =
     do {
       e \<leftarrow> queue_empty (eb_links b) posted;
       if e then Some (s, b)
       else do {
         eq \<leftarrow> queue_head (eb_links b) posted;
         hp \<leftarrow> queue_remove (eb_links b) eq;
         let b = b\<lparr>eb_links := hp\<rparr>;
         let ev = eq - EV_POST;
         if ev = nullptr then Some (s, b)
         else do {
           let c = lp_data s ev;
           if c = nullptr then None
           else do {
             s \<leftarrow> (if c_fd (lp_conn s c) \<noteq> NGX_INVALID_FILE then call_handler handler ev s else Some s);
             event_process_posted handler posted s b } } } }"

section \<open>A turn of a thread\<close>

datatype thread_type = THREAD_MASTER | THREAD_WORKER | THREAD_DN | THREAD_CLI_TEST | THREAD_PAXOS | THREAD_TASK

definition process_queue :: "ev_handler_t \<Rightarrow> thread_type \<Rightarrow> addr \<Rightarrow> loop_t \<Rightarrow> base_t \<Rightarrow> (loop_t \<times> base_t) option" where
  "process_queue handler type posted s b =
     (if type = THREAD_CLI_TEST then
        do { e \<leftarrow> queue_empty (eb_links b) posted;
             if \<not> e then event_process_posted handler posted s b else Some (s, b) }
      else Some (s, b))"

definition thread_event_process :: "ev_handler_t \<Rightarrow> wait_env \<Rightarrow> thread_type \<Rightarrow> loop_t \<times> base_t \<Rightarrow> (loop_t \<times> base_t) option" where
  "thread_event_process handler env type = (\<lambda>(s, b).
     do {
       let flags = (if type = THREAD_CLI_TEST then EVENT_POST_EVENTS OR EVENT_UPDATE_TIME else EVENT_UPDATE_TIME);
       timer \<leftarrow> event_find_timer s;
       let timer = (if timer > 10 \<or> timer = EVENT_TIMER_INFINITE then 10 else timer);
       let delta = tm_clock s;
       (rc, s, b) \<leftarrow> epoll_process_events handler env timer flags (s, b);
       (s, b) \<leftarrow> process_queue handler type (eb_accq b) s b;
       (s, b) \<leftarrow> process_queue handler type (eb_evq b) s b;
       delta \<leftarrow> chk_int64 (tm_clock s - delta);
       if delta \<noteq> 0 then do { s \<leftarrow> event_timers_expire handler s; Some (s, b) } else Some (s, b) })"

text \<open>\<^verbatim>\<open>conn_close\<close> on the state of the loop: the timers of the two events go, then the connection closes as in \<open>Dfs_Conn\<close>.\<close>

definition event_conn_close :: "addr \<Rightarrow> loop_t \<Rightarrow> loop_t option" where
  "event_conn_close c s =
     (if 0 < c_fd (lp_conn s c) then do {
        s \<leftarrow> (if tm_set s (lp_read s c) \<and> c_has_timer (lp_conn s c) then event_timer_del (lp_read s c) s else Some s);
        s \<leftarrow> (if tm_set s (lp_write s c) \<and> c_has_timer (lp_conn s c) then event_timer_del (lp_write s c) s else Some s);
        Some (upd_conn c conn_close s) }
      else Some s)"

section \<open>Set-up\<close>

definition EVENT_USE_CLEAR_EVENT :: u32 where "EVENT_USE_CLEAR_EVENT = 4"
definition EVENT_USE_GREEDY_EVENT :: u32 where "EVENT_USE_GREEDY_EVENT = 0x20"
definition EVENT_USE_EPOLL_EVENT :: u32 where "EVENT_USE_EPOLL_EVENT = 0x40"

text \<open>The descriptor of \<^verbatim>\<open>epoll_create\<close> and the address of the event list are the answers of the two allocating calls.\<close>

definition epoll_init :: "int \<Rightarrow> addr \<Rightarrow> base_t \<Rightarrow> (int \<times> base_t) option" where
  "epoll_init ep lst b =
     (let b = b\<lparr>eb_ep := ep\<rparr> in
      if ep = NGX_INVALID_FILE then Some (NGX_ERROR, b)
      else let b = b\<lparr>eb_event_list := lst\<rparr> in
      if lst = nullptr then Some (NGX_ERROR, b)
      else do {
        let b = b\<lparr>eb_event_flags := EVENT_USE_CLEAR_EVENT OR EVENT_USE_GREEDY_EVENT OR EVENT_USE_EPOLL_EVENT\<rparr>;
        hp \<leftarrow> queue_init (eb_links b) (eb_accq b);
        hp \<leftarrow> queue_init hp (eb_evq b);
        Some (NGX_OK, b\<lparr>eb_links := hp\<rparr>) })"

definition epoll_done :: "base_t \<Rightarrow> base_t" where
  "epoll_done b = b\<lparr>eb_ep := NGX_INVALID_FILE, eb_event_list := nullptr, eb_nevents := 0, eb_event_flags := 0\<rparr>"

definition thread_event_init :: "int \<Rightarrow> addr \<Rightarrow> loop_t \<times> base_t \<Rightarrow> (int \<times> loop_t \<times> base_t) option" where
  "thread_event_init ep lst = (\<lambda>(s, b).
     do {
       (rc, b) \<leftarrow> epoll_init ep lst b;
       if rc = NGX_ERROR then Some (NGX_ERROR, s, b)
       else do {
         (rc, s) \<leftarrow> event_timer_init s;
         hp \<leftarrow> queue_init (eb_links b) (eb_thread_accq b);
         hp \<leftarrow> queue_init hp (eb_thread_evq b);
         Some (NGX_OK, s, b\<lparr>eb_links := hp\<rparr>) } })"

section \<open>The posted queues\<close>

text \<open>Two queues of events on disjoint rings.\<close>

definition rings :: "qheap \<Rightarrow> addr \<Rightarrow> addr \<Rightarrow> addr list \<Rightarrow> addr list \<Rightarrow> bool" where
  "rings hp q r xs ys \<longleftrightarrow> is_queue hp q (map post_queue xs) \<and> is_queue hp r (map post_queue ys) \<and>
     set (q # map post_queue xs) \<inter> set (r # map post_queue ys) = {}"

lemma post_queue_simps [simp]:
  "post_queue a = post_queue b \<longleftrightarrow> a = b" "post_queue a \<noteq> nullptr" "post_queue a - EV_POST = a" "post_queue a \<le> EV_POST \<longleftrightarrow> a = 0"
  by (simp_all add: post_queue_def EV_POST_def)

lemma rings_sym: "rings hp q r xs ys = rings hp r q ys xs"
  by (auto simp: rings_def)

lemma rings_insert:
  assumes r: "rings hp q r xs ys" and ev: "post_queue ev \<notin> {q, r}" "ev \<notin> set xs \<union> set ys"
  shows "\<exists>hp'. queue_insert_tail hp q (post_queue ev) = Some hp' \<and> rings hp' q r (xs @ [ev]) ys"
proof -
  have x: "post_queue ev \<notin> set (q # map post_queue xs)" using ev by auto
  obtain hp' where h: "queue_insert_tail hp q (post_queue ev) = Some hp'" "is_queue hp' q (map post_queue xs @ [post_queue ev])"
    "\<And>g zs. is_queue hp g zs \<Longrightarrow> set (g # zs) \<inter> set (q # post_queue ev # map post_queue xs) = {} \<Longrightarrow> is_queue hp' g zs"
    using q.ins_tail [OF _ _ x] r unfolding rings_def by (metis post_queue_simps(2))
  have "is_queue hp' r (map post_queue ys)"
    using r ev by (intro h(3)) (auto simp: rings_def)
  thus ?thesis using h r ev by (auto simp: rings_def)
qed

lemma rings_first:
  assumes "rings hp q r (ev # xs) ys"
  shows "queue_empty hp q = Some False" "queue_head hp q = Some (post_queue ev)"
    "\<exists>hp'. queue_remove hp (post_queue ev) = Some hp' \<and> rings hp' q r xs ys"
proof -
  have i: "is_queue hp q (post_queue ev # map post_queue xs)" using assms by (simp add: rings_def)
  show "queue_empty hp q = Some False" "queue_head hp q = Some (post_queue ev)" using q.isempty [OF i] q.first [OF i] by simp_all
  obtain hp' where h: "queue_remove hp (post_queue ev) = Some hp'" "is_queue hp' q (map post_queue xs)"
    "\<And>g zs. is_queue hp g zs \<Longrightarrow> set (g # zs) \<inter> set (q # post_queue ev # map post_queue xs) = {} \<Longrightarrow> is_queue hp' g zs"
    using q.remove [of hp q "[]" "post_queue ev" "map post_queue xs"] i unfolding append_Nil by blast
  have "is_queue hp' r (map post_queue ys)" using assms by (intro h(3)) (auto simp: rings_def)
  thus "\<exists>hp'. queue_remove hp (post_queue ev) = Some hp' \<and> rings hp' q r xs ys" using h assms by (auto simp: rings_def)
qed

lemma rings_empty: "rings hp q r [] ys \<Longrightarrow> queue_empty hp q = Some True"
  using q.isempty [of hp q "[]"] by (simp add: rings_def)

lemma rings_distinct: "rings hp q r xs ys \<Longrightarrow> distinct xs \<and> distinct ys \<and> set xs \<inter> set ys = {}"
  by (auto simp: rings_def is_queue_def distinct_map)

definition posted :: "base_t \<Rightarrow> addr list \<Rightarrow> addr list \<Rightarrow> bool" where
  "posted b as es \<longleftrightarrow> rings (eb_links b) (eb_accq b) (eb_evq b) as es"

section \<open>The invariant of the loop\<close>

text \<open>The connections of \<open>C\<close> have even addresses, and every one has two events of its own outside of the queue heads.\<close>

definition layout :: "addr set \<Rightarrow> loop_t \<times> base_t \<Rightarrow> bool" where
  "layout C = (\<lambda>(s, b). \<forall>c\<in>C. c \<noteq> nullptr \<and> even c \<and> (\<forall>ev\<in>{lp_read s c, lp_write s c}.
      ev \<noteq> nullptr \<and> lp_data s ev = c \<and> post_queue ev \<notin> {eb_accq b, eb_evq b}) \<and> lp_read s c \<noteq> lp_write s c)"

definition ready_loop :: "addr set \<Rightarrow> loop_t \<times> base_t \<Rightarrow> bool" where
  "ready_loop C sb \<longleftrightarrow> timer_inv (fst sb) \<and> layout C sb"

section \<open>Calling the posted handlers\<close>

text \<open>
  What the loop over a posted queue has to do: for one event after the other, call its handler unless the connection of the
  event has been closed meanwhile (by a handler called before).
\<close>

fun call_all :: "ev_handler_t \<Rightarrow> addr list \<Rightarrow> loop_t \<Rightarrow> loop_t option" where
  "call_all handler [] s = Some s"
| "call_all handler (ev # evs) s =
     (if lp_data s ev = nullptr then None
      else do {
        s \<leftarrow> (if c_fd (lp_conn s (lp_data s ev)) \<noteq> NGX_INVALID_FILE then call_handler handler ev s else Some s);
        call_all handler evs s })"

text \<open>The loop does this, whatever the handlers do, and empties the queue.\<close>

lemma posted_loop:
  assumes "rings (eb_links b) q r evs ys" "nullptr \<notin> set evs"
  shows "\<exists>hp. rings hp q r [] ys \<and>
    (\<forall>s. event_process_posted handler q s b = do { s \<leftarrow> call_all handler evs s; Some (s, b\<lparr>eb_links := hp\<rparr>) })"
  using assms
proof (induction evs arbitrary: b)
  case Nil
  thus ?case using rings_empty [OF Nil.prems(1)]
    by (intro exI [of _ "eb_links b"]) (simp add: event_process_posted.simps)
next
  case (Cons ev evs)
  note f = rings_first [OF Cons.prems(1)]
  obtain hp where hp: "queue_remove (eb_links b) (post_queue ev) = Some hp" "rings hp q r evs ys" using f(3) by blast
  let ?b = "b\<lparr>eb_links := hp\<rparr>"
  obtain hp' where i: "rings hp' q r [] ys"
    "\<And>s. event_process_posted handler q s ?b = do { s \<leftarrow> call_all handler evs s; Some (s, ?b\<lparr>eb_links := hp'\<rparr>) }"
    using Cons.IH [of ?b] hp(2) Cons.prems(2) by auto
  have "event_process_posted handler q s b = do { s \<leftarrow> call_all handler (ev # evs) s; Some (s, b\<lparr>eb_links := hp'\<rparr>) }" for s
    using f(1,2) hp(1) Cons.prems(2) i(2) by (subst event_process_posted.simps) (simp add: Let_def)
  thus ?case using i(1) by blast
qed

lemma queue_turn:
  assumes "rings (eb_links b) q r evs ys" "nullptr \<notin> set evs"
  shows "\<exists>hp. rings hp q r [] ys \<and>
    (\<forall>s. process_queue handler THREAD_CLI_TEST q s b = do { s \<leftarrow> call_all handler evs s; Some (s, b\<lparr>eb_links := hp\<rparr>) })"
proof (cases evs)
  case Nil
  thus ?thesis using assms rings_empty [of "eb_links b" q r ys] by (intro exI [of _ "eb_links b"]) (simp add: process_queue_def)
next
  case (Cons e es)
  thus ?thesis using posted_loop [OF assms] rings_first(1) [of "eb_links b" q r e es ys] assms(1) by (simp add: process_queue_def)
qed

section \<open>Posting\<close>

definition conn_of :: "addr \<times> u32 \<Rightarrow> addr" where
  "conn_of r = fst r - fst r mod 2"

text \<open>A reported event is live when its connection is open with the same instance; which of the two events it makes ready; the
  events that it posts to the queue of accepts and to the other one.\<close>

definition live :: "loop_t \<Rightarrow> addr \<times> u32 \<Rightarrow> bool" where
  "live s r \<longleftrightarrow> c_fd (lp_conn s (conn_of r)) \<noteq> NGX_INVALID_FILE \<and> ev_instance (c_read (lp_conn s (conn_of r))) = odd (fst r)"

definition readable :: "loop_t \<Rightarrow> addr \<times> u32 \<Rightarrow> bool" where
  "readable s r \<longleftrightarrow> live s r \<and> report_events (snd r) AND EPOLLIN \<noteq> 0 \<and> ev_active (c_read (lp_conn s (conn_of r)))"

definition writable :: "loop_t \<Rightarrow> addr \<times> u32 \<Rightarrow> bool" where
  "writable s r \<longleftrightarrow> live s r \<and> report_events (snd r) AND EPOLLOUT \<noteq> 0 \<and> ev_active (c_write (lp_conn s (conn_of r))) \<and>
     ev_handler (c_write (lp_conn s (conn_of r))) \<and> (readable s r \<longrightarrow> ev_handler (c_read (lp_conn s (conn_of r))))"

definition read_post :: "bool \<Rightarrow> loop_t \<Rightarrow> addr \<times> u32 \<Rightarrow> addr list" where
  "read_post acc s r = (if readable s r \<and> ev_handler (c_read (lp_conn s (conn_of r))) \<and> lp_accepted s (lp_read s (conn_of r)) = acc
     then [lp_read s (conn_of r)] else [])"

definition event_post :: "loop_t \<Rightarrow> addr \<times> u32 \<Rightarrow> addr list" where
  "event_post s r = read_post False s r @ (if writable s r then [lp_write s (conn_of r)] else [])"

lemma fire_post:
  assumes "rings (eb_links b) q r xs ys" "post_queue ev \<notin> {q, r}" "ev \<notin> set xs \<union> set ys"
  shows "\<exists>hp. fire handler True inst c q ev (s, b) =
      Some (upd_conn c (upd_ev EVENT_READ_EVENT (\<lambda>e. e\<lparr>ev_last_instance := inst\<rparr>)) s, b\<lparr>eb_links := hp\<rparr>) \<and>
    rings hp q r (xs @ [ev]) ys"
  using rings_insert [OF assms] by (auto simp: fire_def Let_def)

lemma upd_ev_fields [simp]:
  "c_fd (upd_ev sd f k) = c_fd k"
  "c_write (upd_ev EVENT_READ_EVENT f k) = c_write k" "c_read (upd_ev EVENT_WRITE_EVENT f k) = c_read k"
  "c_read (upd_ev EVENT_READ_EVENT f k) = f (c_read k)" "c_write (upd_ev EVENT_WRITE_EVENT f k) = f (c_write k)"
  by (simp_all add: upd_ev_def)

text \<open>The two halves of an iteration when events are posted: the flags of the connection change, and the queues grow.\<close>

definition read_half :: "ev_handler_t \<Rightarrow> addr \<times> u32 \<Rightarrow> loop_t \<times> base_t \<Rightarrow> (bool \<times> loop_t \<times> base_t) option" where
  "read_half handler r = (\<lambda>(s, b).
     (if report_events (snd r) AND EPOLLIN \<noteq> 0 \<and> ev_active (c_read (lp_conn s (conn_of r))) then do {
        let s' = upd_conn (conn_of r) (upd_ev EVENT_READ_EVENT (\<lambda>e. e\<lparr>ev_ready := True\<rparr>)) s;
        if \<not> ev_handler (c_read (lp_conn s (conn_of r))) then Some (False, s', b)
        else do {
          (s, b) \<leftarrow> fire handler True (odd (fst r)) (conn_of r)
            (if lp_accepted s (lp_read s (conn_of r)) then eb_accq b else eb_evq b) (lp_read s (conn_of r)) (s', b);
          Some (True, s, b) } }
      else Some (True, s, b)))"

definition write_half :: "ev_handler_t \<Rightarrow> addr \<times> u32 \<Rightarrow> bool \<times> loop_t \<times> base_t \<Rightarrow> (loop_t \<times> base_t) option" where
  "write_half handler r = (\<lambda>(go, s, b).
     if go \<and> report_events (snd r) AND EPOLLOUT \<noteq> 0 \<and> ev_active (c_write (lp_conn s (conn_of r))) then do {
       let s' = upd_conn (conn_of r) (upd_ev EVENT_WRITE_EVENT (\<lambda>e. e\<lparr>ev_ready := True\<rparr>)) s;
       if \<not> ev_handler (c_write (lp_conn s (conn_of r))) then Some (s', b)
       else fire handler True (odd (fst r)) (conn_of r) (eb_evq b) (lp_write s (conn_of r)) (s', b) }
     else Some (s, b))"

lemma process_event_halves:
  assumes "conn_of r \<noteq> nullptr"
  shows "process_event handler True r (s, b) =
    (if live s r then do { x \<leftarrow> read_half handler r (s, b); write_half handler r x } else Some (s, b))"
proof (cases "live s r")
  case False
  thus ?thesis using assms by (auto simp: process_event_def conn_of_def [symmetric] Let_def live_def)
next
  case True
  have rd: "lp_conn (upd_conn (conn_of r) f s) (conn_of r) = f (lp_conn s (conn_of r))"
    "lp_accepted (upd_conn (conn_of r) f s) = lp_accepted s" "lp_write (upd_conn (conn_of r) f s) = lp_write s" for f s
    by (simp_all add: upd_conn_def)
  show ?thesis using True assms
    by (simp add: process_event_def conn_of_def [symmetric] Let_def live_def read_half_def write_half_def rd cong: if_cong)
qed

lemma read_half_post:
  assumes l: "layout C (s, b)" and c: "conn_of r \<in> C" and p: "rings (eb_links b) (eb_accq b) (eb_evq b) as es"
    and new: "lp_read s (conn_of r) \<notin> set as \<union> set es" and live: "live s r"
  shows "\<exists>k hp. read_half handler r (s, b) =
      Some (readable s r \<longrightarrow> ev_handler (c_read (lp_conn s (conn_of r))), s\<lparr>lp_conn := (lp_conn s)(conn_of r := k)\<rparr>, b\<lparr>eb_links := hp\<rparr>) \<and>
    c_fd k = c_fd (lp_conn s (conn_of r)) \<and> c_write k = c_write (lp_conn s (conn_of r)) \<and>
    rings hp (eb_accq b) (eb_evq b) (as @ read_post True s r) (es @ read_post False s r)"
proof -
  let ?c = "conn_of r" and ?inst = "odd (fst r)"
  let ?rev = "lp_read s ?c" and ?k = "upd_ev EVENT_READ_EVENT (\<lambda>e. e\<lparr>ev_ready := True\<rparr>) (lp_conn s (conn_of r))"
  have d: "post_queue ?rev \<notin> {eb_accq b, eb_evq b}" using l c by (auto simp: layout_def)
  consider "\<not> readable s r" | "readable s r" "\<not> ev_handler (c_read (lp_conn s ?c))" | "readable s r" "ev_handler (c_read (lp_conn s ?c))" by blast
  thus ?thesis
  proof cases
    case 1
    hence "read_half handler r (s, b) = Some (True, s, b)" using live by (auto simp: read_half_def readable_def)
    thus ?thesis using 1 p by (intro exI [of _ "lp_conn s ?c"] exI [of _ "eb_links b"]) (simp add: read_post_def)
  next
    case 2
    hence "read_half handler r (s, b) = Some (False, upd_conn ?c (upd_ev EVENT_READ_EVENT (\<lambda>e. e\<lparr>ev_ready := True\<rparr>)) s, b)"
      by (simp add: read_half_def readable_def)
    thus ?thesis using 2 p by (intro exI [of _ ?k] exI [of _ "eb_links b"]) (simp add: upd_conn_def read_post_def)
  next
    case 3
    let ?s = "upd_conn ?c (upd_ev EVENT_READ_EVENT (\<lambda>e. e\<lparr>ev_ready := True\<rparr>)) s"
    let ?k' = "upd_ev EVENT_READ_EVENT (\<lambda>e. e\<lparr>ev_last_instance := ?inst\<rparr>) ?k"
    have p': "rings (eb_links b) (eb_evq b) (eb_accq b) es as" using p rings_sym by blast
    have "\<exists>hp. fire handler True ?inst ?c (if lp_accepted s ?rev then eb_accq b else eb_evq b) ?rev (?s, b) =
        Some (s\<lparr>lp_conn := (lp_conn s)(?c := ?k')\<rparr>, b\<lparr>eb_links := hp\<rparr>) \<and>
        rings hp (eb_accq b) (eb_evq b) (as @ read_post True s r) (es @ read_post False s r)"
      using fire_post [OF p, of ?rev handler ?inst ?c ?s] fire_post [OF p', of ?rev handler ?inst ?c ?s] new(1) d 3
      by (cases "lp_accepted s ?rev") (auto simp: read_post_def upd_conn_def rings_sym [of _ "eb_evq b"])
    then obtain hp where "fire handler True ?inst ?c (if lp_accepted s ?rev then eb_accq b else eb_evq b) ?rev (?s, b) =
        Some (s\<lparr>lp_conn := (lp_conn s)(?c := ?k')\<rparr>, b\<lparr>eb_links := hp\<rparr>)"
        "rings hp (eb_accq b) (eb_evq b) (as @ read_post True s r) (es @ read_post False s r)" by blast
    moreover from this have "read_half handler r (s, b) = Some (True, s\<lparr>lp_conn := (lp_conn s)(?c := ?k')\<rparr>, b\<lparr>eb_links := hp\<rparr>)"
      using 3 by (simp add: read_half_def readable_def Let_def)
    ultimately show ?thesis using 3 by (intro exI [of _ ?k'] exI [of _ hp]) simp
  qed
qed

lemma process_event_post:
  assumes l: "layout C (s, b)" and c: "conn_of r \<in> C" and p: "posted b as es"
    and new: "lp_read s (conn_of r) \<notin> set as \<union> set es" "lp_write s (conn_of r) \<notin> set as \<union> set es"
  shows "\<exists>k hp. process_event handler True r (s, b) = Some (s\<lparr>lp_conn := (lp_conn s)(conn_of r := k)\<rparr>, b\<lparr>eb_links := hp\<rparr>) \<and>
    c_fd k = c_fd (lp_conn s (conn_of r)) \<and> rings hp (eb_accq b) (eb_evq b) (as @ read_post True s r) (es @ event_post s r)"
proof -
  let ?c = "conn_of r" and ?inst = "odd (fst r)"
  let ?rev = "lp_read s ?c" and ?wev = "lp_write s ?c"
  have d: "?c \<noteq> nullptr" "post_queue ?wev \<notin> {eb_accq b, eb_evq b}" "?rev \<noteq> ?wev" using l c by (auto simp: layout_def)
  have p: "rings (eb_links b) (eb_accq b) (eb_evq b) as es" using p by (simp add: posted_def)
  note pe = process_event_halves [OF d(1)]
  show ?thesis
  proof (cases "live s r")
    case False
    thus ?thesis using p by (intro exI [of _ "lp_conn s ?c"] exI [of _ "eb_links b"])
        (auto simp: pe read_post_def event_post_def readable_def writable_def)
  next
    case True
    obtain k hp where k: "read_half handler r (s, b) =
        Some (readable s r \<longrightarrow> ev_handler (c_read (lp_conn s ?c)), s\<lparr>lp_conn := (lp_conn s)(?c := k)\<rparr>, b\<lparr>eb_links := hp\<rparr>)"
      "c_fd k = c_fd (lp_conn s ?c)" "c_write k = c_write (lp_conn s ?c)"
      "rings hp (eb_accq b) (eb_evq b) (as @ read_post True s r) (es @ read_post False s r)"
      using read_half_post [OF l c p new(1) True] by blast
    let ?s = "s\<lparr>lp_conn := (lp_conn s)(?c := k)\<rparr>" and ?b = "b\<lparr>eb_links := hp\<rparr>"
    show ?thesis
    proof (cases "writable s r")
      case False
      let ?go = "(readable s r \<longrightarrow> ev_handler (c_read (lp_conn s ?c))) \<and> report_events (snd r) AND EPOLLOUT \<noteq> 0 \<and>
        ev_active (c_write (lp_conn s ?c))"
      let ?k = "if ?go then upd_ev EVENT_WRITE_EVENT (\<lambda>e. e\<lparr>ev_ready := True\<rparr>) k else k"
      have "process_event handler True r (s, b) = Some (s\<lparr>lp_conn := (lp_conn s)(?c := ?k)\<rparr>, b\<lparr>eb_links := hp\<rparr>)"
        using False k(1,3) True by (cases ?go) (auto simp: pe write_half_def writable_def upd_conn_def)
      thus ?thesis using False k(2,4) by (intro exI [of _ ?k] exI [of _ hp]) (simp add: event_post_def)
    next
      case w: True
      let ?s2 = "upd_conn ?c (upd_ev EVENT_WRITE_EVENT (\<lambda>e. e\<lparr>ev_ready := True\<rparr>)) ?s"
      let ?k = "upd_ev EVENT_READ_EVENT (\<lambda>e. e\<lparr>ev_last_instance := ?inst\<rparr>) (lp_conn ?s2 ?c)"
      have r2: "rings (eb_links ?b) (eb_evq b) (eb_accq b) (es @ read_post False s r) (as @ read_post True s r)"
        using k(4) rings_sym by simp
      have n2: "?wev \<notin> set (es @ read_post False s r) \<union> set (as @ read_post True s r)"
        using new(2) d(3) by (auto simp: read_post_def)
      have q2: "post_queue ?wev \<notin> {eb_evq b, eb_accq b}" using d(2) by auto
      obtain hp' where h: "fire handler True ?inst ?c (eb_evq b) ?wev (?s2, ?b) =
            Some (upd_conn ?c (upd_ev EVENT_READ_EVENT (\<lambda>e. e\<lparr>ev_last_instance := ?inst\<rparr>)) ?s2, ?b\<lparr>eb_links := hp'\<rparr>)"
          "rings hp' (eb_evq b) (eb_accq b) ((es @ read_post False s r) @ [?wev]) (as @ read_post True s r)"
        using fire_post [OF r2 q2 n2, of handler ?inst ?c ?s2] by blast
      have "process_event handler True r (s, b) = Some (s\<lparr>lp_conn := (lp_conn s)(?c := ?k)\<rparr>, b\<lparr>eb_links := hp'\<rparr>)"
        using w k(1,3) h(1) True by (simp add: pe write_half_def writable_def upd_conn_def)
      moreover have "rings hp' (eb_accq b) (eb_evq b) (as @ read_post True s r) (es @ event_post s r)"
        using h(2) w rings_sym [of hp' "eb_evq b" "eb_accq b"] by (simp add: event_post_def)
      ultimately show ?thesis using k(2) by (intro exI [of _ ?k] exI [of _ hp']) (simp add: upd_conn_def)
    qed
  qed
qed

definition same_conn :: "loop_t \<Rightarrow> loop_t \<Rightarrow> addr \<Rightarrow> bool" where
  "same_conn s s' c \<longleftrightarrow> lp_conn s' c = lp_conn s c \<and> lp_read s' c = lp_read s c \<and> lp_write s' c = lp_write s c \<and>
     lp_accepted s' = lp_accepted s"

lemma post_same: "same_conn s s' (conn_of r) \<Longrightarrow> read_post a s' r = read_post a s r \<and> event_post s' r = event_post s r"
  by (simp add: same_conn_def read_post_def event_post_def readable_def writable_def live_def)

lemma post_events: "conn_of r = c \<Longrightarrow> set (read_post a s r) \<subseteq> {lp_read s c} \<and> set (event_post s r) \<subseteq> {lp_read s c, lp_write s c}"
  by (auto simp: read_post_def event_post_def)

lemma events_apart:
  assumes "layout C (s, b)" "c \<in> C" "c' \<in> C" "c \<noteq> c'"
  shows "{lp_read s c, lp_write s c} \<inter> {lp_read s c', lp_write s c'} = {}"
  using assms unfolding layout_def prod.case by (metis (no_types, opaque_lifting) disjoint_iff empty_iff insert_iff)

lemma process_list_post:
  assumes "layout C (s, b)" "posted b as es" "distinct (map conn_of rs)" "conn_of ` set rs \<subseteq> C"
    "\<forall>r\<in>set rs. {lp_read s (conn_of r), lp_write s (conn_of r)} \<inter> (set as \<union> set es) = {}"
  shows "\<exists>K hp. process_list handler True rs (s, b) = Some (s\<lparr>lp_conn := K\<rparr>, b\<lparr>eb_links := hp\<rparr>) \<and> (\<forall>c. c_fd (K c) = c_fd (lp_conn s c)) \<and>
    rings hp (eb_accq b) (eb_evq b) (as @ concat (map (read_post True s) rs)) (es @ concat (map (event_post s) rs))"
  using assms
proof (induction rs arbitrary: s b as es)
  case Nil
  thus ?case by (intro exI [of _ "lp_conn s"] exI [of _ "eb_links b"]) (simp add: posted_def)
next
  case (Cons r rs)
  obtain k hp where k: "process_event handler True r (s, b) = Some (s\<lparr>lp_conn := (lp_conn s)(conn_of r := k)\<rparr>, b\<lparr>eb_links := hp\<rparr>)"
    "c_fd k = c_fd (lp_conn s (conn_of r))" "rings hp (eb_accq b) (eb_evq b) (as @ read_post True s r) (es @ event_post s r)"
    using process_event_post [OF Cons.prems(1) _ Cons.prems(2), of r handler] Cons.prems(4,5) by auto
  let ?s = "s\<lparr>lp_conn := (lp_conn s)(conn_of r := k)\<rparr>" and ?b = "b\<lparr>eb_links := hp\<rparr>"
  have "conn_of r \<notin> conn_of ` set rs" using Cons.prems(3) by simp
  hence ne: "conn_of r' \<noteq> conn_of r" if "r' \<in> set rs" for r' using that by (metis imageI)
  have sc: "same_conn s ?s (conn_of r')" if "r' \<in> set rs" for r' using ne [OF that] by (auto simp: same_conn_def)
  have ap: "\<forall>r'\<in>set rs. {lp_read ?s (conn_of r'), lp_write ?s (conn_of r')} \<inter> (set (as @ read_post True s r) \<union> set (es @ event_post s r)) = {}"
  proof
    fix r' assume r': "r' \<in> set rs"
    have "{lp_read s (conn_of r'), lp_write s (conn_of r')} \<inter> {lp_read s (conn_of r), lp_write s (conn_of r)} = {}"
      using Cons.prems(1,4) r' ne [OF r'] by (intro events_apart [of C]) auto
    thus "{lp_read ?s (conn_of r'), lp_write ?s (conn_of r')} \<inter> (set (as @ read_post True s r) \<union> set (es @ event_post s r)) = {}"
      using Cons.prems(5) r' post_events [of r "conn_of r" True s] by auto
  qed
  have "layout C (?s, ?b)" using Cons.prems(1) by (simp add: layout_def)
  moreover have "posted ?b (as @ read_post True s r) (es @ event_post s r)" using k(3) by (simp add: posted_def)
  ultimately obtain K hp' where i: "process_list handler True rs (?s, ?b) = Some (?s\<lparr>lp_conn := K\<rparr>, ?b\<lparr>eb_links := hp'\<rparr>)"
    "\<forall>c. c_fd (K c) = c_fd (lp_conn ?s c)" "rings hp' (eb_accq ?b) (eb_evq ?b) ((as @ read_post True s r) @ concat (map (read_post True ?s) rs))
       ((es @ event_post s r) @ concat (map (event_post ?s) rs))"
    using Cons.IH [of ?s ?b "as @ read_post True s r" "es @ event_post s r"] ap Cons.prems(3,4) by auto
  have m: "map (read_post True ?s) rs = map (read_post True s) rs" "map (event_post ?s) rs = map (event_post s) rs"
    using post_same [OF sc] by auto
  have "rings hp' (eb_accq b) (eb_evq b) (as @ concat (map (read_post True s) (r # rs))) (es @ concat (map (event_post s) (r # rs)))"
    using i(3) unfolding m by simp
  moreover have "process_list handler True (r # rs) (s, b) = Some (s\<lparr>lp_conn := K\<rparr>, b\<lparr>eb_links := hp'\<rparr>)" using k(1) i(1) by simp
  ultimately show ?case using i(2) k(2) by (intro exI [of _ K] exI [of _ hp']) auto
qed

section \<open>A turn\<close>

lemma epoll_in_out: "EVENT_POST_EVENTS OR EVENT_UPDATE_TIME = 3" "(3 :: u32) AND EVENT_UPDATE_TIME \<noteq> 0" "(3 :: u32) AND EVENT_POST_EVENTS \<noteq> 0"
  by (simp_all add: EVENT_POST_EVENTS_def EVENT_UPDATE_TIME_def)

text \<open>The time-out of a turn: up to the earliest deadline, ten milliseconds at most.\<close>

definition wait_time :: "loop_t \<Rightarrow> int" where
  "wait_time s = (if deadline s = Map.empty then 10 else min 10 (max 0 (Min (ran (deadline s)) - tm_clock s)))"

lemma post_clock:
  "read_post a (s\<lparr>tm_clock := now\<rparr>) = read_post a s" "event_post (s\<lparr>tm_clock := now\<rparr>) = event_post s"
  by (auto simp: fun_eq_iff read_post_def event_post_def readable_def writable_def live_def)

lemma posts_nonnull:
  assumes "layout C (s, b)" "conn_of ` set rs \<subseteq> C"
  shows "nullptr \<notin> set (concat (map (read_post True s) rs)) \<union> set (concat (map (event_post s) rs))"
  using assms by (fastforce simp: layout_def read_post_def event_post_def split: if_splits)

lemma epoll_process_events_post:
  assumes "layout C (s, b)" "posted b [] []" "we_ans env = Wait_events rs" "distinct (map conn_of rs)" "conn_of ` set rs \<subseteq> C"
    and t: "eb_has_update b" "time_update (we_local env) (we_sec env) (we_usec env) (eb_time b) = Some t"
    and w: "w \<noteq> EVENT_TIMER_INFINITE"
  shows "\<exists>K hp. epoll_process_events handler env w 3 (s, b) =
      Some (NGX_OK, s\<lparr>tm_clock := time_curtime t, lp_conn := K\<rparr>, b\<lparr>eb_wait := w, eb_time := t, eb_links := hp\<rparr>) \<and>
    (\<forall>c. c_fd (K c) = c_fd (lp_conn s c)) \<and>
    rings hp (eb_accq b) (eb_evq b) (concat (map (read_post True s) rs)) (concat (map (event_post s) rs))"
proof -
  let ?s = "s\<lparr>tm_clock := time_curtime t\<rparr>" and ?b = "b\<lparr>eb_wait := w, eb_time := t\<rparr>"
  have l: "layout C (?s, ?b)" "posted ?b [] []" using assms(1,2) by (simp_all add: layout_def posted_def)
  obtain K hp where k: "process_list handler True rs (?s, ?b) = Some (?s\<lparr>lp_conn := K\<rparr>, ?b\<lparr>eb_links := hp\<rparr>)" "\<forall>c. c_fd (K c) = c_fd (lp_conn s c)"
    "rings hp (eb_accq b) (eb_evq b) (concat (map (read_post True s) rs)) (concat (map (event_post s) rs))"
    using process_list_post [OF l assms(4,5), of handler] unfolding post_clock by auto
  have "epoll_process_events handler env w 3 (s, b) = Some (NGX_OK, ?s\<lparr>lp_conn := K\<rparr>, ?b\<lparr>eb_links := hp\<rparr>)"
    using k(1) t(1,2) w assms(3) epoll_in_out by (cases "rs = []") (auto simp: epoll_process_events_def Let_def)
  thus ?thesis using k(2,3) by (intro exI [of _ K] exI [of _ hp]) simp
qed

section \<open>Closing a connection\<close>

lemma event_timer_del_more: "event_timer_del ev s = Some s' \<Longrightarrow> timer_t.more s' = timer_t.more s"
  by (auto simp: event_timer_del_def split: if_splits bind_splits)

lemma more_fields:
  assumes "timer_t.more s' = timer_t.more (s :: loop_t)"
  shows "lp_conn s' = lp_conn s" "lp_read s' = lp_read s" "lp_write s' = lp_write s" "lp_data s' = lp_data s"
  using assms by (cases s; cases s'; simp)+

lemma timer_inv_conn [simp]: "timer_inv (upd_conn c f s) = timer_inv s" "deadline (upd_conn c f s) = deadline s"
proof -
  show d: "deadline (upd_conn c f s) = deadline s" by (simp add: fun_eq_iff deadline_def upd_conn_def)
  show "timer_inv (upd_conn c f s) = timer_inv s" unfolding timer_inv_def holds_def d by (simp add: upd_conn_def)
qed

lemma close_step:
  assumes "timer_inv s"
  shows "\<exists>s'. (if b then event_timer_del ev s else Some s) = Some s' \<and> timer_inv s' \<and> timer_t.more s' = timer_t.more s \<and>
     tm_clock s' = tm_clock s \<and> tm_calls s' = tm_calls s \<and> rearmed s s'"
proof (cases b)
  case True
  from event_timer_del_ok [OF assms, of ev] obtain s' where s': "event_timer_del ev s = Some s'" "timer_inv s'"
    "deadline s' = (deadline s)(ev := None)" "same_rest s s'" by blast
  thus ?thesis using True event_timer_del_more [OF s'(1)] by (auto simp: same_rest_def rearmed_def split: if_splits)
next
  case False
  thus ?thesis using assms by (simp add: rearmed_def)
qed

lemma conn_close_fd: "c_fd (conn_close k) = (if 0 < c_fd k then NGX_INVALID_FILE else c_fd k)"
  by (simp add: conn_close_def event_timer_clear_def epoll_del_connection_def set_both_active_def upd_ev_def Let_def)

lemma event_conn_close_ok:
  assumes "timer_inv s"
  shows "\<exists>s'. event_conn_close c s = Some s' \<and> timer_inv s' \<and> tm_clock s' = tm_clock s \<and> tm_calls s' = tm_calls s \<and> rearmed s s' \<and>
     timer_t.more s' = timer_t.more (if 0 < c_fd (lp_conn s c) then upd_conn c conn_close s else s)"
proof (cases "0 < c_fd (lp_conn s c)")
  case True
  obtain s1 where s1: "(if tm_set s (lp_read s c) \<and> c_has_timer (lp_conn s c) then event_timer_del (lp_read s c) s else Some s) = Some s1"
    "timer_inv s1" "timer_t.more s1 = timer_t.more s" "tm_clock s1 = tm_clock s" "tm_calls s1 = tm_calls s" "rearmed s s1"
    using close_step [OF assms] by blast
  obtain s2 where s2: "(if tm_set s1 (lp_write s1 c) \<and> c_has_timer (lp_conn s1 c) then event_timer_del (lp_write s1 c) s1 else Some s1) = Some s2"
    "timer_inv s2" "timer_t.more s2 = timer_t.more s1" "tm_clock s2 = tm_clock s1" "tm_calls s2 = tm_calls s1" "rearmed s1 s2"
    using close_step [OF s1(2)] by blast
  have e: "event_conn_close c s = Some (upd_conn c conn_close s2)" using True s1(1) s2(1) by (simp add: event_conn_close_def)
  have m: "timer_t.more s2 = timer_t.more s" using s1(3) s2(3) by simp
  have "timer_t.more (upd_conn c conn_close s2) = timer_t.more (upd_conn c conn_close s)"
    using m by (cases s; cases s2) (simp add: upd_conn_def)
  moreover have "rearmed s (upd_conn c conn_close s2)" using s1(4,6) s2(6) by (auto simp: rearmed_def)
  moreover have "tm_clock (upd_conn c conn_close s2) = tm_clock s" "tm_calls (upd_conn c conn_close s2) = tm_calls s"
    using s1(4,5) s2(4,5) by (simp_all add: upd_conn_def)
  ultimately show ?thesis using True s2(2) e by auto
next
  case False
  thus ?thesis using assms by (simp add: event_conn_close_def rearmed_def)
qed

section \<open>Properties\<close>


text \<open>Closing a connection and taking it into use again.\<close>

definition reopen :: "conn_t \<Rightarrow> int \<Rightarrow> conn_t" where
  "reopen k fd = conn_set_default (conn_close k) fd"

lemma reopen_instance:
  "ev_instance (c_read (foldl reopen k fds)) = (ev_instance (c_read k) \<noteq> odd (length fds))"
proof (induction fds arbitrary: k)
  case (Cons fd fds)
  have "ev_instance (c_read (reopen k fd)) = (\<not> ev_instance (c_read k))"
    by (simp add: reopen_def conn_set_default_def conn_close_def event_timer_clear_def epoll_del_connection_def set_both_active_def
      get_ev_def upd_ev_def Let_def ev_zero_def)
  thus ?case using Cons by auto
qed simp

lemma reopen_fd: "0 < c_fd k \<Longrightarrow> \<forall>fd\<in>set fds. 0 < fd \<Longrightarrow> 0 < c_fd (foldl reopen k fds)"
  by (induction fds arbitrary: k) (simp_all add: reopen_def conn_set_default_def Let_def)

text \<open>C11: an event that was reported before its connection was closed is dropped, also when the connection structure
  was taken into use again for another descriptor; the instance bit distinguishes one reuse, not two within one report.\<close>

theorem stale_event_dropped:
  assumes "even c" "c \<noteq> nullptr" "0 < c_fd (lp_conn s c)" "\<forall>fd\<in>set fds. 0 < fd"
    and r: "r = (c + of_bool (ev_instance (c_read (lp_conn s c))), bits)"
    and s': "s' = upd_conn c (\<lambda>k. foldl reopen k fds) s"
  shows "process_event handler post r (upd_conn c conn_close s', b) = Some (upd_conn c conn_close s', b) \<and>
    (odd (length fds) \<longrightarrow> process_event handler post r (s', b) = Some (s', b)) \<and> (live s' r \<longleftrightarrow> even (length fds))"
proof -
  have c: "fst r - fst r mod 2 = c" "odd (fst r) = ev_instance (c_read (lp_conn s c))" using assms(1) r by (auto simp: mod_2_eq_odd)
  have fd: "0 < c_fd (lp_conn s' c)" using reopen_fd [OF assms(3,4)] by (simp add: s' upd_conn_def)
  have i: "ev_instance (c_read (lp_conn s' c)) = (ev_instance (c_read (lp_conn s c)) \<noteq> odd (length fds))"
    using reopen_instance [of "lp_conn s c" fds] by (simp add: s' upd_conn_def)
  have "c_fd (lp_conn (upd_conn c conn_close s') c) = NGX_INVALID_FILE" using fd by (simp add: upd_conn_def conn_close_fd)
  hence "process_event handler post r (upd_conn c conn_close s', b) = Some (upd_conn c conn_close s', b)"
    using c assms(2) by (simp add: process_event_def Let_def)
  moreover have "process_event handler post r (s', b) = Some (s', b)" if "odd (length fds)"
    using that c i assms(2) by (simp add: process_event_def Let_def)
  moreover have "live s' r \<longleftrightarrow> even (length fds)"
    using fd c i by (auto simp: live_def conn_of_def NGX_INVALID_FILE_def)
  ultimately show ?thesis by blast
qed

lemma init_two:
  assumes "q \<noteq> nullptr" "r \<noteq> nullptr" "q \<noteq> r"
  shows "\<exists>hp1 hp2. queue_init hp q = Some hp1 \<and> queue_init hp1 r = Some hp2 \<and> is_queue hp2 q [] \<and> is_queue hp2 r [] \<and>
    (\<forall>g. is_queue hp g [] \<longrightarrow> g \<noteq> q \<longrightarrow> g \<noteq> r \<longrightarrow> is_queue hp2 g [])"
proof -
  obtain hp1 where h1: "queue_init hp q = Some hp1" "is_queue hp1 q []" "\<And>g ys. is_queue hp g ys \<Longrightarrow> q \<notin> set (g # ys) \<Longrightarrow> is_queue hp1 g ys"
    using q.init [OF assms(1), of hp] by blast
  obtain hp2 where h2: "queue_init hp1 r = Some hp2" "is_queue hp2 r []" "\<And>g ys. is_queue hp1 g ys \<Longrightarrow> r \<notin> set (g # ys) \<Longrightarrow> is_queue hp2 g ys"
    using q.init [OF assms(2), of hp1] by blast
  show ?thesis using h1 h2 h2(3) [of q "[]"] h1(3) [of _ "[]"] h2(3) [of _ "[]"] assms(3) by auto
qed

lemma thread_event_init_ok:
  assumes "distinct [eb_accq b, eb_evq b, eb_thread_accq b, eb_thread_evq b]"
    "nullptr \<notin> {eb_accq b, eb_evq b, eb_thread_accq b, eb_thread_evq b}"
    and "tm_sentinel s \<noteq> nullptr" "tm_sentinel s \<notin> range timer_node" "\<forall>ev. \<not> tm_set s ev" "0 \<le> tm_clock s" "tm_clock s < 2 ^ 63"
    and "layout C (s, b)"
  shows "\<exists>s' b'. thread_event_init ep lst (s, b) = Some (if ep = NGX_INVALID_FILE \<or> lst = nullptr then NGX_ERROR else NGX_OK, s', b') \<and>
    (ep \<noteq> NGX_INVALID_FILE \<and> lst \<noteq> nullptr \<longrightarrow> ready_loop C (s', b') \<and> posted b' [] [] \<and> deadline s' = Map.empty \<and>
      eb_time b' = eb_time b \<and> eb_has_update b' = eb_has_update b \<and> timer_t.more s' = timer_t.more s \<and>
      tm_calls s' = tm_calls s \<and> tm_clock s' = tm_clock s)"
proof (cases "ep = NGX_INVALID_FILE \<or> lst = nullptr")
  case True
  thus ?thesis by (auto simp: thread_event_init_def epoll_init_def Let_def)
next
  case False
  let ?b = "b\<lparr>eb_ep := ep, eb_event_list := lst, eb_event_flags := EVENT_USE_CLEAR_EVENT OR EVENT_USE_GREEDY_EVENT OR EVENT_USE_EPOLL_EVENT\<rparr>"
  obtain hp1 hp2 where h: "queue_init (eb_links b) (eb_accq b) = Some hp1" "queue_init hp1 (eb_evq b) = Some hp2"
    "is_queue hp2 (eb_accq b) []" "is_queue hp2 (eb_evq b) []"
    using init_two [of "eb_accq b" "eb_evq b" "eb_links b"] assms(1,2) by auto
  let ?b1 = "?b\<lparr>eb_links := hp2\<rparr>"
  have e1: "epoll_init ep lst b = Some (NGX_OK, ?b1)" using False h by (simp add: epoll_init_def)
  obtain s2 where s2: "event_timer_init s = Some (NGX_OK, s2)" "timer_inv s2" "deadline s2 = Map.empty" "same_rest s s2"
    using event_timer_init_ok [of s] assms(3-7) by auto
  have m: "timer_t.more s2 = timer_t.more s" using s2(1) by (auto simp: event_timer_init_def split: bind_splits)
  note f = more_fields [OF m]
  obtain hp3 hp4 where g: "queue_init hp2 (eb_thread_accq b) = Some hp3" "queue_init hp3 (eb_thread_evq b) = Some hp4"
    "is_queue hp4 (eb_accq b) []" "is_queue hp4 (eb_evq b) []"
    using init_two [of "eb_thread_accq b" "eb_thread_evq b" hp2] assms(1,2) h(3,4) by auto
  let ?b2 = "?b\<lparr>eb_links := hp4\<rparr>"
  have "thread_event_init ep lst (s, b) = Some (NGX_OK, s2, ?b2)" using e1 s2(1) g(1,2) by (simp add: thread_event_init_def)
  moreover have "ready_loop C (s2, ?b2)" using assms(8) f s2(2) by (simp add: layout_def ready_loop_def)
  moreover have "posted ?b2 [] []" using g(3,4) assms(1) by (simp add: posted_def rings_def)
  moreover have "tm_calls s2 = tm_calls s" using s2(4) by (simp add: same_rest_def)
  moreover have "tm_clock s2 = tm_clock s" using s2(1) by (auto simp: event_timer_init_def split: bind_splits)
  ultimately show ?thesis using False m s2(3) by (intro exI [of _ s2] exI [of _ ?b2]) simp
qed

text \<open>C12: initialisation establishes the invariant of the loop with empty queues and no timers, and returns an error when
  the descriptor or the event list cannot be had.\<close>

theorem thread_event_init_ready:
  assumes "distinct [eb_accq b, eb_evq b, eb_thread_accq b, eb_thread_evq b]"
    "nullptr \<notin> {eb_accq b, eb_evq b, eb_thread_accq b, eb_thread_evq b}"
    and "tm_sentinel s \<noteq> nullptr" "tm_sentinel s \<notin> range timer_node" "\<forall>ev. \<not> tm_set s ev" "0 \<le> tm_clock s" "tm_clock s < 2 ^ 63"
    and "layout C (s, b)"
  shows "\<exists>s' b'. thread_event_init ep lst (s, b) = Some (if ep = NGX_INVALID_FILE \<or> lst = nullptr then NGX_ERROR else NGX_OK, s', b') \<and>
    (ep \<noteq> NGX_INVALID_FILE \<and> lst \<noteq> nullptr \<longrightarrow> ready_loop C (s', b') \<and> posted b' [] [] \<and> deadline s' = Map.empty)"
  using thread_event_init_ok [OF assms, of ep lst] by blast

section \<open>A concrete loop\<close>

definition ex_loop :: loop_t where
  "ex_loop = \<lparr>tm_rbtree = \<lparr>rb_ch = \<lambda>_ _. 8, rb_parent = \<lambda>_. 0, rb_red = \<lambda>_. False, rb_key = \<lambda>_. 0, rb_root = 0, rb_sentinel = 0\<rparr>,
     tm_sentinel = 8, tm_set = \<lambda>ev. False, tm_out = \<lambda>_. False, tm_clock = 7, tm_calls = [],
     lp_conn = \<lambda>_. ex_conn\<lparr>c_read := ev_zero\<lparr>ev_active := True, ev_handler := True, ev_instance := True\<rparr>\<rparr>,
     lp_read = \<lambda>_. 3000, lp_write = \<lambda>_. 4000, lp_data = \<lambda>_. 2000, lp_accepted = \<lambda>_. False\<rparr>"

definition ex_base :: base_t where
  "ex_base = \<lparr>eb_links = \<lambda>_. \<lparr>prev = 0, next = 0\<rparr>, eb_accq = 10, eb_evq = 20, eb_time = cache0, eb_has_update = True, eb_wait = 0, eb_ep = -1,
     eb_event_flags = 0, eb_event_list = 0, eb_nevents = 512, eb_thread_accq = 30, eb_thread_evq = 40\<rparr>"

lemma ex_loop_facts:
  "distinct [eb_accq ex_base, eb_evq ex_base, eb_thread_accq ex_base, eb_thread_evq ex_base]"
  "nullptr \<notin> {eb_accq ex_base, eb_evq ex_base, eb_thread_accq ex_base, eb_thread_evq ex_base}"
  "tm_sentinel ex_loop \<noteq> nullptr" "tm_sentinel ex_loop \<notin> range timer_node" "\<forall>ev. \<not> tm_set ex_loop ev"
  "0 \<le> tm_clock ex_loop" "tm_clock ex_loop < 2 ^ 63" "layout {2000} (ex_loop, ex_base)" "eb_time ex_base = cache0" "eb_has_update ex_base"
  by (auto simp: layout_def ex_loop_def ex_base_def post_queue_def EV_POST_def timer_node_def EV_TIMER_def)

theorem thread_event_init_ready_witness:
  "\<exists>s b. thread_event_init 5 9000 (ex_loop, ex_base) = Some (NGX_OK, s, b) \<and> ready_loop {2000} (s, b) \<and> posted b [] []"
  using thread_event_init_ready [OF ex_loop_facts(1-8), of 5 9000] by (auto simp: NGX_INVALID_FILE_def)

text \<open>A readable event is reported, and its handler closes the connection; no timer is set.\<close>

lemma closing_well_behaved: "well_behaved now (\<lambda>_. True) (\<lambda>ev s. event_conn_close (lp_data s ev) s)"
  using event_conn_close_ok by (fastforce simp: well_behaved_def)


theorem stale_event_dropped_witness:
  "process_event (\<lambda>ev s. event_conn_close (lp_data s ev) s) False (2001, 1) (upd_conn 2000 (\<lambda>k. foldl reopen k [6]) ex_loop, ex_base) =
     Some (upd_conn 2000 (\<lambda>k. foldl reopen k [6]) ex_loop, ex_base)"
  using stale_event_dropped [of 2000 ex_loop "[6]" "(2001, 1)" 1] by (simp add: ex_loop_def ex_conn_def)

end
