(* ===== verification/Dfs_Hashtable.thy ===== *)
theory Dfs_Hashtable
  imports Dfs_Math Dfs_String
begin

text \<open>
  The hash table of \<^verbatim>\<open>src/src/core/dfs_hashtable.cpp\<close>: the three hash functions, creation, joining,
  lookup, removal and the two ways to free. The links of a table belong to its callers and are chained
  through their \<^verbatim>\<open>next\<close> field, so they live in a store from addresses to links; the table itself
  holds the heads of the chains. A key pointer is \<^term>\<open>None\<close> for null, or the bytes from the place
  it points to up to the end of their array. The interface of a hash and a comparison function is the
  locale \<open>hash_functions\<close>: under its laws a table behaves like the list of the joined links, newest first.
\<close>

unbundle bit_operations_syntax

section \<open>Types\<close>

type_synonym hkey = "u8 list option"
type_synonym hash_fun = "hkey \<Rightarrow> u64 \<Rightarrow> u64 \<Rightarrow> u64 option"
type_synonym cmp_fun = "hkey \<Rightarrow> hkey \<Rightarrow> u64 \<Rightarrow> int option"

record dfs_hashtable_link_t =
  hl_key :: hkey
  hl_len :: u64
  hl_next :: addr

type_synonym hstore = "addr \<rightharpoonup> dfs_hashtable_link_t"

text \<open>The table, without the field \<^verbatim>\<open>coll\<close>, which no code reads or writes.\<close>

record dfs_hashtable_t =
  ht_buckets :: "addr list"
  ht_cmp :: cmp_fun
  ht_hash :: hash_fun
  ht_allocator :: bool
  ht_size :: u64
  ht_count :: int

definition DFS_HASHTABLE_DEFAULT_SIZE :: u64 where "DFS_HASHTABLE_DEFAULT_SIZE = 7951"
definition DFS_HASHTABLE_OK :: int where "DFS_HASHTABLE_OK = 0"
definition DFS_HASHTABLE_ERROR :: int where "DFS_HASHTABLE_ERROR = -1"
definition DFS_HASHTABLE_FALSE :: int where "DFS_HASHTABLE_FALSE = 0"
definition DFS_HASHTABLE_TRUE :: int where "DFS_HASHTABLE_TRUE = 1"

section \<open>The hash functions\<close>

text \<open>The remainder of the division by the table size; a division by zero has no result.\<close>

definition bucket_index :: "u64 \<Rightarrow> u64 \<Rightarrow> u64 option" where
  "bucket_index h hashtable_size = (if hashtable_size = 0 then None else Some (h mod hashtable_size))"

text \<open>The bytes behind a key pointer; a null pointer has none to read.\<close>

definition key_bytes :: "hkey \<Rightarrow> u8 list" where
  "key_bytes data = (case data of None \<Rightarrow> [] | Some bs \<Rightarrow> bs)"

text \<open>\<^verbatim>\<open>DFS_HASH4\<close>: the character is signed and is widened with its sign.\<close>

definition DFS_HASH4 :: "u8 list \<Rightarrow> u64 \<times> nat \<Rightarrow> (u64 \<times> nat) option" where
  "DFS_HASH4 data s =
     (case s of (x, key) \<Rightarrow>
        do { c \<leftarrow> rd data key; Some (push_bit 5 x + x + scast c, key + 1) })"

fun hash4_loop :: "u8 list \<Rightarrow> nat \<Rightarrow> u64 \<times> nat \<Rightarrow> (u64 \<times> nat) option" where
  "hash4_loop data 0 s = Some s"
| "hash4_loop data (Suc loop) s =
     do { s \<leftarrow> DFS_HASH4 data s; s \<leftarrow> DFS_HASH4 data s; s \<leftarrow> DFS_HASH4 data s; s \<leftarrow> DFS_HASH4 data s;
          s \<leftarrow> DFS_HASH4 data s; s \<leftarrow> DFS_HASH4 data s; s \<leftarrow> DFS_HASH4 data s; s \<leftarrow> DFS_HASH4 data s;
          hash4_loop data loop s }"

definition dfs_hashtable_hash_hash4 :: hash_fun where
  "dfs_hashtable_hash_hash4 data data_size hashtable_size =
     do { let loop = unat (drop_bit 3 data_size);
          let bytes = key_bytes data;
          s \<leftarrow> (if data_size AND (8 - 1) \<noteq> 0 then DFS_HASH4 bytes (0, 0) else Some (0, 0));
          s \<leftarrow> hash4_loop bytes loop s;
          bucket_index (fst s) hashtable_size }"

text \<open>\<^verbatim>\<open>*((uint64_t *)s)\<close> on a little-endian machine.\<close>

definition load64 :: "u8 list \<Rightarrow> nat \<Rightarrow> u64 option" where
  "load64 bytes s = do { bs \<leftarrow> rdn bytes s 8; Some (foldr (\<lambda>b x. push_bit 8 x OR ucast b) bs 0) }"

fun key8_loop :: "u8 list \<Rightarrow> u64 \<Rightarrow> nat \<Rightarrow> nat \<Rightarrow> nat \<Rightarrow> u64 \<Rightarrow> u64 option" where
  "key8_loop bytes bnum loop i 0 n = Some n"
| "key8_loop bytes bnum loop i (Suc k) n =
     do { one \<leftarrow> load64 bytes (8 * i);
          let one = (if bnum \<noteq> 0 \<and> i = loop - 1 then drop_bit (unat bnum * 8) one else one);
          key8_loop bytes bnum loop (i + 1) k (n XOR (271 * one)) }"

definition dfs_hashtable_hash_key8 :: hash_fun where
  "dfs_hashtable_hash_key8 data data_size hashtable_size =
     do { let bnum = data_size mod 8;
          let loop = drop_bit 3 data_size + (if bnum \<noteq> 0 then 1 else 0);
          n \<leftarrow> key8_loop (key_bytes data) bnum (unat loop) 0 (unat loop) 0;
          bucket_index (n XOR (loop * 271)) hashtable_size }"

text \<open>The character is read before the length is tested.\<close>

fun hash_low_loop :: "u8 list \<Rightarrow> nat \<Rightarrow> u64 \<Rightarrow> u64 option" where
  "hash_low_loop [] k n = None"
| "hash_low_loop (c # s) 0 n = Some n"
| "hash_low_loop (c # s) (Suc k) n =
     (if c = 0 then Some n else hash_low_loop s k (n * 31 + ucast (string_xxctolower c)))"

definition dfs_hashtable_hash_low :: hash_fun where
  "dfs_hashtable_hash_low data data_size hashtable_size =
     do { n \<leftarrow> hash_low_loop (key_bytes data) (unat data_size) 0; bucket_index n hashtable_size }"

section \<open>Creation\<close>

text \<open>
  \<open>calloc allocator sz\<close> tells whether the zeroing allocation of \<open>sz\<close> bytes succeeds, from the
  allocator of the caller or from the heap. \<^verbatim>\<open>ht->size * sizeof(void *)\<close> is computed in 64 bits.
\<close>

definition dfs_hashtable_init ::
  "dfs_hashtable_t option \<Rightarrow> cmp_fun \<Rightarrow> u64 \<Rightarrow> hash_fun \<Rightarrow> bool \<Rightarrow> (bool \<Rightarrow> u64 \<Rightarrow> bool) \<Rightarrow>
   (int \<times> dfs_hashtable_t option) option" where
  "dfs_hashtable_init ht cmp_func hash_sz hash_func allocator calloc =
     (case ht of
        None \<Rightarrow> Some (DFS_HASHTABLE_ERROR, None)
      | Some ht \<Rightarrow>
          do { size \<leftarrow> (if hash_sz = 0 then Some DFS_HASHTABLE_DEFAULT_SIZE else dfs_math_find_prime hash_sz);
               let ht = ht\<lparr>ht_size := size, ht_allocator := allocator\<rparr>;
               if \<not> calloc allocator (size * 8)
               then Some (DFS_HASHTABLE_ERROR, Some (ht\<lparr>ht_buckets := []\<rparr>))
               else Some (DFS_HASHTABLE_OK,
                      Some (ht\<lparr>ht_buckets := replicate (unat (size * 8) div 8) nullptr,
                               ht_cmp := cmp_func, ht_hash := hash_func, ht_count := 0\<rparr>)) })"

text \<open>A zeroed table: its function pointers are null, and calling them has no result. Blocks that are
  given back are listed.\<close>

datatype hfreed = Buckets | Table

definition zero_table :: dfs_hashtable_t where
  "zero_table = \<lparr>ht_buckets = [], ht_cmp = (\<lambda>_ _ _. None), ht_hash = (\<lambda>_ _ _. None),
                 ht_allocator = False, ht_size = 0, ht_count = 0\<rparr>"

text \<open>With an allocator the table is written to before the result of the allocation is tested.\<close>

definition dfs_hashtable_create ::
  "cmp_fun \<Rightarrow> u64 \<Rightarrow> hash_fun \<Rightarrow> bool \<Rightarrow> u64 \<Rightarrow> (bool \<Rightarrow> u64 \<Rightarrow> bool) \<Rightarrow>
   (dfs_hashtable_t option \<times> hfreed list) option" where
  "dfs_hashtable_create cmp_func hash_sz hash_func allocator sizeof_ht calloc =
     do { let got = calloc allocator sizeof_ht;
          ht \<leftarrow> (if allocator
                then (if got then Some (Some (zero_table\<lparr>ht_allocator := allocator\<rparr>)) else None)
                else Some (if got then Some zero_table else None));
          case ht of
            None \<Rightarrow> Some (None, [])
          | Some ht \<Rightarrow>
              do { (rc, ht') \<leftarrow> dfs_hashtable_init (Some ht) cmp_func hash_sz hash_func allocator calloc;
                   if rc = DFS_HASHTABLE_OK then Some (ht', []) else Some (None, [Table]) } }"

section \<open>Joining, looking up and removing\<close>

definition dfs_hashtable_join ::
  "dfs_hashtable_t option \<Rightarrow> addr \<Rightarrow> hstore \<Rightarrow> (int \<times> dfs_hashtable_t option \<times> hstore) option" where
  "dfs_hashtable_join ht hl st =
     (case ht of
        None \<Rightarrow> Some (DFS_HASHTABLE_ERROR, ht, st)
      | Some t \<Rightarrow>
          if hl = nullptr then Some (DFS_HASHTABLE_ERROR, ht, st)
          else do { l \<leftarrow> st hl;
                    i \<leftarrow> ht_hash t (hl_key l) (hl_len l) (ht_size t);
                    b \<leftarrow> rd (ht_buckets t) (unat i);
                    count \<leftarrow> chk_int32 (ht_count t + 1);
                    Some (DFS_HASHTABLE_OK,
                          Some (t\<lparr>ht_buckets := (ht_buckets t)[unat i := hl], ht_count := count\<rparr>),
                          st(hl \<mapsto> l\<lparr>hl_next := b\<rparr>)) })"

text \<open>An assertion that fails ends the program: \<^term>\<open>None\<close>. So does a chain that is a cycle, for ever.\<close>

partial_function (option) lookup_loop :: "cmp_fun \<Rightarrow> hstore \<Rightarrow> hkey \<Rightarrow> u64 \<Rightarrow> addr \<Rightarrow> addr option" where
  "lookup_loop cmp st key len walker =
     (if walker = nullptr then Some nullptr
      else do { l \<leftarrow> st walker;
                if hl_key l = None then Some nullptr
                else do { d \<leftarrow> cmp key (hl_key l) len;
                          if d = 0 then Some walker
                          else if walker = hl_next l then None
                          else lookup_loop cmp st key len (hl_next l) } })"

definition dfs_hashtable_lookup :: "dfs_hashtable_t option \<Rightarrow> hkey \<Rightarrow> u64 \<Rightarrow> hstore \<Rightarrow> addr option" where
  "dfs_hashtable_lookup ht key len st =
     (case ht of
        None \<Rightarrow> Some nullptr
      | Some t \<Rightarrow>
          if key = None then Some nullptr
          else do { i \<leftarrow> ht_hash t key len (ht_size t);
                    walker \<leftarrow> rd (ht_buckets t) (unat i);
                    lookup_loop (ht_cmp t) st key len walker })"

text \<open>The pointer to a link pointer that the removal moves along: a bucket or the \<^verbatim>\<open>next\<close> field of a link.\<close>

datatype link_slot = Bucket nat | Next addr

definition slot_get :: "dfs_hashtable_t \<Rightarrow> hstore \<Rightarrow> link_slot \<Rightarrow> addr option" where
  "slot_get t st link =
     (case link of Bucket i \<Rightarrow> rd (ht_buckets t) i | Next a \<Rightarrow> map_option hl_next (st a))"

definition slot_set ::
  "dfs_hashtable_t \<Rightarrow> hstore \<Rightarrow> link_slot \<Rightarrow> addr \<Rightarrow> dfs_hashtable_t \<times> hstore" where
  "slot_set t st link v =
     (case link of
        Bucket i \<Rightarrow> (t\<lparr>ht_buckets := (ht_buckets t)[i := v]\<rparr>, st)
      | Next a \<Rightarrow> (t, st(a := map_option (\<lambda>l. l\<lparr>hl_next := v\<rparr>) (st a))))"

partial_function (option) remove_loop ::
  "dfs_hashtable_t \<Rightarrow> hstore \<Rightarrow> addr \<Rightarrow> link_slot \<Rightarrow> (int \<times> dfs_hashtable_t \<times> hstore) option" where
  "remove_loop t st hl link =
     do { a \<leftarrow> slot_get t st link;
          if a = nullptr then Some (DFS_HASHTABLE_ERROR, t, st)
          else if a = hl
          then do { l \<leftarrow> st hl;
                    let (t', st') = slot_set t st link (hl_next l);
                    count \<leftarrow> chk_int32 (ht_count t - 1);
                    Some (DFS_HASHTABLE_OK, t'\<lparr>ht_count := count\<rparr>, st') }
          else remove_loop t st hl (Next a) }"

text \<open>The bucket number is narrowed to an \<^verbatim>\<open>int\<close> before it is used as an index.\<close>

definition dfs_hashtable_remove_link ::
  "dfs_hashtable_t option \<Rightarrow> addr \<Rightarrow> hstore \<Rightarrow> (int \<times> dfs_hashtable_t option \<times> hstore) option" where
  "dfs_hashtable_remove_link ht hl st =
     (case ht of
        None \<Rightarrow> Some (DFS_HASHTABLE_ERROR, ht, st)
      | Some t \<Rightarrow>
          if hl = nullptr then Some (DFS_HASHTABLE_ERROR, ht, st)
          else do { l \<leftarrow> st hl;
                    h \<leftarrow> ht_hash t (hl_key l) (hl_len l) (ht_size t);
                    let i = to_int32 (uint h);
                    if i < 0 then None
                    else do { (rc, t', st') \<leftarrow> remove_loop t st hl (Bucket (nat i));
                              Some (rc, Some t', st') } })"

definition dfs_hashtable_get_bucket :: "dfs_hashtable_t \<Rightarrow> u32 \<Rightarrow> addr option" where
  "dfs_hashtable_get_bucket ht bucket =
     (if ucast bucket \<ge> ht_size ht then Some nullptr else rd (ht_buckets ht) (unat bucket))"

section \<open>Freeing\<close>

definition dfs_hashtable_free_memory :: "dfs_hashtable_t option \<Rightarrow> hfreed list" where
  "dfs_hashtable_free_memory ht =
     (case ht of
        None \<Rightarrow> []
      | Some t \<Rightarrow> (if ht_buckets t \<noteq> [] then [Buckets] else []) @ [Table])"

text \<open>\<open>free_object_func\<close> is the function of the caller, on the store of the links.\<close>

partial_function (option) free_chain ::
  "(addr \<Rightarrow> hstore \<Rightarrow> hstore) \<Rightarrow> addr \<Rightarrow> int \<Rightarrow> hstore \<Rightarrow> (int \<times> hstore) option" where
  "free_chain free_object_func walker cnt st =
     (if walker = nullptr then Some (cnt, st)
      else do { l \<leftarrow> st walker;
                cnt \<leftarrow> chk_int32 (cnt - 1);
                free_chain free_object_func (hl_next l) cnt (free_object_func walker st) })"

fun free_buckets ::
  "(addr \<Rightarrow> hstore \<Rightarrow> hstore) \<Rightarrow> addr list \<Rightarrow> int \<Rightarrow> hstore \<Rightarrow> (int \<times> hstore) option" where
  "free_buckets free_object_func [] cnt st = Some (cnt, st)"
| "free_buckets free_object_func (b # bs) cnt st =
     do { (cnt, st) \<leftarrow> free_chain free_object_func b cnt st;
          free_buckets free_object_func bs cnt st }"

definition dfs_hashtable_free_items ::
  "dfs_hashtable_t option \<Rightarrow> (addr \<Rightarrow> hstore \<Rightarrow> hstore) option \<Rightarrow> hstore \<Rightarrow>
   (dfs_hashtable_t option \<times> hstore) option" where
  "dfs_hashtable_free_items ht free_object_func st =
     (case (ht, free_object_func) of
        (Some t, Some f) \<Rightarrow>
          if unat (ht_size t) \<le> length (ht_buckets t)
          then do { (cnt, st) \<leftarrow> free_buckets f (take (unat (ht_size t)) (ht_buckets t)) (ht_count t) st;
                    Some (Some (t\<lparr>ht_count := cnt\<rparr>), st) }
          else None
      | _ \<Rightarrow> Some (ht, st))"

definition dfs_hashtable_empty :: "dfs_hashtable_t option \<Rightarrow> int" where
  "dfs_hashtable_empty ht =
     (case ht of
        None \<Rightarrow> DFS_HASHTABLE_TRUE
      | Some t \<Rightarrow> if ht_count t \<noteq> 0 then DFS_HASHTABLE_FALSE else DFS_HASHTABLE_TRUE)"

section \<open>The specification: the list of joined links, newest first\<close>

text \<open>The keys and lengths of the links, which no operation changes.\<close>

definition link_keys :: "hstore \<Rightarrow> addr \<Rightarrow> (hkey \<times> u64) option" where
  "link_keys st a = map_option (\<lambda>l. (hl_key l, hl_len l)) (st a)"

definition key_ok :: "(hkey \<Rightarrow> u64 \<Rightarrow> bool) \<Rightarrow> (addr \<Rightarrow> (hkey \<times> u64) option) \<Rightarrow> addr \<Rightarrow> bool" where
  "key_ok okk K a = (case K a of Some (k, n) \<Rightarrow> okk k n | None \<Rightarrow> False)"

definition key_matches ::
  "cmp_fun \<Rightarrow> (addr \<Rightarrow> (hkey \<times> u64) option) \<Rightarrow> hkey \<Rightarrow> u64 \<Rightarrow> addr \<Rightarrow> bool" where
  "key_matches cmp K key len a = (case K a of Some (k, _) \<Rightarrow> cmp key k len = Some 0 | None \<Rightarrow> False)"

datatype hop = Join addr | Remove addr | Lookup hkey u64
datatype hout = Code int | Found addr

text \<open>What a call answers and leaves, on the list.\<close>

definition hop_spec ::
  "cmp_fun \<Rightarrow> (addr \<Rightarrow> (hkey \<times> u64) option) \<Rightarrow> hop \<Rightarrow> addr list \<Rightarrow> hout \<times> addr list" where
  "hop_spec cmp K op L =
     (case op of
        Join a \<Rightarrow> if a = nullptr then (Code DFS_HASHTABLE_ERROR, L) else (Code DFS_HASHTABLE_OK, a # L)
      | Remove a \<Rightarrow> if a \<in> set L then (Code DFS_HASHTABLE_OK, remove1 a L) else (Code DFS_HASHTABLE_ERROR, L)
      | Lookup key len \<Rightarrow>
          (Found (if key = None then nullptr
                  else case find (key_matches cmp K key len) L of None \<Rightarrow> nullptr | Some a \<Rightarrow> a), L))"

text \<open>What a caller has to ensure: a link is joined once, has a proper key, and the count fits an \<^verbatim>\<open>int\<close>; only a link
  that is in the table is removed (the comment of \<^verbatim>\<open>dfs_hashtable_remove_link\<close> promises an assertion otherwise; the code returns an
  error, see \<open>remove_missing_rel\<close>).\<close>

definition hop_pre ::
  "(hkey \<Rightarrow> u64 \<Rightarrow> bool) \<Rightarrow> (addr \<Rightarrow> (hkey \<times> u64) option) \<Rightarrow> addr list \<Rightarrow> hop \<Rightarrow> bool" where
  "hop_pre okk K L op =
     (case op of
        Join a \<Rightarrow> a = nullptr \<or> key_ok okk K a \<and> a \<notin> set L \<and> length L < 2 ^ 31 - 1
      | Remove a \<Rightarrow> a = nullptr \<or> a \<in> set L
      | Lookup key len \<Rightarrow> key = None \<or> okk key len)"

definition hop_step ::
  "hop \<Rightarrow> dfs_hashtable_t \<times> hstore \<Rightarrow> (hout \<times> dfs_hashtable_t \<times> hstore) option" where
  "hop_step op s =
     (case s of (t, st) \<Rightarrow>
        (case op of
           Join a \<Rightarrow> do { (rc, ht, st') \<leftarrow> dfs_hashtable_join (Some t) a st; t' \<leftarrow> ht; Some (Code rc, t', st') }
         | Remove a \<Rightarrow>
             do { (rc, ht, st') \<leftarrow> dfs_hashtable_remove_link (Some t) a st; t' \<leftarrow> ht; Some (Code rc, t', st') }
         | Lookup key len \<Rightarrow>
             do { a \<leftarrow> dfs_hashtable_lookup (Some t) key len st; Some (Found a, t, st) }))"

fun hop_run :: "hop list \<Rightarrow> dfs_hashtable_t \<times> hstore \<Rightarrow> (hout list \<times> dfs_hashtable_t \<times> hstore) option" where
  "hop_run [] s = Some ([], s)"
| "hop_run (op # ops) s =
     do { (out, s) \<leftarrow> hop_step op s; (outs, s) \<leftarrow> hop_run ops s; Some (out # outs, s) }"

fun hop_spec_run ::
  "cmp_fun \<Rightarrow> (addr \<Rightarrow> (hkey \<times> u64) option) \<Rightarrow> hop list \<Rightarrow> addr list \<Rightarrow> hout list \<times> addr list" where
  "hop_spec_run cmp K [] L = ([], L)"
| "hop_spec_run cmp K (op # ops) L =
     (case hop_spec cmp K op L of (out, L') \<Rightarrow>
        (case hop_spec_run cmp K ops L' of (outs, L'') \<Rightarrow> (out # outs, L'')))"

fun hop_pre_run ::
  "cmp_fun \<Rightarrow> (hkey \<Rightarrow> u64 \<Rightarrow> bool) \<Rightarrow> (addr \<Rightarrow> (hkey \<times> u64) option) \<Rightarrow> addr list \<Rightarrow> hop list \<Rightarrow> bool" where
  "hop_pre_run cmp okk K L [] = True"
| "hop_pre_run cmp okk K L (op # ops) =
     (hop_pre okk K L op \<and> hop_pre_run cmp okk K (snd (hop_spec cmp K op L)) ops)"

section \<open>Chains in the store\<close>

primrec chain :: "hstore \<Rightarrow> addr \<Rightarrow> addr list \<Rightarrow> bool" where
  "chain st a [] = (a = nullptr)"
| "chain st a (x # xs) = (a = x \<and> a \<noteq> nullptr \<and> (\<exists>l. st a = Some l \<and> chain st (hl_next l) xs))"

lemma chain_upd [simp]: "x \<notin> set xs \<Longrightarrow> chain (st(x := v)) a xs = chain st a xs"
  by (induction xs arbitrary: a) auto

lemma chain_nonnull: "chain st a xs \<Longrightarrow> nullptr \<notin> set xs"
  by (induction xs arbitrary: a) auto

lemma chain_alloc: "chain st a xs \<Longrightarrow> x \<in> set xs \<Longrightarrow> \<exists>l. st x = Some l"
  by (induction xs arbitrary: a) auto

lemma link_keys_next [simp]:
  "st a = Some l \<Longrightarrow> link_keys (st(a \<mapsto> l\<lparr>hl_next := v\<rparr>)) = link_keys st"
  by (auto simp: link_keys_def fun_eq_iff)

lemma link_keys_Some: "link_keys st a = Some (k, n) \<longleftrightarrow> (\<exists>l. st a = Some l \<and> hl_key l = k \<and> hl_len l = n)"
  by (auto simp: link_keys_def)

lemma chain_unlink:
  "chain st a (ps @ x # qs) \<Longrightarrow> distinct (ps @ x # qs) \<Longrightarrow> ps \<noteq> [] \<Longrightarrow> st x = Some lx \<Longrightarrow>
   st (last ps) = Some ll \<Longrightarrow> chain (st(last ps \<mapsto> ll\<lparr>hl_next := hl_next lx\<rparr>)) a (ps @ qs)"
proof (induction ps arbitrary: a)
  case (Cons p ps)
  show ?case
  proof (cases "ps = []")
    case True
    thus ?thesis using Cons.prems by (auto simp del: fun_upd_apply simp: fun_upd_same)
  next
    case False
    hence "p \<noteq> last ps" using Cons.prems(2) by (auto dest: last_in_set)
    thus ?thesis using False Cons by (auto simp del: fun_upd_apply simp: fun_upd_other)
  qed
qed simp

text \<open>The removal stops at the slot that points to the link: the bucket, or the predecessor's \<^verbatim>\<open>next\<close>.\<close>

lemma remove_loop_found:
  assumes "slot_get t st link = Some a" "chain st a (ps @ hl # qs)" "hl \<notin> set ps"
    and "st hl = Some l" "chk_int32 (ht_count t - 1) = Some c"
  shows "remove_loop t st hl link =
           (let (t', st') = slot_set t st (if ps = [] then link else Next (last ps)) (hl_next l)
            in Some (DFS_HASHTABLE_OK, t'\<lparr>ht_count := c\<rparr>, st'))"
  using assms(1-3)
proof (induction ps arbitrary: a link)
  case Nil
  thus ?case using assms(4,5) by (subst remove_loop.simps) (auto simp: Let_def split: prod.splits)
next
  case (Cons p ps)
  then obtain lp where lp: "a = p" "p \<noteq> 0" "p \<noteq> hl" "st p = Some lp" "chain st (hl_next lp) (ps @ hl # qs)"
    by auto
  have "remove_loop t st hl (Next p) =
          (let (t', st') = slot_set t st (if ps = [] then Next p else Next (last ps)) (hl_next l)
           in Some (DFS_HASHTABLE_OK, t'\<lparr>ht_count := c\<rparr>, st'))"
    using Cons lp by (intro Cons.IH [of "Next p" "hl_next lp"]) (auto simp: slot_get_def)
  thus ?case using Cons.prems lp by (subst remove_loop.simps) (cases "ps = []"; simp)
qed

lemma remove_loop_missing:
  "slot_get t st link = Some a \<Longrightarrow> chain st a xs \<Longrightarrow> hl \<notin> set xs \<Longrightarrow>
   remove_loop t st hl link = Some (DFS_HASHTABLE_ERROR, t, st)"
proof (induction xs arbitrary: a link)
  case Nil
  thus ?case by (subst remove_loop.simps) auto
next
  case (Cons x xs)
  then obtain l where "a = x" "x \<noteq> 0" "x \<noteq> hl" "st x = Some l" "chain st (hl_next l) xs" by auto
  moreover from this have "remove_loop t st hl (Next x) = Some (DFS_HASHTABLE_ERROR, t, st)"
    using Cons by (intro Cons.IH [of "Next x" "hl_next l"]) (auto simp: slot_get_def)
  ultimately show ?case using Cons.prems by (subst remove_loop.simps) auto
qed

section \<open>The table represents the list\<close>

lemma index_int: "h < (sz :: u64) \<Longrightarrow> unat sz < 2 ^ 31 \<Longrightarrow> to_int32 (uint h) = int (unat h)"
proof -
  have small: "to_int32 (int m) = int m" if "m < 2 ^ 31" for m :: nat
    using that by (intro to_int32_id) simp_all
  assume "h < sz" "unat sz < 2 ^ 31"
  thus ?thesis using small [of "unat h"] by (simp add: word_less_nat_alt)
qed

definition link_bucket :: "hash_fun \<Rightarrow> u64 \<Rightarrow> (addr \<Rightarrow> (hkey \<times> u64) option) \<Rightarrow> addr \<Rightarrow> nat" where
  "link_bucket hash sz K a = (case K a of Some (k, n) \<Rightarrow> unat (the (hash k n sz)) | None \<Rightarrow> 0)"

text \<open>Bucket \<open>i\<close> chains the links of the list whose key hashes to \<open>i\<close>, in the order of the list.\<close>

definition ht_rel ::
  "hash_fun \<Rightarrow> cmp_fun \<Rightarrow> (hkey \<Rightarrow> u64 \<Rightarrow> bool) \<Rightarrow> dfs_hashtable_t \<Rightarrow> hstore \<Rightarrow> addr list \<Rightarrow> bool" where
  "ht_rel hash cmp okk t st L \<longleftrightarrow>
     ht_hash t = hash \<and> ht_cmp t = cmp \<and> 0 < ht_size t \<and> unat (ht_size t) < 2 ^ 31 \<and>
     length (ht_buckets t) = unat (ht_size t) \<and> distinct L \<and> nullptr \<notin> set L \<and>
     (\<forall>a\<in>set L. key_ok okk (link_keys st) a) \<and>
     ht_count t = int (length L) \<and> length L < 2 ^ 31 \<and>
     (\<forall>i<length (ht_buckets t). chain st (ht_buckets t ! i)
        (filter (\<lambda>a. link_bucket hash (ht_size t) (link_keys st) a = i) L))"

text \<open>
  The contract of a hash and a comparison function on the keys \<open>okk\<close>: both return, the hash lies in
  the table, and keys that compare equal have the same hash. The comparison is given one length only.
\<close>

locale hash_functions =
  fixes hash :: hash_fun and cmp :: cmp_fun and okk :: "hkey \<Rightarrow> u64 \<Rightarrow> bool"
  assumes hash_defined: "okk k n \<Longrightarrow> 0 < sz \<Longrightarrow> \<exists>h. hash k n sz = Some h \<and> h < sz"
    and cmp_defined: "okk k n \<Longrightarrow> okk k' n' \<Longrightarrow> \<exists>d. cmp k k' n = Some d"
    and cmp_hash: "okk k n \<Longrightarrow> okk k' n' \<Longrightarrow> cmp k k' n = Some 0 \<Longrightarrow> hash k n sz = hash k' n' sz"
    and key_nonnull: "okk k n \<Longrightarrow> k \<noteq> None"
begin

abbreviation rel where "rel \<equiv> ht_rel hash cmp okk"

lemma link_of_key:
  assumes "key_ok okk (link_keys st) a" "0 < sz"
  obtains l h where "st a = Some l" "okk (hl_key l) (hl_len l)" "hash (hl_key l) (hl_len l) sz = Some h"
    "h < sz" "link_bucket hash sz (link_keys st) a = unat h"
proof -
  obtain l where l: "st a = Some l" "okk (hl_key l) (hl_len l)"
    using assms(1) by (auto simp: key_ok_def link_keys_def split: option.splits)
  then obtain h where "hash (hl_key l) (hl_len l) sz = Some h" "h < sz"
    using hash_defined assms(2) by blast
  thus thesis using l by (intro that [of l h]) (auto simp: link_bucket_def link_keys_def)
qed

lemma join_rel:
  assumes "rel t st L" "a \<noteq> nullptr" "key_ok okk (link_keys st) a" "a \<notin> set L" "length L < 2 ^ 31 - 1"
  shows "\<exists>t' st'. dfs_hashtable_join (Some t) a st = Some (DFS_HASHTABLE_OK, Some t', st') \<and>
                  rel t' st' (a # L) \<and> link_keys st' = link_keys st"
proof -
  have r: "ht_hash t = hash" "0 < ht_size t" "length (ht_buckets t) = unat (ht_size t)"
    "ht_count t = int (length L)"
    and ch: "\<And>i. i < length (ht_buckets t) \<Longrightarrow> chain st (ht_buckets t ! i)
        (filter (\<lambda>a. link_bucket hash (ht_size t) (link_keys st) a = i) L)"
    using assms(1) by (simp_all add: ht_rel_def)
  obtain l h where l: "st a = Some l" "hash (hl_key l) (hl_len l) (ht_size t) = Some h" "h < ht_size t"
    "link_bucket hash (ht_size t) (link_keys st) a = unat h"
    using link_of_key [OF assms(3) r(2)] by metis
  define st' where "st' = st(a \<mapsto> l\<lparr>hl_next := ht_buckets t ! unat h\<rparr>)"
  define t' where "t' = t\<lparr>ht_buckets := (ht_buckets t)[unat h := a], ht_count := int (length L) + 1\<rparr>"
  have h: "unat h < length (ht_buckets t)" using l(3) r(3) by (simp add: word_less_nat_alt)
  have k: "link_keys st' = link_keys st" using l(1) by (simp add: st'_def)
  have "dfs_hashtable_join (Some t) a st = Some (DFS_HASHTABLE_OK, Some t', st')"
    using assms(2,5) l h r by (simp add: dfs_hashtable_join_def chk_int32_def t'_def st'_def)
  moreover have "chain st' (ht_buckets t' ! i)
      (filter (\<lambda>a. link_bucket hash (ht_size t) (link_keys st) a = i) (a # L))"
    if "i < length (ht_buckets t)" for i
    using ch [OF that] assms(2,4) l(1,4) h
    by (cases "i = unat h") (auto simp: t'_def st'_def simp del: fun_upd_apply simp: fun_upd_same)
  ultimately show ?thesis using assms k
    by (intro exI [of _ t'] exI [of _ st']) (auto simp: ht_rel_def t'_def)
qed

lemma remove_missing_rel:
  assumes "rel t st L" "a \<noteq> nullptr" "key_ok okk (link_keys st) a" "a \<notin> set L"
  shows "dfs_hashtable_remove_link (Some t) a st = Some (DFS_HASHTABLE_ERROR, Some t, st)"
proof -
  have r: "ht_hash t = hash" "0 < ht_size t" "length (ht_buckets t) = unat (ht_size t)"
    "unat (ht_size t) < 2 ^ 31"
    and ch: "\<And>i. i < length (ht_buckets t) \<Longrightarrow> chain st (ht_buckets t ! i)
        (filter (\<lambda>a. link_bucket hash (ht_size t) (link_keys st) a = i) L)"
    using assms(1) by (simp_all add: ht_rel_def)
  obtain l h where l: "st a = Some l" "hash (hl_key l) (hl_len l) (ht_size t) = Some h" "h < ht_size t"
    using link_of_key [OF assms(3) r(2)] by metis
  have h: "unat h < length (ht_buckets t)" "to_int32 (uint h) = int (unat h)"
    using l(3) r(3,4) by (simp_all add: word_less_nat_alt index_int [OF l(3)])
  have "remove_loop t st a (Bucket (unat h)) = Some (DFS_HASHTABLE_ERROR, t, st)"
    using assms(4) h(1) by (intro remove_loop_missing [OF _ ch [OF h(1)]]) (auto simp: slot_get_def)
  thus ?thesis
    using l h assms(2) r by (simp add: dfs_hashtable_remove_link_def Let_def)
qed

lemma rel_remove1:
  assumes "rel t st L" "ht_hash t' = hash" "ht_cmp t' = ht_cmp t" "ht_size t' = ht_size t"
    and "length (ht_buckets t') = length (ht_buckets t)" "link_keys st' = link_keys st"
    and "ht_count t' = int (length (remove1 a L))"
    and "\<forall>i<length (ht_buckets t). chain st' (ht_buckets t' ! i)
           (filter (\<lambda>a. link_bucket hash (ht_size t) (link_keys st) a = i) (remove1 a L))"
  shows "rel t' st' (remove1 a L)"
proof -
  have "length (remove1 a L) \<le> length L" by (simp add: length_remove1)
  thus ?thesis using assms set_remove1_subset [of a L] unfolding ht_rel_def by (simp add: subset_iff)
qed

lemma remove_found_rel:
  assumes "rel t st L" "a \<in> set L"
  shows "\<exists>t' st'. dfs_hashtable_remove_link (Some t) a st = Some (DFS_HASHTABLE_OK, Some t', st') \<and>
                  rel t' st' (remove1 a L) \<and> link_keys st' = link_keys st"
proof -
  let ?B = "link_bucket hash (ht_size t) (link_keys st)"
  have r: "ht_hash t = hash" "0 < ht_size t" "length (ht_buckets t) = unat (ht_size t)"
    "unat (ht_size t) < 2 ^ 31" "ht_count t = int (length L)" "length L < 2 ^ 31" "distinct L"
    and ch: "\<And>i. i < length (ht_buckets t) \<Longrightarrow> chain st (ht_buckets t ! i) (filter (\<lambda>a. ?B a = i) L)"
    and ok: "key_ok okk (link_keys st) a" "a \<noteq> nullptr"
    using assms by (auto simp: ht_rel_def intro!: gr0I)
  obtain l h where l: "st a = Some l" "hash (hl_key l) (hl_len l) (ht_size t) = Some h" "h < ht_size t"
    "?B a = unat h"
    using link_of_key [OF ok(1) r(2)] by metis
  have h: "unat h < length (ht_buckets t)" "to_int32 (uint h) = int (unat h)"
    using l(3) r(3,4) by (simp_all add: word_less_nat_alt index_int [OF l(3)])
  obtain ps qs where pq: "filter (\<lambda>a. ?B a = unat h) L = ps @ a # qs" "a \<notin> set ps"
    using split_list_first [of a "filter (\<lambda>a. ?B a = unat h) L"] assms(2) l(4) by auto
  have d: "distinct (ps @ a # qs)" using pq(1) r(7) by (metis distinct_filter)
  have bs: "\<And>p. p \<in> set ps \<Longrightarrow> ?B p = unat h" 
    using arg_cong [OF pq(1), of set] by auto
  note c0 = ch [OF h(1), unfolded pq(1)]
  define slot where "slot = (if ps = [] then Bucket (unat h) else Next (last ps))"
  obtain t1 st' where s: "slot_set t st slot (hl_next l) = (t1, st')" by fastforce
  let ?t = "t1\<lparr>ht_count := int (length L) - 1\<rparr>"
  have len: "0 < length L" using assms(2) by (cases L) auto
  have "remove_loop t st a (Bucket (unat h)) = Some (DFS_HASHTABLE_OK, ?t, st')"
    using remove_loop_found [OF _ c0 pq(2) l(1), of t "Bucket (unat h)" "int (length L) - 1"] h(1) s r(5,6) len
    by (simp add: slot_get_def slot_def chk_int32_def)
  hence run: "dfs_hashtable_remove_link (Some t) a st = Some (DFS_HASHTABLE_OK, Some ?t, st')"
    using l h ok(2) r by (simp add: dfs_hashtable_remove_link_def Let_def)
  have new: "link_keys st' = link_keys st \<and> ht_hash t1 = hash \<and> ht_cmp t1 = ht_cmp t \<and> ht_size t1 = ht_size t \<and>
     length (ht_buckets t1) = length (ht_buckets t) \<and>
     (\<forall>i<length (ht_buckets t). chain st' (ht_buckets t1 ! i) (remove1 a (filter (\<lambda>a. ?B a = i) L)))"
  proof (cases "ps = []")
    case True
    have "remove1 a (filter (\<lambda>a. ?B a = i) L) = filter (\<lambda>a. ?B a = i) L" if "i \<noteq> unat h" for i
      using that l(4) by (simp add: remove1_idem)
    thus ?thesis using True s r(1) ch c0 pq(1) l(1) h(1)
      by (auto simp: slot_set_def slot_def nth_list_update)
  next
    case False
    then obtain ll where ll: "st (last ps) = Some ll" using chain_alloc [OF c0, of "last ps"] by auto
    have st': "t1 = t" "st' = st(last ps \<mapsto> ll\<lparr>hl_next := hl_next l\<rparr>)"
      using s False ll by (auto simp: slot_set_def slot_def)
    have "chain st' (ht_buckets t ! i) (remove1 a (filter (\<lambda>a. ?B a = i) L))"
      if i: "i < length (ht_buckets t)" for i
    proof (cases "i = unat h")
      case True
      thus ?thesis using chain_unlink [OF c0 d False l(1) ll] pq by (simp add: st' remove1_append)
    next
      case ne: False
      moreover have "?B (last ps) = unat h" using False bs by simp
      ultimately show ?thesis using ch [OF i] l(4) by (simp add: st' remove1_idem del: fun_upd_apply)
    qed
    thus ?thesis using st' ll r(1) by simp
  qed
  moreover have "length (remove1 a L) = length L - 1" using assms(2) by (simp add: length_remove1)
  hence "int (length L) - 1 = int (length (remove1 a L))" using len by linarith
  hence "ht_count ?t = int (length (remove1 a L))" by simp
  ultimately have "rel ?t st' (remove1 a L)"
    by (intro rel_remove1 [OF assms(1)]) (simp_all add: filter_remove1)
  thus ?thesis using run new by blast
qed

lemma lookup_loop_find:
  assumes "chain st a xs" "distinct xs" "okk key len" "\<And>x. x \<in> set xs \<Longrightarrow> key_ok okk (link_keys st) x"
  shows "lookup_loop cmp st key len a =
           Some (case find (key_matches cmp (link_keys st) key len) xs of None \<Rightarrow> nullptr | Some x \<Rightarrow> x)"
  using assms(1,2,4)
proof (induction xs arbitrary: a)
  case Nil
  thus ?case by (subst lookup_loop.simps) simp
next
  case (Cons x xs)
  then obtain l where l: "a = x" "x \<noteq> 0" "st x = Some l" "chain st (hl_next l) xs" by auto
  have ok: "okk (hl_key l) (hl_len l)" using Cons.prems(3) [of x] l(3) by (simp add: key_ok_def link_keys_def)
  then obtain d where d: "cmp key (hl_key l) len = Some d" using cmp_defined assms(3) by blast
  have ne: "x \<noteq> hl_next l" using l(2,4) Cons.prems(2) by (cases xs) auto
  have m: "key_matches cmp (link_keys st) key len x \<longleftrightarrow> d = 0"
    using l(3) d by (simp add: key_matches_def link_keys_def)
  show ?case
    using l ok d ne m key_nonnull [OF ok] Cons.IH [OF l(4)] Cons.prems by (subst lookup_loop.simps) auto
qed

lemma find_filter: "(\<And>x. x \<in> set xs \<Longrightarrow> P x \<Longrightarrow> Q x) \<Longrightarrow> find P (filter Q xs) = find P xs"
  by (induction xs) auto

lemma lookup_rel:
  assumes "rel t st L" "okk key len"
  shows "dfs_hashtable_lookup (Some t) key len st =
           Some (case find (key_matches cmp (link_keys st) key len) L of None \<Rightarrow> nullptr | Some x \<Rightarrow> x)"
proof -
  let ?B = "link_bucket hash (ht_size t) (link_keys st)"
  have r: "ht_hash t = hash" "ht_cmp t = cmp" "0 < ht_size t" "length (ht_buckets t) = unat (ht_size t)" "distinct L"
    and ch: "\<And>i. i < length (ht_buckets t) \<Longrightarrow> chain st (ht_buckets t ! i) (filter (\<lambda>a. ?B a = i) L)"
    and okL: "\<And>a. a \<in> set L \<Longrightarrow> key_ok okk (link_keys st) a"
    using assms by (auto simp: ht_rel_def)
  obtain h where h: "hash key len (ht_size t) = Some h" "h < ht_size t" using hash_defined assms(2) r(3) by blast
  hence i: "unat h < length (ht_buckets t)" using r(4) by (simp add: word_less_nat_alt)
  have "?B x = unat h" if x: "x \<in> set L" "key_matches cmp (link_keys st) key len x" for x
  proof -
    obtain l g where l: "st x = Some l" "okk (hl_key l) (hl_len l)"
      "hash (hl_key l) (hl_len l) (ht_size t) = Some g" "?B x = unat g"
      by (rule link_of_key [OF okL [OF x(1)] r(3)])
    hence "cmp key (hl_key l) len = Some 0" using x(2) by (simp add: key_matches_def link_keys_def)
    thus ?thesis using cmp_hash [OF assms(2) l(2), of "ht_size t"] h(1) l(3,4) by simp
  qed
  hence "find (key_matches cmp (link_keys st) key len) (filter (\<lambda>a. ?B a = unat h) L) =
         find (key_matches cmp (link_keys st) key len) L" by (intro find_filter) auto
  moreover obtain bs where "key = Some bs" using key_nonnull assms(2) by blast
  ultimately show ?thesis
    using lookup_loop_find [OF ch [OF i] _ assms(2)] okL r h i by (simp add: dfs_hashtable_lookup_def)
qed

lemma step_rel:
  assumes "rel t st L" "hop_pre okk (link_keys st) L op"
  shows "\<exists>t' st'. hop_step op (t, st) = Some (fst (hop_spec cmp (link_keys st) op L), t', st') \<and>
                  rel t' st' (snd (hop_spec cmp (link_keys st) op L)) \<and> link_keys st' = link_keys st"
proof (cases op)
  case (Join a)
  show ?thesis
  proof (cases "a = nullptr")
    case True
    thus ?thesis using Join assms by (simp add: hop_step_def hop_spec_def dfs_hashtable_join_def)
  next
    case False
    thus ?thesis using Join assms join_rel [OF assms(1) False]
      by (auto simp: hop_step_def hop_spec_def hop_pre_def)
  qed
next
  case (Remove a)
  show ?thesis
  proof (cases "a \<in> set L")
    case True
    thus ?thesis using Remove remove_found_rel [OF assms(1) True] by (auto simp: hop_step_def hop_spec_def)
  next
    case False
    hence "dfs_hashtable_remove_link (Some t) a st = Some (DFS_HASHTABLE_ERROR, Some t, st)"
      using Remove assms(2) by (auto simp: hop_pre_def dfs_hashtable_remove_link_def)
    thus ?thesis using Remove False assms(1) by (simp add: hop_step_def hop_spec_def)
  qed
next
  case (Lookup key len)
  show ?thesis
  proof (cases "key = None")
    case True
    thus ?thesis using Lookup assms by (simp add: hop_step_def hop_spec_def dfs_hashtable_lookup_def)
  next
    case False
    thus ?thesis using Lookup assms lookup_rel [OF assms(1), of key len]
      by (auto simp: hop_step_def hop_spec_def hop_pre_def)
  qed
qed

lemma run_rel:
  "rel t st L \<Longrightarrow> hop_pre_run cmp okk (link_keys st) L ops \<Longrightarrow>
   \<exists>t' st'. hop_run ops (t, st) = Some (fst (hop_spec_run cmp (link_keys st) ops L), t', st') \<and>
            rel t' st' (snd (hop_spec_run cmp (link_keys st) ops L)) \<and> link_keys st' = link_keys st"
proof (induction ops arbitrary: t st L)
  case (Cons op ops)
  obtain out L1 where o: "hop_spec cmp (link_keys st) op L = (out, L1)" by fastforce
  obtain t1 st1 where s: "hop_step op (t, st) = Some (out, t1, st1)" "rel t1 st1 L1" "link_keys st1 = link_keys st"
    using step_rel [OF Cons.prems(1), of op] Cons.prems(2) o by auto
  show ?case using Cons.IH [OF s(2)] Cons.prems(2) s o by (auto split: prod.splits)
qed auto

end

lemma free_chain_frees:
  "chain st a xs \<Longrightarrow> distinct xs \<Longrightarrow> int (length xs) \<le> c \<Longrightarrow> c < 2 ^ 31 \<Longrightarrow>
   free_chain (\<lambda>x s. s(x := None)) a c st = Some (c - int (length xs), fold (\<lambda>x s. s(x := None)) xs st)"
proof (induction xs arbitrary: a c st)
  case Nil
  thus ?case by (subst free_chain.simps) simp
next
  case (Cons x xs)
  then obtain l where l: "a = x" "x \<noteq> 0" "st x = Some l" "chain st (hl_next l) xs" by auto
  have "free_chain (\<lambda>x s. s(x := None)) (hl_next l) (c - 1) (st(x := None)) =
          Some (c - 1 - int (length xs), fold (\<lambda>x s. s(x := None)) xs (st(x := None)))"
    using Cons.prems l by (intro Cons.IH) (simp_all del: fun_upd_apply)
  thus ?case using Cons.prems l by (subst free_chain.simps) (simp add: chk_int32_def)
qed

lemma chain_fold_upd: "set ys \<inter> set xs = {} \<Longrightarrow> chain (fold (\<lambda>x s. s(x := None)) ys st) a xs = chain st a xs"
  by (induction ys arbitrary: st) auto

lemma free_buckets_frees:
  "list_all2 (chain st) bs xss \<Longrightarrow> distinct (concat xss) \<Longrightarrow> int (length (concat xss)) \<le> c \<Longrightarrow> c < 2 ^ 31 \<Longrightarrow>
   free_buckets (\<lambda>x s. s(x := None)) bs c st =
     Some (c - int (length (concat xss)), fold (\<lambda>x s. s(x := None)) (concat xss) st)"
proof (induction bs arbitrary: xss c st)
  case (Cons b bs)
  then obtain xs yss where x: "xss = xs # yss" "chain st b xs" "list_all2 (chain st) bs yss"
    by (auto simp: list_all2_Cons1)
  have "list_all2 (chain (fold (\<lambda>x s. s(x := None)) xs st)) bs yss"
    using x(3)
  proof (rule list.rel_mono_strong)
    fix c ys
    assume "ys \<in> set yss" "chain st c ys"
    moreover from this have "set xs \<inter> set ys = {}" using Cons.prems(2) x(1) by auto
    ultimately show "chain (fold (\<lambda>x s. s(x := None)) xs st) c ys" by (simp add: chain_fold_upd)
  qed
  moreover have "free_chain (\<lambda>x s. s(x := None)) b c st = Some (c - int (length xs), fold (\<lambda>x s. s(x := None)) xs st)"
    using Cons.prems x by (intro free_chain_frees) auto
  ultimately show ?case using Cons.prems x(1) Cons.IH [of "fold (\<lambda>x s. s(x := None)) xs st" yss "c - int (length xs)"]
    by (simp add: algebra_simps del: fun_upd_apply)
qed simp

lemma fold_free: "fold (\<lambda>x s. s(x := None)) xs st a = (if a \<in> set xs then None else st a)"
  by (induction xs arbitrary: st) auto

lemma distinct_buckets: "distinct L \<Longrightarrow> distinct (concat (map (\<lambda>i. filter (\<lambda>a. B a = i) L) [0..<n]))"
  by (induction n) auto

lemma length_distinct_set: "distinct xs \<Longrightarrow> distinct ys \<Longrightarrow> set xs = set ys \<Longrightarrow> length xs = length ys"
  by (metis distinct_card)

context hash_functions
begin

lemma free_items_rel:
  assumes "rel t st L"
  shows "dfs_hashtable_free_items (Some t) (Some (\<lambda>a s. s(a := None))) st =
           Some (Some (t\<lparr>ht_count := 0\<rparr>), \<lambda>a. if a \<in> set L then None else st a)"
proof -
  let ?B = "link_bucket hash (ht_size t) (link_keys st)"
  let ?xss = "map (\<lambda>i. filter (\<lambda>a. ?B a = i) L) [0..<length (ht_buckets t)]"
  have r: "0 < ht_size t" "length (ht_buckets t) = unat (ht_size t)" "distinct L"
    "ht_count t = int (length L)" "length L < 2 ^ 31"
    and ch: "list_all2 (chain st) (ht_buckets t) ?xss"
    and okL: "\<And>a. a \<in> set L \<Longrightarrow> key_ok okk (link_keys st) a"
    using assms by (auto simp: ht_rel_def list_all2_conv_all_nth)
  have B: "?B a < length (ht_buckets t)" if "a \<in> set L" for a
    by (rule link_of_key [OF okL [OF that] r(1)]) (simp add: r(2) word_less_nat_alt)
  have s: "set (concat ?xss) = set L" using B by auto
  have d: "distinct (concat ?xss)" by (rule distinct_buckets [OF r(3)])
  have len: "length (concat ?xss) = length L" by (rule length_distinct_set [OF d r(3) s])
  have "free_buckets (\<lambda>a s. s(a := None)) (ht_buckets t) (int (length L)) st =
          Some (0, fold (\<lambda>a s. s(a := None)) (concat ?xss) st)"
    using free_buckets_frees [OF ch d, of "int (length L)"] len r(5) by (simp del: length_concat)
  moreover have "fold (\<lambda>a s. s(a := None)) (concat ?xss) st = (\<lambda>a. if a \<in> set L then None else st a)"
    using s by (simp add: fun_eq_iff fold_free)
  ultimately show ?thesis using r by (simp add: dfs_hashtable_free_items_def)
qed

lemma freed_lookup:
  assumes "rel t st L" "a \<in> set L" "link_keys st a = Some (k, n)"
  shows "dfs_hashtable_lookup (Some (t\<lparr>ht_count := 0\<rparr>)) k n (\<lambda>a. if a \<in> set L then None else st a) = None"
proof -
  let ?B = "link_bucket hash (ht_size t) (link_keys st)"
  have r: "ht_hash t = hash" "0 < ht_size t" "length (ht_buckets t) = unat (ht_size t)"
    and ch: "\<And>i. i < length (ht_buckets t) \<Longrightarrow> chain st (ht_buckets t ! i) (filter (\<lambda>a. ?B a = i) L)"
    and ok: "key_ok okk (link_keys st) a"
    using assms by (auto simp: ht_rel_def)
  obtain l h where l: "st a = Some l" "okk (hl_key l) (hl_len l)"
    "hash (hl_key l) (hl_len l) (ht_size t) = Some h" "h < ht_size t" "?B a = unat h"
    by (rule link_of_key [OF ok r(2)])
  hence kn: "k = hl_key l" "n = hl_len l" using assms(3) by (simp_all add: link_keys_def)
  have i: "unat h < length (ht_buckets t)" using l(4) r(3) by (simp add: word_less_nat_alt)
  obtain x xs where x: "filter (\<lambda>a. ?B a = unat h) L = x # xs"
    using assms(2) l(5) by (metis (mono_tags, lifting) filter_empty_conv neq_Nil_conv)
  hence "ht_buckets t ! unat h = x" "x \<noteq> 0" using ch [OF i] by auto
  moreover have "x \<in> set L" using arg_cong [OF x, of set] by auto
  moreover obtain bs where "hl_key l = Some bs" using key_nonnull l(2) by blast
  ultimately show ?thesis
    using l kn i r by (simp add: dfs_hashtable_lookup_def) (subst lookup_loop.simps, simp)
qed

end

section \<open>What the hash functions read\<close>

text \<open>The polynomial of the first \<open>k\<close> bytes, and how many bytes \<^verbatim>\<open>hash4\<close> takes: of an incomplete
  group of eight only one.\<close>

definition hash4_poly :: "u8 list \<Rightarrow> u64" where
  "hash4_poly bs = fold (\<lambda>c x. 33 * x + scast c) bs 0"

definition hash4_count :: "u64 \<Rightarrow> nat" where
  "hash4_count n = 8 * (unat n div 8) + (if unat n mod 8 = 0 then 0 else 1)"

lemma push_bit_5: "push_bit 5 (x :: u64) + x = 33 * x"
  by (simp add: push_bit_eq_mult algebra_simps)

lemma DFS_HASH4_poly:
  "k < length bs \<Longrightarrow> DFS_HASH4 bs (hash4_poly (take k bs), k) = Some (hash4_poly (take (Suc k) bs), Suc k)"
  by (simp add: DFS_HASH4_def hash4_poly_def take_Suc_conv_app_nth push_bit_5)

lemma hash4_loop_poly:
  "k + 8 * loop \<le> length bs \<Longrightarrow>
   hash4_loop bs loop (hash4_poly (take k bs), k) = Some (hash4_poly (take (k + 8 * loop) bs), k + 8 * loop)"
proof (induction loop arbitrary: k)
  case (Suc loop)
  have "hash4_loop bs loop (hash4_poly (take (k + 8) bs), k + 8) =
          Some (hash4_poly (take (k + 8 + 8 * loop) bs), k + 8 + 8 * loop)"
    using Suc.prems by (intro Suc.IH) simp
  note ih = this
  have e: "Suc (Suc (Suc (Suc (Suc (Suc (Suc (Suc k))))))) = k + 8" by simp
  show ?case using Suc.prems ih by (simp add: DFS_HASH4_poly e add.assoc)
qed simp

lemma unat_shift3: "unat (drop_bit 3 (n :: u64)) = unat n div 8"
  by (simp add: drop_bit_eq_div unat_div_distrib)

lemma and_7: "(n :: u64) AND 7 = 0 \<longleftrightarrow> unat n mod 8 = 0"
proof -
  have "n AND 7 = take_bit 3 n" by (simp add: take_bit_eq_mask mask_eq_exp_minus_1)
  moreover have "unat (take_bit 3 n) = unat n mod 8" by (simp add: take_bit_eq_mod unat_mod_distrib)
  ultimately show ?thesis by (metis unat_eq_zero)
qed

lemma hash4_count_le: "hash4_count n \<le> unat n"
  by (simp add: hash4_count_def) presburger

lemma hash4_value:
  assumes "unat n \<le> length bs"
  shows "dfs_hashtable_hash_hash4 (Some bs) n sz = bucket_index (hash4_poly (take (hash4_count n) bs)) sz"
proof -
  have "hash4_poly (take 0 bs) = 0" by (simp add: hash4_poly_def)
  moreover have "0 < length bs" if "unat n mod 8 \<noteq> 0" using that assms by (cases bs) auto
  ultimately show ?thesis
    using assms hash4_count_le [of n] hash4_loop_poly [of 0 "unat n div 8" bs]
      hash4_loop_poly [of 1 "unat n div 8" bs] DFS_HASH4_poly [of 0 bs]
    by (cases "unat n mod 8 = 0")
      (auto simp: dfs_hashtable_hash_hash4_def unat_shift3 and_7 key_bytes_def hash4_count_def)
qed

lemma key8_loop_prefix:
  "i + k \<le> m \<Longrightarrow> 8 * m \<le> length bs \<Longrightarrow> 8 * m \<le> length bs' \<Longrightarrow> take (8 * m) bs = take (8 * m) bs' \<Longrightarrow>
   key8_loop bs bnum loop i k n = key8_loop bs' bnum loop i k n \<and> (\<exists>r. key8_loop bs bnum loop i k n = Some r)"
proof (induction k arbitrary: i n)
  case (Suc k)
  have "take 8 (drop (8 * i) bs) = take 8 (drop (8 * i) bs')"
    using Suc.prems(1) arg_cong [OF Suc.prems(4), of "\<lambda>xs. take 8 (drop (8 * i) xs)"]
    by (simp add: take_drop min_def)
  hence "load64 bs (8 * i) = load64 bs' (8 * i)" "\<exists>one. load64 bs (8 * i) = Some one"
    using Suc.prems(1-3) by (auto simp: load64_def)
  then obtain one where "load64 bs (8 * i) = Some one" "load64 bs' (8 * i) = Some one" by auto
  moreover have "key8_loop bs bnum loop (i + 1) k m = key8_loop bs' bnum loop (i + 1) k m"
    "\<exists>r. key8_loop bs' bnum loop (i + 1) k m = Some r" for m
    using Suc.IH [of "i + 1" m] Suc.prems by (simp, metis add_Suc_shift Suc_eq_plus1)
  ultimately show ?case by (simp add: Let_def)
qed simp

lemma key8_value:
  assumes "unat n mod 8 = 0" "unat n \<le> length bs" "unat n \<le> length bs'" "take (unat n) bs = take (unat n) bs'"
  shows "dfs_hashtable_hash_key8 (Some bs) n sz = dfs_hashtable_hash_key8 (Some bs') n sz \<and>
         (\<exists>r. dfs_hashtable_hash_key8 (Some bs) n sz = bucket_index r sz)"
proof -
  have "n mod 8 = 0" using assms(1) unat_mod_distrib [of n 8] by (simp add: unat_eq_zero)
  moreover have "8 * (unat n div 8) = unat n" using assms(1) by auto
  moreover from this obtain r where
    "key8_loop bs 0 (unat n div 8) 0 (unat n div 8) 0 = Some r"
    "key8_loop bs' 0 (unat n div 8) 0 (unat n div 8) 0 = Some r"
    using key8_loop_prefix [of 0 "unat n div 8" "unat n div 8" bs bs' 0 "unat n div 8" 0] assms(2-4) by (metis add_0 order_refl)
  ultimately show ?thesis by (auto simp: dfs_hashtable_hash_key8_def Let_def unat_shift3 key_bytes_def)
qed

text \<open>A key whose size is no multiple of eight is read beyond its end.\<close>

lemma key8_loop_reads:
  "i + k = loop \<Longrightarrow> 0 < k \<Longrightarrow> length bs < 8 * loop \<Longrightarrow> key8_loop bs bnum loop i k n = None"
proof (induction k arbitrary: i n)
  case (Suc k)
  show ?case
  proof (cases k)
    case 0
    hence "load64 bs (8 * i) = None" using Suc.prems by (auto simp: load64_def rdn_def)
    thus ?thesis by simp
  next
    case (Suc k')
    have "key8_loop bs bnum loop (i + 1) k m = None" for m
      using Suc.IH [of "i + 1"] Suc.prems Suc by simp
    thus ?thesis by (simp add: Let_def split: bind_splits)
  qed
qed simp

section \<open>The hash functions of the table with the comparisons of the library\<close>

text \<open>\<^verbatim>\<open>memcmp\<close> and \<^verbatim>\<open>string_xxstrncasecmp\<close> as comparison functions of a table.\<close>

definition key_memcmp :: cmp_fun where
  "key_memcmp k k' n =
     do { xs \<leftarrow> rdn (key_bytes k) 0 (unat n); ys \<leftarrow> rdn (key_bytes k') 0 (unat n); Some (memcmp xs ys) }"

definition key_strncasecmp :: cmp_fun where
  "key_strncasecmp k k' n = string_xxstrncasecmp (key_bytes k) (key_bytes k') (unat n)"

text \<open>Keys of one size \<open>w\<close>; keys of a size \<open>w\<close> that is a multiple of eight; strings whose length counts the
  terminating zero.\<close>

definition sized_key :: "u64 \<Rightarrow> hkey \<Rightarrow> u64 \<Rightarrow> bool" where
  "sized_key w k n \<longleftrightarrow> n = w \<and> (\<exists>bs. k = Some bs \<and> unat w \<le> length bs)"

definition word_key :: "u64 \<Rightarrow> hkey \<Rightarrow> u64 \<Rightarrow> bool" where
  "word_key w k n \<longleftrightarrow> unat w mod 8 = 0 \<and> sized_key w k n"

definition string_key :: "hkey \<Rightarrow> u64 \<Rightarrow> bool" where
  "string_key k n \<longleftrightarrow> (\<exists>bs. k = Some bs \<and> 0 \<in> set bs \<and> unat n = length (cstr bs) + 1)"

lemma bucket_index_range: "0 < sz \<Longrightarrow> \<exists>h. bucket_index x sz = Some h \<and> h < sz"
  by (auto simp: bucket_index_def word_mod_less_divisor)

lemma key_memcmp_sized:
  "unat n \<le> length bs \<Longrightarrow> unat n \<le> length bs' \<Longrightarrow>
   \<exists>d. key_memcmp (Some bs) (Some bs') n = Some d \<and> (d = 0 \<longleftrightarrow> take (unat n) bs = take (unat n) bs')"
  by (simp add: key_memcmp_def key_bytes_def memcmp_eq_0)

lemma sized_keys_equal:
  assumes "sized_key w k n" "sized_key w k' n'" "key_memcmp k k' n = Some 0"
  obtains bs bs' where "n = w" "n' = w" "k = Some bs" "k' = Some bs'" "unat w \<le> length bs"
    "unat w \<le> length bs'" "take (unat w) bs = take (unat w) bs'"
proof -
  obtain bs bs' where b: "n = w" "n' = w" "k = Some bs" "k' = Some bs'" "unat w \<le> length bs" "unat w \<le> length bs'"
    using assms(1,2) by (auto simp: sized_key_def)
  thus thesis using key_memcmp_sized [of n bs bs'] assms(3) by (intro that [of bs bs']) auto
qed

lemma sized_keys_compared: "sized_key w k n \<Longrightarrow> sized_key w k' n' \<Longrightarrow> \<exists>d. key_memcmp k k' n = Some d"
  using key_memcmp_sized unfolding sized_key_def by blast

interpretation sized: hash_functions dfs_hashtable_hash_hash4 key_memcmp "sized_key w" for w
proof unfold_locales
  fix k n k' n' sz
  assume "sized_key w k n" "sized_key w k' n'" "key_memcmp k k' n = Some 0"
  then obtain bs bs' where b: "n = w" "n' = w" "k = Some bs" "k' = Some bs'" "unat w \<le> length bs"
    "unat w \<le> length bs'" "take (unat w) bs = take (unat w) bs'" by (rule sized_keys_equal)
  hence "take (hash4_count w) bs = take (hash4_count w) bs'"
    using hash4_count_le [of w] by (metis min.absorb1 take_take)
  thus "dfs_hashtable_hash_hash4 k n sz = dfs_hashtable_hash_hash4 k' n' sz" using b by (simp add: hash4_value)
qed (use bucket_index_range sized_keys_compared in \<open>auto simp: sized_key_def hash4_value\<close>)

interpretation words: hash_functions dfs_hashtable_hash_key8 key_memcmp "word_key w" for w
proof unfold_locales
  fix k n k' n' sz
  assume "word_key w k n" "word_key w k' n'" "key_memcmp k k' n = Some 0"
  moreover from this obtain bs bs' where "n = w" "n' = w" "k = Some bs" "k' = Some bs'" "unat w \<le> length bs"
    "unat w \<le> length bs'" "take (unat w) bs = take (unat w) bs'"
    unfolding word_key_def by (metis sized_keys_equal)
  ultimately show "dfs_hashtable_hash_key8 k n sz = dfs_hashtable_hash_key8 k' n' sz"
    using key8_value [of w bs bs' sz] by (simp add: word_key_def)
next
  fix k n and sz :: u64
  assume k: "word_key w k n" and sz: "0 < sz"
  then obtain bs where "k = Some bs" "n = w" "unat w \<le> length bs" "unat w mod 8 = 0"
    by (auto simp: word_key_def sized_key_def)
  thus "\<exists>h. dfs_hashtable_hash_key8 k n sz = Some h \<and> h < sz"
    using key8_value [of w bs bs sz] bucket_index_range [OF sz] by fastforce
next
  fix k n k' n'
  assume "word_key w k n" "word_key w k' n'"
  thus "\<exists>d. key_memcmp k k' n = Some d" using sized_keys_compared unfolding word_key_def by blast
qed (auto simp: word_key_def sized_key_def)

lemma hash_low_loop_fold:
  "0 \<in> set bs \<Longrightarrow> hash_low_loop bs k n =
     Some (fold (\<lambda>c x. x * 31 + ucast c) (map string_xxctolower (take k (cstr bs))) n)"
  by (induction bs k n rule: hash_low_loop.induct) auto

lemma strncasecmp_cstr:
  "0 \<in> set s1 \<Longrightarrow> 0 \<in> set s2 \<Longrightarrow>
   \<exists>d. string_xxstrncasecmp s1 s2 n = Some d \<and>
       (d = 0 \<longrightarrow> length (cstr s1) < n \<longrightarrow> map string_xxctolower (cstr s1) = map string_xxctolower (cstr s2))"
proof (induction s1 s2 n rule: string_xxstrncasecmp.induct)
  case (2 a s1 b s2 n)
  show ?case
  proof (cases "string_xxctolower a = string_xxctolower b")
    case True
    hence "a = 0 \<longleftrightarrow> b = 0" by (metis ctolower_0)
    thus ?thesis using True 2 by (cases "a = 0") auto
  next
    case False
    thus ?thesis by (simp add: uint_diff Let_def)
  qed
qed auto

lemma string_keys_equal:
  assumes "string_key k n" "string_key k' n'" "key_strncasecmp k k' n = Some 0"
  obtains bs bs' where "k = Some bs" "k' = Some bs'" "0 \<in> set bs" "0 \<in> set bs'"
    "unat n = length (cstr bs) + 1" "unat n' = length (cstr bs') + 1"
    "map string_xxctolower (cstr bs) = map string_xxctolower (cstr bs')"
proof -
  obtain bs bs' where b: "k = Some bs" "k' = Some bs'" "0 \<in> set bs" "0 \<in> set bs'"
    "unat n = length (cstr bs) + 1" "unat n' = length (cstr bs') + 1"
    using assms(1,2) by (auto simp: string_key_def)
  thus thesis using strncasecmp_cstr [OF b(3,4), of "unat n"] assms(3)
    by (intro that [of bs bs']) (auto simp: key_strncasecmp_def key_bytes_def)
qed

interpretation strings: hash_functions dfs_hashtable_hash_low key_strncasecmp string_key
proof unfold_locales
  fix k n k' n' sz
  assume "string_key k n" "string_key k' n'" "key_strncasecmp k k' n = Some 0"
  then obtain bs bs' where b: "k = Some bs" "k' = Some bs'" "0 \<in> set bs" "0 \<in> set bs'"
    "unat n = length (cstr bs) + 1" "unat n' = length (cstr bs') + 1"
    "map string_xxctolower (cstr bs) = map string_xxctolower (cstr bs')"
    by (rule string_keys_equal)
  thus "dfs_hashtable_hash_low k n sz = dfs_hashtable_hash_low k' n' sz"
    by (simp add: dfs_hashtable_hash_low_def key_bytes_def hash_low_loop_fold)
next
  fix k n and sz :: u64
  assume "string_key k n" "0 < sz"
  thus "\<exists>h. dfs_hashtable_hash_low k n sz = Some h \<and> h < sz"
    using bucket_index_range
    by (auto simp: string_key_def dfs_hashtable_hash_low_def key_bytes_def hash_low_loop_fold)
next
  fix k n k' n'
  assume "string_key k n" "string_key k' n'"
  thus "\<exists>d. key_strncasecmp k k' n = Some d"
    using strncasecmp_cstr by (fastforce simp: string_key_def key_strncasecmp_def key_bytes_def)
qed (auto simp: string_key_def)

section \<open>A new table\<close>

lemma find_prime_pos:
  assumes "dfs_math_find_prime x = Some q"
  shows "0 < q"
proof (rule dfs_math_find_prime.raw_induct [where P = "\<lambda>x q. 0 < q", OF _ assms])
  fix find :: "u64 \<Rightarrow> u64 option" and x q
  assume ih: "\<And>x q. find x = Some q \<Longrightarrow> 0 < q"
    and q: "(case dfs_math_is_prime x of None \<Rightarrow> None
             | Some found \<Rightarrow> if found then Some x else find (x + 1)) = Some q"
  have "0 < x" if "dfs_math_is_prime x = Some True"
    using that order_le_less_trans [OF word_zero_le, of 1 x]
    by (auto simp: dfs_math_is_prime_def not_le split: if_splits)
  thus "0 < q" using ih q by (auto split: option.splits if_splits)
qed

lemma unat_times_8: "unat (sz :: u64) < 2 ^ 31 \<Longrightarrow> unat (sz * 8) div 8 = unat sz"
  by (subst unat_mult_lem [THEN iffD1]) simp_all

lemma create_rel:
  assumes "dfs_hashtable_create cmp hash_sz hash allocator sizeof_ht calloc = Some (Some t, freed)"
    and "unat (ht_size t) < 2 ^ 31"
  shows "ht_rel hash cmp okk t st []"
proof -
  obtain sz where sz: "0 < sz" "t = zero_table
      \<lparr>ht_size := sz, ht_allocator := allocator, ht_buckets := replicate (unat (sz * 8) div 8) nullptr,
       ht_cmp := cmp, ht_hash := hash, ht_count := 0\<rparr>"
    using assms(1) find_prime_pos [of hash_sz]
    by (auto simp: dfs_hashtable_create_def dfs_hashtable_init_def Let_def DFS_HASHTABLE_OK_def
        DFS_HASHTABLE_ERROR_def DFS_HASHTABLE_DEFAULT_SIZE_def zero_table_def
        split: if_splits bind_splits)
  thus ?thesis using assms(2) unat_times_8 [of sz] by (simp add: ht_rel_def)
qed

section \<open>Properties\<close>

text \<open>C13: A table that was created with fewer than \<open>2 ^ 31\<close> buckets answers every sequence of joins, lookups and removals as the list of
  the joined links would, the newest first: a lookup finds the newest link whose key compares equal, a
  removal takes exactly the given link out, a null link is refused, every call returns, and the
  table represents the list again. The hash and the comparison function obey the contract of
  \<open>hash_functions\<close>; the caller joins a link only once, removes only links that are in the table, and joins fewer than
  \<open>2 ^ 31\<close> of them.\<close>

theorem hashtable_run_refines:
  assumes "hash_functions hash cmp okk"
    and "dfs_hashtable_create cmp hash_sz hash allocator sizeof_ht calloc = Some (Some t, freed)"
    and "unat (ht_size t) < 2 ^ 31" "hop_pre_run cmp okk (link_keys st) [] ops"
  shows "\<exists>t' st'. hop_run ops (t, st) = Some (fst (hop_spec_run cmp (link_keys st) ops []), t', st') \<and>
                  ht_rel hash cmp okk t' st' (snd (hop_spec_run cmp (link_keys st) ops [])) \<and>
                  ht_count t' = int (length (snd (hop_spec_run cmp (link_keys st) ops [])))"
  using hash_functions.run_rel [OF assms(1) create_rel [OF assms(2,3)] assms(4)] by (auto simp: ht_rel_def)

text \<open>Two block ids with the same eight bytes: the newer link hides the older one until it is removed.\<close>

definition ex_link :: dfs_hashtable_link_t where
  "ex_link = \<lparr>hl_key = Some [1, 2, 3, 4, 5, 6, 7, 8], hl_len = 8, hl_next = 0\<rparr>"

lemma ex_create:
  "dfs_hashtable_create key_memcmp 0 dfs_hashtable_hash_key8 False 56 (\<lambda>_ _. True) =
     Some (Some (zero_table\<lparr>ht_size := 7951, ht_buckets := replicate 7951 nullptr,
       ht_cmp := key_memcmp, ht_hash := dfs_hashtable_hash_key8\<rparr>), [])"
  by (simp add: dfs_hashtable_create_def dfs_hashtable_init_def DFS_HASHTABLE_DEFAULT_SIZE_def Let_def
      zero_table_def DFS_HASHTABLE_OK_def)

theorem hashtable_run_refines_witness:
  "\<exists>t st'. hop_run
       [Join 1, Join 2, Lookup (Some [1, 2, 3, 4, 5, 6, 7, 8]) 8, Remove 2,
        Lookup (Some [1, 2, 3, 4, 5, 6, 7, 8]) 8, Remove nullptr]
       (zero_table\<lparr>ht_size := 7951, ht_buckets := replicate 7951 nullptr, ht_cmp := key_memcmp,
          ht_hash := dfs_hashtable_hash_key8\<rparr>, [1 \<mapsto> ex_link, 2 \<mapsto> ex_link]) =
     Some ([Code 0, Code 0, Found 2, Code 0, Found 1, Code (-1)], t, st') \<and> ht_count t = 1"
  using hashtable_run_refines [OF words.hash_functions_axioms [of 8] ex_create,
      of "[1 \<mapsto> ex_link, 2 \<mapsto> ex_link]"
         "[Join 1, Join 2, Lookup (Some [1, 2, 3, 4, 5, 6, 7, 8]) 8, Remove 2,
           Lookup (Some [1, 2, 3, 4, 5, 6, 7, 8]) 8, Remove nullptr]"]
  by (auto simp: hop_pre_def hop_spec_def key_ok_def link_keys_def ex_link_def word_key_def sized_key_def
      key_matches_def key_memcmp_def key_bytes_def DFS_HASHTABLE_OK_def DFS_HASHTABLE_ERROR_def rdn_def)

text \<open>C33: Freeing the items of a table frees every joined link, each once, and none else, and sets the count
  to zero, but leaves the buckets pointing to the freed links: a lookup of any key that was in the table
  then reads a freed link.\<close>

theorem free_items_leaves_dangling:
  assumes "hash_functions hash cmp okk" "ht_rel hash cmp okk t st L"
  shows "\<exists>t' st'. dfs_hashtable_free_items (Some t) (Some (\<lambda>a s. s(a := None))) st = Some (Some t', st') \<and>
           ht_count t' = 0 \<and> dfs_hashtable_empty (Some t') = DFS_HASHTABLE_TRUE \<and>
           (\<forall>a. st' a = (if a \<in> set L then None else st a)) \<and>
           (\<forall>a\<in>set L. \<forall>k n. link_keys st a = Some (k, n) \<longrightarrow> dfs_hashtable_lookup (Some t') k n st' = None)"
  using hash_functions.free_items_rel [OF assms] hash_functions.freed_lookup [OF assms]
  by (auto simp: dfs_hashtable_empty_def)

lemma ex_rel:
  "ht_rel dfs_hashtable_hash_hash4 key_memcmp (sized_key 1)
     \<lparr>ht_buckets = [5], ht_cmp = key_memcmp, ht_hash = dfs_hashtable_hash_hash4, ht_allocator = False,
      ht_size = 1, ht_count = 1\<rparr>
     [5 \<mapsto> \<lparr>hl_key = Some [7], hl_len = 1, hl_next = 0\<rparr>] [5]"
  by (simp add: ht_rel_def key_ok_def link_keys_def sized_key_def link_bucket_def hash4_value bucket_index_def)

theorem free_items_leaves_dangling_witness:
  "\<exists>t' st'. dfs_hashtable_free_items
       (Some \<lparr>ht_buckets = [5], ht_cmp = key_memcmp, ht_hash = dfs_hashtable_hash_hash4, ht_allocator = False,
              ht_size = 1, ht_count = 1\<rparr>)
       (Some (\<lambda>a s. s(a := None))) [5 \<mapsto> \<lparr>hl_key = Some [7], hl_len = 1, hl_next = 0\<rparr>] = Some (Some t', st') \<and>
     ht_count t' = 0 \<and> st' 5 = None \<and> dfs_hashtable_lookup (Some t') (Some [7]) 1 st' = None"
  using free_items_leaves_dangling [OF sized.hash_functions_axioms ex_rel] by (fastforce simp: link_keys_def)

lemma bit_load:
  "bit (foldr (\<lambda>b x. push_bit 8 x OR ucast b) (bs :: u8 list) (0 :: u64)) i \<longleftrightarrow>
     i < 64 \<and> i div 8 < length bs \<and> bit (bs ! (i div 8)) (i mod 8)"
proof (induction bs arbitrary: i)
  case (Cons b bs)
  show ?case
  proof (cases "i < 8")
    case True
    thus ?thesis by (simp add: bit_or_iff bit_push_bit_iff bit_ucast_iff)
  next
    case False
    hence "i div 8 = Suc ((i - 8) div 8)" "i mod 8 = (i - 8) mod 8" by (simp_all add: le_div_geq le_mod_geq)
    moreover have "\<not> bit b i" using False bit_imp_le_length [of b i] by auto
    ultimately show ?thesis using False Cons.IH [of "i - 8"]
      by (auto simp: bit_or_iff bit_push_bit_iff bit_ucast_iff)
  qed
qed simp

lemma load_drop:
  assumes "drop m bs = drop m bs'" "length bs = length bs'"
  shows "drop_bit (m * 8) (foldr (\<lambda>b x. push_bit 8 x OR ucast b) (bs :: u8 list) (0 :: u64)) =
         drop_bit (m * 8) (foldr (\<lambda>b x. push_bit 8 x OR ucast b) bs' 0)"
proof (rule bit_eqI)
  fix i
  have j: "(m * 8 + i) div 8 = m + i div 8" "(m * 8 + i) mod 8 = i mod 8" by simp_all
  have "bs ! (m + k) = bs' ! (m + k)" if "m + k < length bs" for k
    using that arg_cong [OF assms(1), of "\<lambda>xs. xs ! k"] assms(2) by simp
  thus "bit (drop_bit (m * 8) (foldr (\<lambda>b x. push_bit 8 x OR ucast b) bs (0 :: u64))) i =
        bit (drop_bit (m * 8) (foldr (\<lambda>b x. push_bit 8 x OR ucast b) bs' (0 :: u64))) i"
    using assms(2) by (auto simp: bit_drop_bit_eq bit_load j)
qed

lemma key8_partial:
  assumes "unat data_size mod 8 \<noteq> 0"
  shows "dfs_hashtable_hash_key8 (Some bs) data_size sz =
    (case key8_loop bs (data_size mod 8) (unat data_size div 8 + 1) 0 (unat data_size div 8 + 1) 0 of
       None \<Rightarrow> None | Some n \<Rightarrow> bucket_index (n XOR ((drop_bit 3 data_size + 1) * 271)) sz)"
proof -
  have "unat (data_size mod 8) \<noteq> 0" using assms by (simp add: unat_mod_distrib)
  hence m: "data_size mod 8 \<noteq> 0" by (metis unat_0)
  have "unat data_size < 2 ^ 64" by (rule order_less_le_trans [OF unsigned_less]) simp
  hence "unat data_size div 8 < 2 ^ 61" by (intro less_mult_imp_div_less) simp
  hence "unat (drop_bit 3 data_size + 1) = unat data_size div 8 + 1"
    by (subst unat_add_lem [THEN iffD1]) (simp_all add: unat_shift3)
  thus ?thesis
    using m by (simp add: dfs_hashtable_hash_key8_def Let_def key_bytes_def del: key8_loop.simps split: option.split)
qed

text \<open>C34: \<^verbatim>\<open>dfs_hashtable_hash_key8\<close> reads its key in groups of eight bytes: a key whose size is not a
  multiple of eight, in an array of just that size, is read beyond its end; and of the incomplete group the
  bytes of the key are shifted out and those behind it are kept, so that the hash of a key of less than eight
  bytes does not depend on the key at all, only on what follows it in memory.\<close>

theorem hash_key8_reads_past_key:
  assumes "unat data_size mod 8 \<noteq> 0"
  shows "(\<forall>bs. length bs = unat data_size \<longrightarrow>
            dfs_hashtable_hash_key8 (Some bs) data_size hashtable_size = None) \<and>
         (\<forall>bs bs'. unat data_size < 8 \<and> length bs = 8 \<and> length bs' = 8 \<and>
            drop (unat data_size) bs = drop (unat data_size) bs' \<longrightarrow>
            dfs_hashtable_hash_key8 (Some bs) data_size hashtable_size =
            dfs_hashtable_hash_key8 (Some bs') data_size hashtable_size)"
proof (intro conjI allI impI)
  fix bs :: "u8 list"
  assume "length bs = unat data_size"
  moreover have "unat data_size < 8 * (unat data_size div 8 + 1)" by presburger
  ultimately show "dfs_hashtable_hash_key8 (Some bs) data_size hashtable_size = None"
    using key8_loop_reads [of 0 "unat data_size div 8 + 1" "unat data_size div 8 + 1" bs]
    by (simp add: key8_partial [OF assms] del: key8_loop.simps)
next
  fix bs bs' :: "u8 list"
  assume s: "unat data_size < 8 \<and> length bs = 8 \<and> length bs' = 8 \<and>
             drop (unat data_size) bs = drop (unat data_size) bs'"
  hence m: "unat (data_size mod 8) = unat data_size" by (simp add: unat_mod_distrib)
  hence m0: "data_size mod 8 \<noteq> 0" using assms by (metis mod_0 unat_0)
  have "drop_bit (unat data_size * 8) (foldr (\<lambda>b x. push_bit 8 x OR ucast b) bs (0 :: u64)) =
        drop_bit (unat data_size * 8) (foldr (\<lambda>b x. push_bit 8 x OR ucast b) bs' 0)"
    using s by (intro load_drop) auto
  thus "dfs_hashtable_hash_key8 (Some bs) data_size hashtable_size =
        dfs_hashtable_hash_key8 (Some bs') data_size hashtable_size"
    using s m m0 by (simp add: key8_partial [OF assms] load64_def del: foldr.simps)
qed

theorem hash_key8_reads_past_key_witness:
  "dfs_hashtable_hash_key8 (Some [1, 2, 3]) 3 7 = None \<and>
   dfs_hashtable_hash_key8 (Some [1, 2, 3, 0, 0, 0, 0, 0]) 3 7 = dfs_hashtable_hash_key8 (Some [4, 5, 6, 0, 0, 0, 0, 0]) 3 7"
  using hash_key8_reads_past_key [of 3 7] by simp

end
