(* ===== verification/Dfs_Pool.thy ===== *)
theory Dfs_Pool
  imports Dfs_Prelude
begin

text \<open>
  The memory pools of \<^verbatim>\<open>src/src/core/dfs_memory_pool.cpp\<close>, from which connections take their memory, and the
  allocation wrappers of \<^verbatim>\<open>src/src/core/dfs_memory.cpp\<close> that they call. The state has the blocks that the C library
  has handed out and that are not freed, and the headers that the pool code keeps inside of them: block
  headers, pool heads and the nodes of the large allocations. Freeing a block that was not allocated, and
  reading a header in a freed block, has no result. The C library is the parameter \<open>os\<close>: which address it
  returns, or null, may depend on the time, the live blocks, the alignment and the size; \<open>os_ok\<close> says what
  the C standard promises.
\<close>

unbundle bit_operations_syntax

section \<open>State\<close>

type_synonym region = "addr \<times> nat"
type_synonym os = "nat \<Rightarrow> region list \<Rightarrow> nat \<Rightarrow> nat \<Rightarrow> addr"

record pool_data_t =
  pd_last :: addr
  pd_end :: addr
  pd_next :: addr

record pool_large_t =
  pl_alloc :: addr
  pl_size :: nat
  pl_next :: addr

text \<open>The fields of \<^verbatim>\<open>pool_t\<close> behind its \<^verbatim>\<open>pool_data_t\<close>.\<close>

record pool_head =
  p_max :: nat
  p_current :: addr
  p_large :: addr

record pmem =
  pm_time :: nat
  pm_live :: "region list"
  pm_data :: "addr \<rightharpoonup> pool_data_t"
  pm_head :: "addr \<rightharpoonup> pool_head"
  pm_large :: "addr \<rightharpoonup> pool_large_t"

definition sizeof_pool_data_t :: nat where "sizeof_pool_data_t = 24"
definition sizeof_pool_t :: nat where "sizeof_pool_t = 56"
definition sizeof_pool_large_t :: nat where "sizeof_pool_large_t = 24"
definition DFS_ALIGNMENT :: nat where "DFS_ALIGNMENT = 8"

definition dfs_align_ptr :: "addr \<Rightarrow> nat \<Rightarrow> addr" where
  "dfs_align_ptr p a = unat ((of_nat p + (of_nat a - 1)) AND NOT (of_nat a - 1) :: u64)"

section \<open>Allocation wrappers\<close>

text \<open>\<^verbatim>\<open>malloc\<close> and \<^verbatim>\<open>posix_memalign\<close>; the alignment of \<^verbatim>\<open>malloc\<close> is that of \<^verbatim>\<open>max_align_t\<close>.\<close>

definition os_alloc :: "os \<Rightarrow> nat \<Rightarrow> nat \<Rightarrow> pmem \<Rightarrow> addr \<times> pmem" where
  "os_alloc os al n s =
     (let a = os (pm_time s) (pm_live s) al n; s = s\<lparr>pm_time := pm_time s + 1\<rparr> in
      if a = nullptr then (nullptr, s) else (a, s\<lparr>pm_live := (a, n) # pm_live s\<rparr>))"

definition memory_alloc :: "os \<Rightarrow> nat \<Rightarrow> pmem \<Rightarrow> addr \<times> pmem" where
  "memory_alloc os n s = (if n = 0 then (nullptr, s) else os_alloc os 16 n s)"

definition memory_memalign :: "os \<Rightarrow> nat \<Rightarrow> nat \<Rightarrow> pmem \<Rightarrow> addr \<times> pmem" where
  "memory_memalign os alignment n s = (if n = 0 then (nullptr, s) else os_alloc os alignment n s)"

text \<open>The contents of the regions are no part of the state, so zeroing one changes nothing.\<close>

definition memory_calloc :: "os \<Rightarrow> nat \<Rightarrow> pmem \<Rightarrow> addr \<times> pmem" where
  "memory_calloc os n s = memory_alloc os n s"

text \<open>The comparison of two byte arrays with lengths.\<close>

definition memory_n2cmp :: "u8 list \<Rightarrow> u8 list \<Rightarrow> nat \<Rightarrow> nat \<Rightarrow> int option" where
  "memory_n2cmp s1 s2 n1 n2 =
     (let (n, z) = (if n1 \<le> n2 then (n1, -1) else (n2, 1)) in
      do { xs \<leftarrow> rdn s1 0 n; ys \<leftarrow> rdn s2 0 n;
           let m = memcmp xs ys;
           Some (if m \<noteq> 0 \<or> n1 = n2 then m else z) })"

text \<open>\<^verbatim>\<open>free\<close>: the block must be live; what is kept in it is gone.\<close>

definition outside :: "region \<Rightarrow> (addr \<rightharpoonup> 'a) \<Rightarrow> addr \<rightharpoonup> 'a" where
  "outside r f x = (if fst r \<le> x \<and> x < fst r + snd r then None else f x)"

definition memory_free :: "addr \<Rightarrow> pmem \<Rightarrow> pmem option" where
  "memory_free p s =
     (if p = nullptr then Some s
      else do { r \<leftarrow> find (\<lambda>r. fst r = p) (pm_live s);
                Some (s\<lparr>pm_live := remove1 r (pm_live s), pm_data := outside r (pm_data s),
                        pm_head := outside r (pm_head s), pm_large := outside r (pm_large s)\<rparr>) })"

section \<open>Pools\<close>

definition pool_create :: "os \<Rightarrow> nat \<Rightarrow> nat \<Rightarrow> pmem \<Rightarrow> addr \<times> pmem" where
  "pool_create os sz max_size s =
     (if sz = 0 then (nullptr, s)
      else let sz = (if sz < sizeof_pool_t then sz + sizeof_pool_t else sz);
               (p, s) = memory_alloc os sz s in
           if p = nullptr then (nullptr, s)
           else let data = \<lparr>pd_last = p + sizeof_pool_t, pd_end = p + sz, pd_next = nullptr\<rparr>;
                    sz = sz - sizeof_pool_t;
                    hd = \<lparr>p_max = (if sz < max_size then sz else max_size), p_current = p, p_large = nullptr\<rparr> in
                (p, s\<lparr>pm_data := (pm_data s)(p \<mapsto> data), pm_head := (pm_head s)(p \<mapsto> hd)\<rparr>))"

text \<open>The search for room in the blocks from \<open>p\<close> on.\<close>

partial_function (option) alloc_scan :: "addr \<Rightarrow> nat \<Rightarrow> pmem \<Rightarrow> (addr option \<times> pmem) option" where
  "alloc_scan p sz s =
     (if p = nullptr then Some (None, s)
      else do { d \<leftarrow> pm_data s p;
                let m = dfs_align_ptr (pd_last d) DFS_ALIGNMENT;
                if m < pd_end d \<and> pd_end d - m \<ge> sz
                then Some (Some m, s\<lparr>pm_data := (pm_data s)(p \<mapsto> d\<lparr>pd_last := m + sz\<rparr>)\<rparr>)
                else alloc_scan (pd_next d) sz s })"

text \<open>The loop of \<^verbatim>\<open>pool_alloc_block\<close> to the last block; it remembers the block behind the last one that is full.\<close>

partial_function (option) last_block :: "pmem \<Rightarrow> addr \<Rightarrow> addr \<Rightarrow> (addr \<times> addr) option" where
  "last_block s p current =
     do { d \<leftarrow> pm_data s p;
          if pd_next d = nullptr then Some (p, current)
          else last_block s (pd_next d)
                 (if pd_last d \<le> pd_end d \<and> pd_end d - pd_last d < DFS_ALIGNMENT then pd_next d else current) }"

definition pool_alloc_block :: "os \<Rightarrow> addr \<Rightarrow> nat \<Rightarrow> pmem \<Rightarrow> (addr \<times> pmem) option" where
  "pool_alloc_block os pool sz s =
     (if pool = nullptr \<or> sz = 0 then Some (nullptr, s)
      else do { d \<leftarrow> pm_data s pool;
                let psize = pd_end d - pool;
                let (np, s) = memory_alloc os psize s;
                if np = nullptr then Some (nullptr, s)
                else do { let nm = dfs_align_ptr (np + sizeof_pool_data_t) DFS_ALIGNMENT;
                          let s = s\<lparr>pm_data := (pm_data s)(np \<mapsto>
                                    \<lparr>pd_last = nm + sz, pd_end = np + psize, pd_next = nullptr\<rparr>)\<rparr>;
                          hd \<leftarrow> pm_head s pool;
                          (p, current) \<leftarrow> last_block s (p_current hd) nullptr;
                          pd \<leftarrow> pm_data s p;
                          let s = s\<lparr>pm_data := (pm_data s)(p \<mapsto> pd\<lparr>pd_next := np\<rparr>),
                                    pm_head := (pm_head s)(pool \<mapsto>
                                      hd\<lparr>p_current := (if current \<noteq> nullptr then current else np)\<rparr>)\<rparr>;
                          Some (nm, s) } })"

text \<open>Putting a node in front of the list of large allocations.\<close>

definition link_large :: "addr \<Rightarrow> addr \<Rightarrow> addr \<Rightarrow> nat \<Rightarrow> pmem \<Rightarrow> pmem option" where
  "link_large pool large p sz s =
     do { hd \<leftarrow> pm_head s pool;
          Some (s\<lparr>pm_large := (pm_large s)(large \<mapsto> \<lparr>pl_alloc = p, pl_size = sz, pl_next = p_large hd\<rparr>),
                  pm_head := (pm_head s)(pool \<mapsto> hd\<lparr>p_large := large\<rparr>)\<rparr>) }"

text \<open>\<^verbatim>\<open>pool_alloc\<close> and \<^verbatim>\<open>pool_alloc_large\<close> call each other; the body of the second stands in the first.\<close>

partial_function (option) pool_alloc :: "os \<Rightarrow> addr \<Rightarrow> nat \<Rightarrow> pmem \<Rightarrow> (addr \<times> pmem) option" where
  "pool_alloc os pool sz s =
     (if pool = nullptr \<or> sz = 0 then Some (nullptr, s)
      else do { hd \<leftarrow> pm_head s pool;
                if sz \<le> p_max hd
                then do { (m, s) \<leftarrow> alloc_scan (p_current hd) sz s;
                          case m of Some m \<Rightarrow> Some (m, s) | None \<Rightarrow> pool_alloc_block os pool sz s }
                else case memory_alloc os sz s of (p, s) \<Rightarrow>
                       if p = nullptr then Some (nullptr, s)
                       else do { (large, s) \<leftarrow> pool_alloc os pool sizeof_pool_large_t s;
                                 if large = nullptr
                                 then do { s \<leftarrow> memory_free p s; Some (nullptr, s) }
                                 else do { s \<leftarrow> link_large pool large p sz s; Some (p, s) } } })"

definition pool_alloc_large :: "os \<Rightarrow> addr \<Rightarrow> nat \<Rightarrow> pmem \<Rightarrow> (addr \<times> pmem) option" where
  "pool_alloc_large os pool sz s =
     (if pool = nullptr \<or> sz = 0 then Some (nullptr, s)
      else case memory_alloc os sz s of (p, s) \<Rightarrow>
             if p = nullptr then Some (nullptr, s)
             else do { (large, s) \<leftarrow> pool_alloc os pool sizeof_pool_large_t s;
                       if large = nullptr
                       then do { s \<leftarrow> memory_free p s; Some (nullptr, s) }
                       else do { s \<leftarrow> link_large pool large p sz s; Some (p, s) } })"

definition pool_memalign :: "os \<Rightarrow> addr \<Rightarrow> nat \<Rightarrow> nat \<Rightarrow> pmem \<Rightarrow> (addr \<times> pmem) option" where
  "pool_memalign os pool sz alignment s =
     (case memory_memalign os alignment sz s of (p, s) \<Rightarrow>
        if p = nullptr then Some (nullptr, s)
        else do { (large, s) \<leftarrow> pool_alloc os pool sizeof_pool_large_t s;
                  if large = nullptr
                  then do { s \<leftarrow> memory_free p s; Some (nullptr, s) }
                  else do { s \<leftarrow> link_large pool large p sz s; Some (p, s) } })"

definition pool_calloc :: "os \<Rightarrow> addr \<Rightarrow> nat \<Rightarrow> pmem \<Rightarrow> (addr \<times> pmem) option" where
  "pool_calloc os pool sz s = pool_alloc os pool sz s"

text \<open>Freeing the large allocations: \<open>clear\<close> is whether \<^verbatim>\<open>l->alloc\<close> is set to null, as only \<^verbatim>\<open>pool_reset\<close> does.\<close>

partial_function (option) free_large :: "bool \<Rightarrow> addr \<Rightarrow> pmem \<Rightarrow> pmem option" where
  "free_large clear l s =
     (if l = nullptr then Some s
      else do { n \<leftarrow> pm_large s l;
                if pl_alloc n = nullptr then free_large clear (pl_next n) s
                else do { s \<leftarrow> memory_free (pl_alloc n) s;
                          n \<leftarrow> pm_large s l;
                          let s = (if clear then s\<lparr>pm_large := (pm_large s)(l \<mapsto> n\<lparr>pl_alloc := nullptr\<rparr>)\<rparr> else s);
                          free_large clear (pl_next n) s } })"

partial_function (option) free_blocks :: "addr \<Rightarrow> addr \<Rightarrow> pmem \<Rightarrow> pmem option" where
  "free_blocks p n s =
     do { s \<leftarrow> memory_free p s;
          if n = nullptr then Some s
          else do { d \<leftarrow> pm_data s n; free_blocks n (pd_next d) s } }"

definition pool_destroy :: "addr \<Rightarrow> pmem \<Rightarrow> pmem option" where
  "pool_destroy pool s =
     (if pool = nullptr then Some s
      else do { hd \<leftarrow> pm_head s pool;
                s \<leftarrow> free_large False (p_large hd) s;
                d \<leftarrow> pm_data s pool;
                free_blocks pool (pd_next d) s })"

partial_function (option) reset_blocks :: "addr \<Rightarrow> pmem \<Rightarrow> pmem option" where
  "reset_blocks p s =
     (if p = nullptr then Some s
      else do { d \<leftarrow> pm_data s p;
                reset_blocks (pd_next d) (s\<lparr>pm_data := (pm_data s)(p \<mapsto> d\<lparr>pd_last := p + sizeof_pool_t\<rparr>)\<rparr>) })"

definition pool_reset :: "addr \<Rightarrow> pmem \<Rightarrow> pmem option" where
  "pool_reset pool s =
     (if pool = nullptr then Some s
      else do { hd \<leftarrow> pm_head s pool;
                s \<leftarrow> free_large True (p_large hd) s;
                reset_blocks pool (s\<lparr>pm_head := (pm_head s)(pool \<mapsto> hd\<lparr>p_current := pool\<rparr>)\<rparr>) })"

definition dfs_align :: "u64 \<Rightarrow> u32 \<Rightarrow> u64 option" where
  "dfs_align d a =
     (if a = 0 then None
      else Some (if d mod ucast a \<noteq> 0 then d + (ucast a - d mod ucast a) else d))"

lemma memory_n2cmp_equal:
  assumes "n1 \<le> length s1" "n2 \<le> length s2"
  shows "\<exists>d. memory_n2cmp s1 s2 n1 n2 = Some d \<and> (d = 0 \<longleftrightarrow> take n1 s1 = take n2 s2)"
proof -
  have "take n1 s1 = take n2 s2 \<Longrightarrow> n1 = n2" using assms by (metis length_take min.absorb2)
  thus ?thesis using assms memcmp_eq_0 [of "take (min n1 n2) s1" "take (min n1 n2) s2"]
    by (cases "n1 \<le> n2") (auto simp: memory_n2cmp_def min_def)
qed

section \<open>Regions and the promise of the C library\<close>

definition apart :: "region \<Rightarrow> region \<Rightarrow> bool" where
  "apart r q \<longleftrightarrow> fst r + snd r \<le> fst q \<or> fst q + snd q \<le> fst r"

lemma apart_sym: "apart r q = apart q r"
  by (auto simp: apart_def)

lemma apart_sub:
  "apart (b, k) q \<Longrightarrow> b \<le> m \<Longrightarrow> m + n \<le> b + k \<Longrightarrow> apart (m, n) q"
  by (auto simp: apart_def)

text \<open>Blocks are aligned, disjoint from the live ones, and lie in the lower half of the address space, as those of
  a user process do.\<close>

definition os_ok :: "os \<Rightarrow> bool" where
  "os_ok os \<longleftrightarrow>
     (\<forall>t live al n. let a = os t live al n in
        a \<noteq> nullptr \<longrightarrow> al dvd a \<and> a + n < 2 ^ 63 \<and> (\<forall>r\<in>set live. apart (a, n) r))"

definition live_ok :: "region list \<Rightarrow> bool" where
  "live_ok live \<longleftrightarrow> sorted_wrt apart live \<and> (\<forall>r\<in>set live. 0 < fst r \<and> 0 < snd r \<and> fst r + snd r < 2 ^ 63)"

lemma live_disj: "live_ok live \<Longrightarrow> r \<in> set live \<Longrightarrow> q \<in> set live \<Longrightarrow> r = q \<or> apart r q"
  unfolding live_ok_def by (induction live) (auto simp: apart_sym)

lemma live_ok_Cons:
  "live_ok (r # live) \<longleftrightarrow> 0 < fst r \<and> 0 < snd r \<and> fst r + snd r < 2 ^ 63 \<and> (\<forall>q\<in>set live. apart r q) \<and> live_ok live"
  by (auto simp: live_ok_def)

lemma os_alloc_cases:
  assumes "os_ok os" "live_ok (pm_live s)" "0 < n"
  obtains t where "os_alloc os al n s = (nullptr, s\<lparr>pm_time := t\<rparr>)"
  | a t where "os_alloc os al n s = (a, s\<lparr>pm_time := t, pm_live := (a, n) # pm_live s\<rparr>)" "a \<noteq> nullptr"
      "live_ok ((a, n) # pm_live s)" "al dvd a"
proof -
  let ?a = "os (pm_time s) (pm_live s) al n"
  have ok: "?a \<noteq> 0 \<Longrightarrow> al dvd ?a \<and> ?a + n < 2 ^ 63 \<and> (\<forall>r\<in>set (pm_live s). apart (?a, n) r)"
    using assms(1) unfolding os_ok_def Let_def by blast
  show thesis
  proof (cases "?a = 0")
    case True
    thus thesis using that(1) [of "pm_time s + 1"] by (auto simp: os_alloc_def Let_def)
  next
    case False
    moreover have "live_ok ((?a, n) # pm_live s)" using False ok assms(2,3) by (simp add: live_ok_Cons)
    ultimately show thesis using that(2) [of ?a "pm_time s + 1"] ok by (simp add: os_alloc_def Let_def)
  qed
qed

lemma memory_memalign_cases:
  assumes "os_ok os" "live_ok (pm_live s)"
  obtains t where "memory_memalign os al n s = (nullptr, s\<lparr>pm_time := t\<rparr>)"
  | a t where "memory_memalign os al n s = (a, s\<lparr>pm_time := t, pm_live := (a, n) # pm_live s\<rparr>)" "a \<noteq> nullptr"
      "live_ok ((a, n) # pm_live s)" "al dvd a"
proof (cases "n = 0")
  case True
  thus thesis using that(1) [of "pm_time s"] by (simp add: memory_memalign_def)
next
  case False
  hence "0 < n" by simp
  with assms(1,2) show thesis
    by (cases rule: os_alloc_cases [of os s n al])
      (use that False in \<open>auto simp: memory_memalign_def\<close>)
qed

lemma memory_alloc_cases:
  assumes "os_ok os" "live_ok (pm_live s)"
  obtains t where "memory_alloc os n s = (nullptr, s\<lparr>pm_time := t\<rparr>)"
  | a t where "memory_alloc os n s = (a, s\<lparr>pm_time := t, pm_live := (a, n) # pm_live s\<rparr>)" "a \<noteq> nullptr"
      "live_ok ((a, n) # pm_live s)" "8 dvd a"
proof -
  have "memory_alloc os n s = memory_memalign os 16 n s" by (simp add: memory_alloc_def memory_memalign_def)
  moreover have "8 dvd (16 :: nat)" by simp
  ultimately show thesis using memory_memalign_cases [OF assms, of 16 n] that dvd_trans [of 8 "16 :: nat"] by metis
qed

lemma and_not_7: "unat (x AND NOT 7 :: u64) = 8 * (unat x div 8)"
proof -
  have "(7 :: u64) = mask 3" by (simp add: mask_eq_exp_minus_1)
  moreover have "x AND NOT (mask 3) = push_bit 3 (drop_bit 3 x)"
    by (rule bit_eqI) (auto simp: bit_and_iff bit_not_iff bit_mask_iff bit_push_bit_iff bit_drop_bit_eq)
  ultimately have "x AND NOT 7 = push_bit 3 (drop_bit 3 x)" by simp
  also have "\<dots> = x div 8 * 8" by (simp add: push_bit_eq_mult drop_bit_eq_div)
  also have "unat \<dots> = unat x div 8 * 8"
  proof -
    have "unat (x div 8) * unat (8 :: u64) \<le> unat x" by (simp add: unat_div_distrib)
    also have "unat x < 2 ^ 64" by (rule order_less_le_trans [OF unsigned_less]) simp
    finally have "unat (x div 8) * unat (8 :: u64) < 2 ^ 64" .
    thus ?thesis by (subst unat_mult_lem [THEN iffD1]) (simp_all add: unat_div_distrib)
  qed
  finally show ?thesis by simp
qed

lemma align_8:
  assumes "p + 7 < 2 ^ 64"
  shows "dfs_align_ptr p DFS_ALIGNMENT = 8 * ((p + 7) div 8)"
proof -
  have "of_nat p + (of_nat DFS_ALIGNMENT - 1) = (of_nat (p + 7) :: u64)" by (simp add: DFS_ALIGNMENT_def)
  moreover have "of_nat DFS_ALIGNMENT - 1 = (7 :: u64)" by (simp add: DFS_ALIGNMENT_def)
  moreover have "unat (of_nat (p + 7) :: u64) = p + 7" using assms by (simp only: unat_of_nat) simp
  ultimately show ?thesis unfolding dfs_align_ptr_def by (simp only: and_not_7)
qed

lemma align_bounds:
  assumes "p + 7 < 2 ^ 64"
  shows "p \<le> dfs_align_ptr p DFS_ALIGNMENT" "dfs_align_ptr p DFS_ALIGNMENT < p + 8"
    "8 dvd dfs_align_ptr p DFS_ALIGNMENT"
  unfolding align_8 [OF assms] by (presburger, presburger, simp)

section \<open>The well-formedness of a pool\<close>

text \<open>A chain of addresses that ends in null.\<close>

primrec lseg :: "(addr \<rightharpoonup> addr) \<Rightarrow> addr \<Rightarrow> addr list \<Rightarrow> bool" where
  "lseg nx a [] = (a = nullptr)"
| "lseg nx a (x # xs) = (a = x \<and> a \<noteq> nullptr \<and> (\<exists>n. nx a = Some n \<and> lseg nx n xs))"

lemma lseg_cong: "lseg nx a xs \<Longrightarrow> (\<And>x. x \<in> set xs \<Longrightarrow> nx' x = nx x) \<Longrightarrow> lseg nx' a xs"
  by (induction xs arbitrary: a) auto

lemma lseg_suffix: "lseg nx a (xs @ x # ys) \<Longrightarrow> lseg nx x (x # ys)"
  by (induction xs arbitrary: a) auto

lemma lseg_append_one:
  "lseg nx a xs \<Longrightarrow> xs \<noteq> [] \<Longrightarrow> distinct (xs @ [y]) \<Longrightarrow> y \<noteq> nullptr \<Longrightarrow> nx y = Some nullptr \<Longrightarrow>
   lseg (nx(last xs \<mapsto> y)) a (xs @ [y])"
proof (induction xs arbitrary: a)
  case (Cons x xs)
  show ?case
  proof (cases "xs = []")
    case True
    thus ?thesis using Cons.prems by auto
  next
    case False
    then obtain n where n: "a = x" "x \<noteq> 0" "nx x = Some n" "lseg nx n xs" using Cons.prems(1) by auto
    have "x \<noteq> last xs" using Cons.prems(3) False by auto
    moreover have "lseg (nx(last xs \<mapsto> y)) n (xs @ [y])"
      using Cons.prems False n by (intro Cons.IH) auto
    ultimately show ?thesis using n False by (simp add: fun_upd_other del: fun_upd_apply)
  qed
qed simp

definition next_block :: "pmem \<Rightarrow> addr \<rightharpoonup> addr" where
  "next_block s a = map_option pd_next (pm_data s a)"

definition next_large :: "pmem \<Rightarrow> addr \<rightharpoonup> addr" where
  "next_large s a = map_option pl_next (pm_large s a)"

lemma next_block_Some: "next_block s a = Some n \<longleftrightarrow> (\<exists>d. pm_data s a = Some d \<and> pd_next d = n)"
  by (auto simp: next_block_def)

lemma next_large_Some: "next_large s a = Some n \<longleftrightarrow> (\<exists>l. pm_large s a = Some l \<and> pl_next l = n)"
  by (auto simp: next_large_def)

definition header :: "addr \<Rightarrow> addr \<Rightarrow> nat" where
  "header pool b = (if b = pool then sizeof_pool_t else sizeof_pool_data_t)"

text \<open>The large allocation that a node stands for.\<close>

definition large_region :: "pmem \<Rightarrow> addr \<Rightarrow> region" where
  "large_region s n = (pl_alloc (the (pm_large s n)), pl_size (the (pm_large s n)))"

text \<open>The blocks \<open>bs\<close> of size \<open>psz\<close>, and the regions \<open>rs\<close> that were cut from them.\<close>

definition blocks_ok :: "addr \<Rightarrow> nat \<Rightarrow> pmem \<Rightarrow> addr list \<Rightarrow> region list \<Rightarrow> bool" where
  "blocks_ok pool psz s bs rs \<longleftrightarrow>
     lseg (next_block s) pool bs \<and> pool \<in> set bs \<and> distinct bs \<and> sizeof_pool_t \<le> psz \<and>
     (\<forall>b\<in>set bs. \<exists>d. pm_data s b = Some d \<and> pd_end d = b + psz \<and> 8 dvd b \<and>
        b + header pool b \<le> pd_last d \<and> pd_last d \<le> b + psz) \<and>
     sorted_wrt apart rs \<and>
     (\<forall>r\<in>set rs. \<exists>b\<in>set bs. \<exists>d. pm_data s b = Some d \<and> b + header pool b \<le> fst r \<and> fst r + snd r \<le> pd_last d)"

text \<open>The blocks of the pool and the large allocations of its nodes \<open>ns\<close> are live, beside \<open>other\<close>, and the
  nodes are regions of the blocks.\<close>

definition pool_core ::
  "addr \<Rightarrow> nat \<Rightarrow> pmem \<Rightarrow> addr list \<Rightarrow> region list \<Rightarrow> addr list \<Rightarrow> region multiset \<Rightarrow> bool" where
  "pool_core pool psz s bs rs ns other \<longleftrightarrow>
     live_ok (pm_live s) \<and> blocks_ok pool psz s bs rs \<and> (\<forall>n\<in>set ns. (n, sizeof_pool_large_t) \<in> set rs) \<and>
     mset (pm_live s) = other + mset (map (\<lambda>b. (b, psz)) bs) + mset (map (large_region s) ns)"

definition pool_ok ::
  "addr \<Rightarrow> nat \<Rightarrow> pmem \<Rightarrow> addr list \<Rightarrow> region list \<Rightarrow> addr list \<Rightarrow> region multiset \<Rightarrow> bool" where
  "pool_ok pool psz s bs rs ns other \<longleftrightarrow>
     pool_core pool psz s bs rs ns other \<and>
     (\<exists>hd. pm_head s pool = Some hd \<and> p_current hd \<in> set bs \<and> p_max hd + sizeof_pool_t \<le> psz \<and>
        lseg (next_large s) (p_large hd) ns)"

text \<open>The regions in use: those cut from blocks and the large ones.\<close>

definition in_use :: "pmem \<Rightarrow> region list \<Rightarrow> addr list \<Rightarrow> region set" where
  "in_use s rs ns = set rs \<union> large_region s ` set ns"

section \<open>Cutting a region from a block\<close>

lemma block_live: "pool_core pool psz s bs rs ns other \<Longrightarrow> b \<in> set bs \<Longrightarrow> (b, psz) \<in> set (pm_live s)"
  unfolding pool_core_def by (auto simp flip: set_mset_mset)

lemma large_live: "pool_core pool psz s bs rs ns other \<Longrightarrow> n \<in> set ns \<Longrightarrow> large_region s n \<in> set (pm_live s)"
  unfolding pool_core_def by (auto simp flip: set_mset_mset)

lemma block_limit: "pool_core pool psz s bs rs ns other \<Longrightarrow> b \<in> set bs \<Longrightarrow> 0 < b \<and> b + psz < 2 ^ 63"
  using block_live [of pool psz s bs rs ns other b] unfolding pool_core_def live_ok_def by fastforce

lemma live_distinct: "live_ok live \<Longrightarrow> distinct live"
proof (induction live)
  case (Cons r live)
  hence "r \<notin> set live" by (auto simp: live_ok_Cons apart_def)
  thus ?case using Cons by (simp add: live_ok_Cons)
qed simp

text \<open>Two live regions that are counted apart are disjoint.\<close>

lemma live_apart:
  assumes "live_ok live" "mset live = M + N" "r \<in># M" "q \<in># N"
  shows "apart r q"
proof -
  have "r \<noteq> q"
  proof
    assume "r = q"
    hence "1 \<le> count M r" "1 \<le> count N r" using assms(3,4) by simp_all
    hence "2 \<le> count (mset live) r" using assms(2) by (simp only: count_union)
    moreover have "count (mset live) r = (if r \<in> set live then 1 else 0)"
      using distinct_count_atmost_1 [of live] live_distinct [OF assms(1)] by blast
    ultimately show False by (simp split: if_splits)
  qed
  moreover have "r \<in> set live" "q \<in> set live"
    using assms(2-4) by (metis set_mset_mset union_iff)+
  ultimately show ?thesis using live_disj [OF assms(1)] by blast
qed

definition set_last :: "addr \<Rightarrow> addr \<Rightarrow> pmem \<Rightarrow> pmem" where
  "set_last b v s = s\<lparr>pm_data := (pm_data s)(b := map_option (\<lambda>d. d\<lparr>pd_last := v\<rparr>) (pm_data s b))\<rparr>"

lemma set_last_fields [simp]:
  "pm_live (set_last b v s) = pm_live s" "pm_head (set_last b v s) = pm_head s"
  "pm_large (set_last b v s) = pm_large s" "next_block (set_last b v s) = next_block s"
  "next_large (set_last b v s) = next_large s" "large_region (set_last b v s) = large_region s"
  "pm_data (set_last b v s) x =
     (if x = b then map_option (\<lambda>d. d\<lparr>pd_last := v\<rparr>) (pm_data s b) else pm_data s x)"
  by (auto simp: set_last_def fun_eq_iff next_block_def next_large_def large_region_def option.map_comp comp_def)

lemma alloc_scan_result:
  assumes "lseg (next_block s) p xs"
    and "\<And>b. b \<in> set xs \<Longrightarrow> \<exists>d. pm_data s b = Some d"
  shows "alloc_scan p sz s = Some (None, s) \<or>
     (\<exists>b\<in>set xs. \<exists>d. pm_data s b = Some d \<and>
        (let m = dfs_align_ptr (pd_last d) DFS_ALIGNMENT in
           m < pd_end d \<and> m + sz \<le> pd_end d \<and>
           alloc_scan p sz s = Some (Some m, set_last b (m + sz) s)))"
  using assms
proof (induction xs arbitrary: p)
  case Nil
  thus ?case by (subst alloc_scan.simps) simp
next
  case (Cons x xs)
  then obtain d where d: "p = x" "x \<noteq> 0" "pm_data s x = Some d" "lseg (next_block s) (pd_next d) xs"
    by (auto simp: next_block_Some)
  let ?m = "dfs_align_ptr (pd_last d) DFS_ALIGNMENT"
  show ?case
  proof (cases "?m < pd_end d \<and> sz \<le> pd_end d - ?m")
    case True
    hence "alloc_scan p sz s = Some (Some ?m, set_last x (?m + sz) s)"
      using d by (subst alloc_scan.simps) (simp add: Let_def set_last_def)
    thus ?thesis using True d by (auto simp: Let_def)
  next
    case False
    hence "alloc_scan p sz s = alloc_scan (pd_next d) sz s"
      using d by (subst alloc_scan.simps) (auto simp: Let_def)
    thus ?thesis using Cons.IH [OF d(4)] Cons.prems(2) by auto
  qed
qed

lemma last_block_result:
  assumes "lseg (next_block s) p xs" "xs \<noteq> []" "\<And>b. b \<in> set xs \<Longrightarrow> \<exists>d. pm_data s b = Some d"
  shows "\<exists>c'. last_block s p c = Some (last xs, c') \<and> (c' = c \<or> c' \<in> set xs)"
  using assms
proof (induction xs arbitrary: p c)
  case (Cons x xs)
  then obtain d where d: "p = x" "x \<noteq> 0" "pm_data s x = Some d" "lseg (next_block s) (pd_next d) xs"
    by (auto simp: next_block_Some)
  show ?case
  proof (cases xs)
    case Nil
    thus ?thesis using d by (subst last_block.simps) simp
  next
    case (Cons y ys)
    hence y: "pd_next d = y" "y \<noteq> 0" using d(4) by auto
    let ?c = "if pd_last d \<le> pd_end d \<and> pd_end d - pd_last d < DFS_ALIGNMENT then pd_next d else c"
    obtain c' where "last_block s (pd_next d) ?c = Some (last xs, c')" "c' = ?c \<or> c' \<in> set xs"
      using Cons.IH [OF d(4), of ?c] Cons Cons.prems(3) by fastforce
    thus ?thesis using d y Cons by (subst last_block.simps) (auto split: if_splits)
  qed
qed simp

text \<open>A region cut from the free end of a block is disjoint from every region in use.\<close>

lemma cut_blocks_ok:
  assumes "blocks_ok pool psz s bs rs" "b \<in> set bs" "pm_data s b = Some d"
    and "pd_last d \<le> m" "m + sz \<le> b + psz"
    and "\<And>b' . b' \<in> set bs \<Longrightarrow> b' \<noteq> b \<Longrightarrow> apart (b, psz) (b', psz)"
  shows "blocks_ok pool psz (set_last b (m + sz) s) bs ((m, sz) # rs)" "\<forall>r\<in>set rs. apart (m, sz) r"
proof -
  have hb: "b + header pool b \<le> pd_last d" using assms(1-3) unfolding blocks_ok_def by fastforce
  show new: "\<forall>r\<in>set rs. apart (m, sz) r"
  proof
    fix r assume "r \<in> set rs"
    then obtain b' d' where b': "b' \<in> set bs" "pm_data s b' = Some d'" "b' \<le> fst r" "fst r + snd r \<le> pd_last d'"
      "pd_last d' \<le> b' + psz"
      using assms(1) unfolding blocks_ok_def by fastforce
    show "apart (m, sz) r"
    proof (cases "b' = b")
      case True
      thus ?thesis using b' assms(3,4) by (simp add: apart_def)
    next
      case False
      hence "apart (b, psz) (b', psz)" using assms(6) b'(1) by blast
      thus ?thesis using b' assms(4,5) hb by (auto simp: apart_def)
    qed
  qed
  have "\<exists>b'\<in>set bs. \<exists>d'. pm_data (set_last b (m + sz) s) b' = Some d' \<and> b' + header pool b' \<le> fst r \<and>
      fst r + snd r \<le> pd_last d'" if r: "r \<in> set ((m, sz) # rs)" for r
  proof (cases "r = (m, sz)")
    case True
    thus ?thesis using assms(2-4) hb by (intro bexI [of _ b]) auto
  next
    case False
    then obtain b' d' where "b' \<in> set bs" "pm_data s b' = Some d'" "b' + header pool b' \<le> fst r"
      "fst r + snd r \<le> pd_last d'"
      using r assms(1) unfolding blocks_ok_def by fastforce
    thus ?thesis using assms(3,4) by (intro bexI [of _ b']) auto
  qed
  moreover have "\<exists>d'. pm_data (set_last b (m + sz) s) b' = Some d' \<and> pd_end d' = b' + psz \<and> 8 dvd b' \<and>
        b' + header pool b' \<le> pd_last d' \<and> pd_last d' \<le> b' + psz" if "b' \<in> set bs" for b'
    using that assms hb unfolding blocks_ok_def by (cases "b' = b") fastforce+
  ultimately show "blocks_ok pool psz (set_last b (m + sz) s) bs ((m, sz) # rs)"
    using assms(1) new unfolding blocks_ok_def by simp
qed

lemma blocks_apart:
  "pool_core pool psz s bs rs ns other \<Longrightarrow> b \<in> set bs \<Longrightarrow> b' \<in> set bs \<Longrightarrow> b' \<noteq> b \<Longrightarrow> apart (b, psz) (b', psz)"
  using live_disj [of "pm_live s" "(b, psz)" "(b', psz)"] block_live [of pool psz s bs rs ns other]
  by (auto simp: pool_core_def)

lemma block_large_disj:
  "pool_core pool psz s bs rs ns other \<Longrightarrow> b \<in> set bs \<Longrightarrow> n \<in> set ns \<Longrightarrow> apart (b, psz) (large_region s n)"
  by (rule live_apart [of "pm_live s" "other + mset (map (\<lambda>b. (b, psz)) bs)" "mset (map (large_region s) ns)"])
    (auto simp: pool_core_def)

lemma cut_pool_core:
  assumes "pool_core pool psz s bs rs ns other" "b \<in> set bs" "pm_data s b = Some d"
    and "pd_last d \<le> m" "m + sz \<le> b + psz"
  shows "pool_core pool psz (set_last b (m + sz) s) bs ((m, sz) # rs) ns other"
    "\<forall>r\<in>in_use s rs ns. apart (m, sz) r"
proof -
  have bl: "blocks_ok pool psz s bs rs" using assms(1) by (simp add: pool_core_def)
  note cut = cut_blocks_ok [OF bl assms(2-5) blocks_apart [OF assms(1,2)]]
  have "b \<le> m" using bl assms(2-4) unfolding blocks_ok_def by fastforce
  hence "apart (m, sz) (large_region s n)" if "n \<in> set ns" for n
    using apart_sub [OF block_large_disj [OF assms(1,2) that]] assms(5) by simp
  thus "\<forall>r\<in>in_use s rs ns. apart (m, sz) r" using cut(2) by (auto simp: in_use_def)
  show "pool_core pool psz (set_last b (m + sz) s) bs ((m, sz) # rs) ns other"
    using assms(1) cut(1) by (auto simp: pool_core_def)
qed

text \<open>The search in the blocks from the current one on.\<close>

lemma alloc_scan_ok:
  assumes "pool_ok pool psz s bs rs ns other" "pm_head s pool = Some h" "0 < sz"
  shows "alloc_scan (p_current h) sz s = Some (None, s) \<or>
     (\<exists>m s'. alloc_scan (p_current h) sz s = Some (Some m, s') \<and> m \<noteq> nullptr \<and> 8 dvd m \<and>
        pool_ok pool psz s' bs ((m, sz) # rs) ns other \<and> (\<forall>r\<in>in_use s rs ns. apart (m, sz) r) \<and>
        large_region s' = large_region s \<and> pm_head s' = pm_head s)"
proof -
  have core: "pool_core pool psz s bs rs ns other" and cur: "p_current h \<in> set bs"
    using assms(1,2) by (auto simp: pool_ok_def)
  have dat: "\<exists>d. pm_data s b = Some d \<and> pd_end d = b + psz \<and> b \<le> pd_last d \<and> pd_last d \<le> b + psz"
    if "b \<in> set bs" for b
    using core that unfolding pool_core_def blocks_ok_def by fastforce
  obtain xs ys where bs: "bs = xs @ p_current h # ys" using split_list [OF cur] by blast
  have seg: "lseg (next_block s) (p_current h) (p_current h # ys)"
    using core bs lseg_suffix unfolding pool_core_def blocks_ok_def by blast
  have "\<exists>d. pm_data s b = Some d" if "b \<in> set (p_current h # ys)" for b
    using dat [of b] that bs by auto
  hence "alloc_scan (p_current h) sz s = Some (None, s) \<or>
      (\<exists>b\<in>set (p_current h # ys). \<exists>d. pm_data s b = Some d \<and>
        (let m = dfs_align_ptr (pd_last d) DFS_ALIGNMENT in
           m < pd_end d \<and> m + sz \<le> pd_end d \<and>
           alloc_scan (p_current h) sz s = Some (Some m, set_last b (m + sz) s)))"
    by (rule alloc_scan_result [OF seg])
  thus ?thesis
  proof (elim disjE)
    assume "\<exists>b\<in>set (p_current h # ys). \<exists>d. pm_data s b = Some d \<and>
        (let m = dfs_align_ptr (pd_last d) DFS_ALIGNMENT in
           m < pd_end d \<and> m + sz \<le> pd_end d \<and>
           alloc_scan (p_current h) sz s = Some (Some m, set_last b (m + sz) s))"
    then obtain b d m where m: "b \<in> set bs" "pm_data s b = Some d" "m = dfs_align_ptr (pd_last d) DFS_ALIGNMENT"
      "m < pd_end d" "m + sz \<le> pd_end d" "alloc_scan (p_current h) sz s = Some (Some m, set_last b (m + sz) s)"
      using bs by (auto simp: Let_def)
    have lim: "0 < b" "b + psz < 2 ^ 63" using block_limit [OF core m(1)] by auto
    have d: "pd_end d = b + psz" "b \<le> pd_last d" "pd_last d \<le> b + psz" using dat [OF m(1)] m(2) by auto
    have al: "pd_last d \<le> m" "8 dvd m" 
      using align_bounds [of "pd_last d"] m(3) d lim by auto
    have "pool_core pool psz (set_last b (m + sz) s) bs ((m, sz) # rs) ns other"
      "\<forall>r\<in>in_use s rs ns. apart (m, sz) r"
      using cut_pool_core [OF core m(1,2) al(1)] m(5) d(1) by auto
    thus ?thesis using m al d lim assms(1) by (auto simp: pool_ok_def)
  qed simp
qed

text \<open>A new block behind the last one, with the region at its front.\<close>

lemma extend_blocks_ok:
  assumes "blocks_ok pool psz s bs rs" "np \<notin> set bs" "np \<noteq> nullptr" "8 dvd np" "sizeof_pool_data_t + sz \<le> psz"
    and "pm_data s (last bs) = Some pd" "\<And>b. b \<in> set bs \<Longrightarrow> apart (np, psz) (b, psz)"
    and "pm_data s' = (pm_data s)
           (np \<mapsto> \<lparr>pd_last = np + sizeof_pool_data_t + sz, pd_end = np + psz, pd_next = nullptr\<rparr>,
            last bs \<mapsto> pd\<lparr>pd_next := np\<rparr>)"
  shows "blocks_ok pool psz s' (bs @ [np]) ((np + sizeof_pool_data_t, sz) # rs)"
    "\<forall>r\<in>set rs. apart (np + sizeof_pool_data_t, sz) r"
proof -
  have b: "lseg (next_block s) pool bs" "pool \<in> set bs" "distinct bs" "sizeof_pool_t \<le> psz" "sorted_wrt apart rs"
    and dat: "\<And>b. b \<in> set bs \<Longrightarrow> \<exists>d. pm_data s b = Some d \<and> pd_end d = b + psz \<and> 8 dvd b \<and>
        b + header pool b \<le> pd_last d \<and> pd_last d \<le> b + psz"
    and reg: "\<And>r. r \<in> set rs \<Longrightarrow> \<exists>b\<in>set bs. \<exists>d. pm_data s b = Some d \<and> b + header pool b \<le> fst r \<and>
        fst r + snd r \<le> pd_last d"
    using assms(1) by (auto simp: blocks_ok_def)
  have ne: "bs \<noteq> []" using b(2) by auto
  have nl: "np \<noteq> last bs" using ne assms(2) by auto
  have keep: "\<exists>d'. pm_data s' b = Some d' \<and> pd_end d' = pd_end d \<and> pd_last d' = pd_last d"
    if "b \<in> set bs" "pm_data s b = Some d" for b d
    using that assms(2,6) by (auto simp: assms(8))
  have nx: "next_block s' = ((next_block s)(np := Some nullptr))(last bs \<mapsto> np)"
    using assms(6) nl by (auto simp: next_block_def assms(8) fun_eq_iff)
  have "lseg ((next_block s)(np := Some nullptr)) pool bs"
    by (rule lseg_cong [OF b(1)]) (use assms(2) in auto)
  hence seg: "lseg (next_block s') pool (bs @ [np])"
    unfolding nx using ne b(3) assms(2,3) by (intro lseg_append_one) auto
  have new: "pm_data s' np = Some \<lparr>pd_last = np + sizeof_pool_data_t + sz, pd_end = np + psz, pd_next = nullptr\<rparr>"
    using nl by (simp add: assms(8))
  have hdr: "header pool np = sizeof_pool_data_t" using assms(2) b(2) by (auto simp: header_def)
  show free: "\<forall>r\<in>set rs. apart (np + sizeof_pool_data_t, sz) r"
  proof
    fix r assume "r \<in> set rs"
    then obtain x d where x: "x \<in> set bs" "x \<le> fst r" "fst r + snd r \<le> x + psz"
      using reg dat by (metis add_leD1 le_trans option.sel)
    show "apart (np + sizeof_pool_data_t, sz) r" using assms(7) [OF x(1)] x assms(5) by (auto simp: apart_def)
  qed
  have "\<exists>b\<in>set (bs @ [np]). \<exists>d. pm_data s' b = Some d \<and> b + header pool b \<le> fst r \<and> fst r + snd r \<le> pd_last d"
    if r: "r \<in> set ((np + sizeof_pool_data_t, sz) # rs)" for r
  proof (cases "r = (np + sizeof_pool_data_t, sz)")
    case True
    thus ?thesis using new hdr by (intro bexI [of _ np]) auto
  next
    case False
    then obtain x d where x: "x \<in> set bs" "pm_data s x = Some d" "x + header pool x \<le> fst r" "fst r + snd r \<le> pd_last d"
      using r reg [of r] by auto
    thus ?thesis using keep [OF x(1,2)] by (intro bexI [of _ x]) auto
  qed
  moreover have "\<exists>d. pm_data s' x = Some d \<and> pd_end d = x + psz \<and> 8 dvd x \<and>
        x + header pool x \<le> pd_last d \<and> pd_last d \<le> x + psz" if "x \<in> set (bs @ [np])" for x
  proof (cases "x = np")
    case True
    thus ?thesis using new hdr assms(4,5) by simp
  next
    case False
    hence "x \<in> set bs" using that by simp
    thus ?thesis using dat [of x] keep [of x] by metis
  qed
  ultimately show "blocks_ok pool psz s' (bs @ [np]) ((np + sizeof_pool_data_t, sz) # rs)"
    unfolding blocks_ok_def using seg b assms(2) free by simp
qed

lemma new_block_ok:
  fixes t :: nat
  assumes "pool_ok pool psz s bs rs ns other" "pm_head s pool = Some h" "0 < sz" "sz \<le> p_max h"
    and "np \<noteq> nullptr" "8 dvd np" "live_ok ((np, psz) # pm_live s)"
  defines "nm \<equiv> dfs_align_ptr (np + sizeof_pool_data_t) DFS_ALIGNMENT"
  defines "s1 \<equiv> s\<lparr>pm_time := t, pm_live := (np, psz) # pm_live s,
     pm_data := (pm_data s)(np \<mapsto> \<lparr>pd_last = nm + sz, pd_end = np + psz, pd_next = nullptr\<rparr>)\<rparr>"
  shows "\<exists>c pd. last_block s1 (p_current h) nullptr = Some (last bs, c) \<and> pm_data s1 (last bs) = Some pd \<and>
     (let s' = s1\<lparr>pm_data := (pm_data s1)(last bs \<mapsto> pd\<lparr>pd_next := np\<rparr>),
                  pm_head := (pm_head s1)(pool \<mapsto> h\<lparr>p_current := (if c \<noteq> nullptr then c else np)\<rparr>)\<rparr> in
      nm \<noteq> nullptr \<and> 8 dvd nm \<and> pool_ok pool psz s' (bs @ [np]) ((nm, sz) # rs) ns other \<and>
      (\<forall>r\<in>in_use s rs ns. apart (nm, sz) r) \<and> large_region s' = large_region s \<and>
      pm_head s' pool = Some (h\<lparr>p_current := (if c \<noteq> nullptr then c else np)\<rparr>))"
proof -
  have core: "pool_core pool psz s bs rs ns other" and cur: "p_current h \<in> set bs"
    and mx: "p_max h + sizeof_pool_t \<le> psz" and lg: "lseg (next_large s) (p_large h) ns"
    using assms(1,2) by (auto simp: pool_ok_def)
  have bl: "blocks_ok pool psz s bs rs" using core by (simp add: pool_core_def)
  have np: "np + psz < 2 ^ 63" "\<And>q. q \<in> set (pm_live s) \<Longrightarrow> apart (np, psz) q" using assms(7) by (auto simp: live_ok_Cons)
  have nb: "np \<notin> set bs" using np(2) block_live [OF core] mx by (fastforce simp: apart_def sizeof_pool_t_def)
  have nm: "nm = np + sizeof_pool_data_t"
  proof -
    obtain k where "np = 8 * k" using assms(6) by blast
    thus ?thesis unfolding nm_def using np(1) by (subst align_8) (auto simp: sizeof_pool_data_t_def)
  qed
  have bsne: "bs \<noteq> []" using cur by auto
  have dat: "\<exists>d. pm_data s1 b = Some d \<and> pm_data s b = Some d" if "b \<in> set bs" for b
    using bl that nb unfolding blocks_ok_def by (auto simp: s1_def)
  have "lseg (next_block s1) pool bs"
    by (rule lseg_cong [of "next_block s"]) (use bl nb in \<open>auto simp: blocks_ok_def s1_def next_block_def\<close>)
  moreover obtain xs ys where bs: "bs = xs @ p_current h # ys" using split_list [OF cur] by blast
  ultimately have seg: "lseg (next_block s1) (p_current h) (p_current h # ys)" using lseg_suffix by blast
  obtain c where c: "last_block s1 (p_current h) nullptr = Some (last bs, c)" "c = nullptr \<or> c \<in> set bs"
    using last_block_result [OF seg, of nullptr] dat bs by fastforce
  obtain pd where pd: "pm_data s1 (last bs) = Some pd" "pm_data s (last bs) = Some pd"
    using dat [of "last bs"] bsne by auto
  define s' where "s' = s1\<lparr>pm_data := (pm_data s1)(last bs \<mapsto> pd\<lparr>pd_next := np\<rparr>),
    pm_head := (pm_head s1)(pool \<mapsto> h\<lparr>p_current := (if c \<noteq> nullptr then c else np)\<rparr>)\<rparr>"
  have fit: "sizeof_pool_data_t + sz \<le> psz" using mx assms(4) by (simp add: sizeof_pool_data_t_def sizeof_pool_t_def)
  have ap: "apart (np, psz) (b, psz)" if "b \<in> set bs" for b using np(2) block_live [OF core that] by blast
  have dat': "pm_data s' = (pm_data s)
           (np \<mapsto> \<lparr>pd_last = np + sizeof_pool_data_t + sz, pd_end = np + psz, pd_next = nullptr\<rparr>,
            last bs \<mapsto> pd\<lparr>pd_next := np\<rparr>)" by (simp add: s'_def s1_def nm)
  note ext = extend_blocks_ok [OF bl nb assms(5,6) fit pd(2) ap dat', folded nm]
  have same: "large_region s' = large_region s" "next_large s' = next_large s" "pm_live s' = (np, psz) # pm_live s"
    "pm_head s' pool = Some (h\<lparr>p_current := (if c \<noteq> nullptr then c else np)\<rparr>)"
    by (auto simp: s'_def s1_def large_region_def next_large_def fun_eq_iff)
  have "pool_core pool psz s' (bs @ [np]) ((nm, sz) # rs) ns other"
    using core assms(7) ext(1) same unfolding pool_core_def by auto
  hence ok: "pool_ok pool psz s' (bs @ [np]) ((nm, sz) # rs) ns other"
    unfolding pool_ok_def using same c(2) mx lg by auto
  have "apart (nm, sz) (large_region s n)" if "n \<in> set ns" for n
    using apart_sub [OF np(2) [OF large_live [OF core that]], of nm sz] fit nm by simp
  hence dis: "\<forall>r\<in>in_use s rs ns. apart (nm, sz) r" using ext(2) by (auto simp: in_use_def)
  have "nm \<noteq> nullptr" "8 dvd nm" using assms(5,6) nm by (auto simp: sizeof_pool_data_t_def)
  thus ?thesis unfolding Let_def
    using c(1) pd(1) ok dis same(1,4) by (intro exI [of _ c] exI [of _ pd], fold s'_def) blast
qed

lemma views_simps [simp]:
  "next_block (s\<lparr>pm_time := t\<rparr>) = next_block s" "next_large (s\<lparr>pm_time := t\<rparr>) = next_large s"
  "large_region (s\<lparr>pm_time := t\<rparr>) = large_region s" "next_block (s\<lparr>pm_live := v\<rparr>) = next_block s"
  "next_large (s\<lparr>pm_live := v\<rparr>) = next_large s" "large_region (s\<lparr>pm_live := v\<rparr>) = large_region s"
  "next_block (s\<lparr>pm_head := w\<rparr>) = next_block s" "next_large (s\<lparr>pm_head := w\<rparr>) = next_large s"
  "large_region (s\<lparr>pm_head := w\<rparr>) = large_region s" "next_block (s\<lparr>pm_large := x\<rparr>) = next_block s"
  by (auto simp: fun_eq_iff next_block_def next_large_def large_region_def)

lemma blocks_ok_simps [simp]:
  "blocks_ok pool psz (s\<lparr>pm_time := t\<rparr>) bs rs = blocks_ok pool psz s bs rs"
  "blocks_ok pool psz (s\<lparr>pm_live := v\<rparr>) bs rs = blocks_ok pool psz s bs rs"
  "blocks_ok pool psz (s\<lparr>pm_head := w\<rparr>) bs rs = blocks_ok pool psz s bs rs"
  "blocks_ok pool psz (s\<lparr>pm_large := x\<rparr>) bs rs = blocks_ok pool psz s bs rs"
  by (simp_all add: blocks_ok_def)

lemma pool_ok_time [simp]: "pool_ok pool psz (s\<lparr>pm_time := t\<rparr>) bs rs ns other = pool_ok pool psz s bs rs ns other"
  by (simp add: pool_ok_def pool_core_def)

section \<open>Freeing a live region\<close>

definition release :: "region \<Rightarrow> pmem \<Rightarrow> pmem" where
  "release r s = s\<lparr>pm_live := remove1 r (pm_live s), pm_data := outside r (pm_data s),
                  pm_head := outside r (pm_head s), pm_large := outside r (pm_large s)\<rparr>"

lemma find_live: "live_ok live \<Longrightarrow> r \<in> set live \<Longrightarrow> find (\<lambda>q. fst q = fst r) live = Some r"
proof (induction live)
  case (Cons q live)
  show ?case
  proof (cases "q = r")
    case False
    hence "apart q r" "0 < snd q" "0 < snd r" using Cons.prems by (auto simp: live_ok_def)
    hence "fst q \<noteq> fst r" by (auto simp: apart_def)
    thus ?thesis using Cons False by (simp add: live_ok_Cons)
  qed simp
qed simp

lemma memory_free_live:
  assumes "live_ok (pm_live s)" "r \<in> set (pm_live s)"
  shows "memory_free (fst r) s = Some (release r s)"
proof -
  have "fst r \<noteq> nullptr" using assms by (auto simp: live_ok_def)
  thus ?thesis using find_live [OF assms] by (simp add: memory_free_def release_def)
qed

lemma live_ok_remove1: "live_ok live \<Longrightarrow> live_ok (remove1 r live)"
proof -
  assume "live_ok live"
  moreover have "set (remove1 r live) \<subseteq> set live" by (rule set_remove1_subset)
  moreover have "sorted_wrt apart live \<Longrightarrow> sorted_wrt apart (remove1 r live)"
    using notin_set_remove1 by (induction live) fastforce+
  ultimately show ?thesis by (auto simp: live_ok_def)
qed

text \<open>An address in a region that is apart from \<open>r\<close> keeps its contents.\<close>

lemma outside_apart: "apart (b, k) r \<Longrightarrow> b \<le> x \<Longrightarrow> x < b + k \<Longrightarrow> outside r f x = f x"
  by (auto simp: outside_def apart_def)

lemma region_in_block:
  assumes "blocks_ok pool psz s bs rs" "r \<in> set rs"
  obtains b where "b \<in> set bs" "b < fst r" "fst r + snd r \<le> b + psz"
proof -
  obtain b d where "b \<in> set bs" "pm_data s b = Some d" "b + header pool b \<le> fst r" "fst r + snd r \<le> pd_last d"
    "pd_last d \<le> b + psz"
    using assms unfolding blocks_ok_def by fastforce
  thus thesis by (intro that [of b]) (auto simp: header_def sizeof_pool_t_def sizeof_pool_data_t_def split: if_splits)
qed

lemma blocks_ok_cong:
  assumes "blocks_ok pool psz s bs rs" "\<And>b. b \<in> set bs \<Longrightarrow> pm_data s' b = pm_data s b"
  shows "blocks_ok pool psz s' bs rs"
proof -
  have "lseg (next_block s') pool bs"
    by (rule lseg_cong [of "next_block s"]) (use assms in \<open>simp_all add: blocks_ok_def next_block_def\<close>)
  thus ?thesis using assms unfolding blocks_ok_def by simp
qed

lemma release_core:
  assumes "pool_core pool psz s bs rs ns (add_mset r other)"
  shows "pool_core pool psz (release r s) bs rs ns other"
    "\<And>b. b \<in> set bs \<Longrightarrow> pm_data (release r s) b = pm_data s b"
    "\<And>n. (n, sizeof_pool_large_t) \<in> set rs \<Longrightarrow> pm_large (release r s) n = pm_large s n"
    "pm_head (release r s) pool = pm_head s pool"
proof -
  have live: "live_ok (pm_live s)" and bl: "blocks_ok pool psz s bs rs"
    and m: "mset (pm_live s) = add_mset r (other + mset (map (\<lambda>b. (b, psz)) bs) + mset (map (large_region s) ns))"
    and nd: "\<And>n. n \<in> set ns \<Longrightarrow> (n, sizeof_pool_large_t) \<in> set rs"
    using assms by (auto simp: pool_core_def)
  have ap: "apart (b, psz) r" if "b \<in> set bs" for b
    using that m by (intro live_apart [OF live, of "other + mset (map (\<lambda>b. (b, psz)) bs) + mset (map (large_region s) ns)" "{#r#}"]) auto
  have psz: "0 < psz" using bl by (simp add: blocks_ok_def sizeof_pool_t_def)
  show dat: "pm_data (release r s) b = pm_data s b" if "b \<in> set bs" for b
    using outside_apart [OF ap [OF that], of b "pm_data s"] psz by (simp add: release_def)
  show "pm_head (release r s) pool = pm_head s pool"
    using outside_apart [OF ap [of pool], of pool "pm_head s"] bl psz by (simp add: release_def blocks_ok_def)
  show lar: "pm_large (release r s) n = pm_large s n" if n: "(n, sizeof_pool_large_t) \<in> set rs" for n
  proof -
    obtain b where b: "b \<in> set bs" "b < n" "n + sizeof_pool_large_t \<le> b + psz"
      using region_in_block [OF bl n] by auto
    hence "n < b + psz" by (simp add: sizeof_pool_large_t_def)
    thus ?thesis using outside_apart [OF ap [OF b(1)], of n "pm_large s"] b(2) by (simp add: release_def)
  qed
  have "blocks_ok pool psz (release r s) bs rs" by (rule blocks_ok_cong [OF bl dat])
  moreover have "mset (pm_live (release r s)) = other + mset (map (\<lambda>b. (b, psz)) bs) + mset (map (large_region (release r s)) ns)"
    using m lar [OF nd] by (simp add: release_def large_region_def cong: map_cong)
  moreover have "pm_live (release r s) = remove1 r (pm_live s)" by (simp add: release_def)
  ultimately show "pool_core pool psz (release r s) bs rs ns other"
    using live_ok_remove1 [OF live] nd by (simp add: pool_core_def)
qed

lemma release_ok:
  assumes "pool_ok pool psz s bs rs ns (add_mset r other)"
  shows "memory_free (fst r) s = Some (release r s)" "pool_ok pool psz (release r s) bs rs ns other"
    "in_use (release r s) rs ns = in_use s rs ns"
proof -
  have core: "pool_core pool psz s bs rs ns (add_mset r other)" using assms by (simp add: pool_ok_def)
  note rel = release_core [OF core]
  have "r \<in> set (pm_live s)" using core by (auto simp: pool_core_def simp flip: set_mset_mset)
  thus "memory_free (fst r) s = Some (release r s)" using core by (intro memory_free_live) (auto simp: pool_core_def)
  have nd: "\<And>n. n \<in> set ns \<Longrightarrow> (n, sizeof_pool_large_t) \<in> set rs" using core by (simp add: pool_core_def)
  have "lseg (next_large (release r s)) l ns" if "lseg (next_large s) l ns" for l
    using that by (rule lseg_cong) (simp add: next_large_def rel(3) nd)
  thus "pool_ok pool psz (release r s) bs rs ns other" using assms rel(1,4) by (auto simp: pool_ok_def)
  show "in_use (release r s) rs ns = in_use s rs ns" using rel(3) nd by (auto simp: in_use_def large_region_def)
qed

section \<open>Allocation from a pool\<close>

lemma pool_alloc_small:
  assumes os: "os_ok os" and ok: "pool_ok pool psz s bs rs ns other" and h: "pm_head s pool = Some h"
    and sz: "0 < sz" "sz \<le> p_max h"
  shows "\<exists>m s' bs' h'. pool_alloc os pool sz s = Some (m, s') \<and> pm_head s' pool = Some h' \<and> p_max h' = p_max h \<and>
     p_large h' = p_large h \<and> large_region s' = large_region s \<and>
     (m = nullptr \<and> pool_ok pool psz s' bs' rs ns other \<or>
      m \<noteq> nullptr \<and> 8 dvd m \<and> pool_ok pool psz s' bs' ((m, sz) # rs) ns other \<and>
      (\<forall>r\<in>in_use s rs ns. apart (m, sz) r))"
proof -
  have core: "pool_core pool psz s bs rs ns other" using ok by (simp add: pool_ok_def)
  have pool: "pool \<in> set bs" using core by (simp add: pool_core_def blocks_ok_def)
  have pn: "pool \<noteq> nullptr" using block_limit [OF core pool] by simp
  obtain d where d: "pm_data s pool = Some d" "pd_end d = pool + psz"
    using core pool by (auto simp: pool_core_def blocks_ok_def)
  from alloc_scan_ok [OF ok h sz(1)] show ?thesis
  proof (elim disjE exE conjE)
    fix m s'
    assume "alloc_scan (p_current h) sz s = Some (Some m, s')" "m \<noteq> nullptr" "8 dvd m"
      "pool_ok pool psz s' bs ((m, sz) # rs) ns other" "\<forall>r\<in>in_use s rs ns. apart (m, sz) r"
      "large_region s' = large_region s" "pm_head s' = pm_head s"
    thus ?thesis using pn h sz by (subst pool_alloc.simps) fastforce
  next
    assume scan: "alloc_scan (p_current h) sz s = Some (None, s)"
    hence "pool_alloc os pool sz s = pool_alloc_block os pool sz s"
      using pn h sz by (subst pool_alloc.simps) simp
    moreover have "live_ok (pm_live s)" using core by (simp add: pool_core_def)
    from os this have ?thesis
      if eq: "pool_alloc os pool sz s = pool_alloc_block os pool sz s"
    proof (cases rule: memory_alloc_cases [of os s psz])
      case (1 t)
      hence "pool_alloc_block os pool sz s = Some (nullptr, s\<lparr>pm_time := t\<rparr>)"
        using pn sz d by (simp add: pool_alloc_block_def)
      thus ?thesis using eq ok h by (intro exI [of _ nullptr] exI [of _ "s\<lparr>pm_time := t\<rparr>"] exI [of _ bs] exI [of _ h]) simp
    next
      case (2 np t)
      define nm where "nm = dfs_align_ptr (np + sizeof_pool_data_t) DFS_ALIGNMENT"
      define s1 where "s1 = s\<lparr>pm_time := t, pm_live := (np, psz) # pm_live s,
        pm_data := (pm_data s)(np \<mapsto> \<lparr>pd_last = nm + sz, pd_end = np + psz, pd_next = nullptr\<rparr>)\<rparr>"
      obtain c pd s' where nb: "last_block s1 (p_current h) nullptr = Some (last bs, c)"
        "pm_data s1 (last bs) = Some pd"
        "s' = s1\<lparr>pm_data := (pm_data s1)(last bs \<mapsto> pd\<lparr>pd_next := np\<rparr>),
           pm_head := (pm_head s1)(pool \<mapsto> h\<lparr>p_current := (if c \<noteq> nullptr then c else np)\<rparr>)\<rparr>"
        "nm \<noteq> nullptr" "8 dvd nm" "pool_ok pool psz s' (bs @ [np]) ((nm, sz) # rs) ns other"
        "\<forall>r\<in>in_use s rs ns. apart (nm, sz) r" "large_region s' = large_region s"
        "pm_head s' pool = Some (h\<lparr>p_current := (if c \<noteq> nullptr then c else np)\<rparr>)"
        using new_block_ok [OF ok h sz 2(2,4,3), of t] unfolding nm_def [symmetric] s1_def [symmetric] Let_def by blast
      have "pool_alloc_block os pool sz s = Some (nm, s')"
        using pn sz d 2(1,2) h nb(1,2) unfolding nb(3) s1_def
        by (cases "last bs = np") (auto simp: pool_alloc_block_def Let_def nm_def [symmetric])
      thus ?thesis using eq nb(4-9)
        by (intro exI [of _ nm] exI [of _ s'] exI [of _ "bs @ [np]"]
            exI [of _ "h\<lparr>p_current := (if c \<noteq> nullptr then c else np)\<rparr>"]) simp
    qed
    ultimately show ?thesis by blast
  qed
qed

lemma large_live_apart:
  assumes "pool_core pool psz s bs rs ns other" "\<forall>q\<in>set (pm_live s). apart r q"
  shows "\<forall>q\<in>in_use s rs ns. apart r q"
proof
  fix q assume q: "q \<in> in_use s rs ns"
  show "apart r q"
  proof (cases "q \<in> set rs")
    case True
    obtain b where b: "b \<in> set bs" "b < fst q" "fst q + snd q \<le> b + psz"
      using region_in_block True assms(1) unfolding pool_core_def by metis
    have "apart (b, psz) r" using assms(2) block_live [OF assms(1) b(1)] apart_sym by blast
    thus ?thesis using b by (auto simp: apart_def)
  next
    case False
    thus ?thesis using q large_live [OF assms(1)] assms(2) by (auto simp: in_use_def)
  qed
qed

lemma link_large_ok:
  assumes ok: "pool_ok pool psz s bs ((l, sizeof_pool_large_t) # rs) ns (add_mset (p, n) other)"
    and h: "pm_head s pool = Some h" and l: "l \<noteq> nullptr" "\<forall>r\<in>in_use s rs ns. apart (l, sizeof_pool_large_t) r"
    and nd: "\<forall>n\<in>set ns. (n, sizeof_pool_large_t) \<in> set rs"
  shows "\<exists>s'. link_large pool l p n s = Some s' \<and>
      pool_ok pool psz s' bs ((l, sizeof_pool_large_t) # rs) (l # ns) other \<and>
      pm_head s' pool = Some (h\<lparr>p_large := l\<rparr>) \<and> large_region s' l = (p, n) \<and>
      (\<forall>x\<in>set ns. large_region s' x = large_region s x)"
proof -
  define s' where "s' = s\<lparr>pm_large := (pm_large s)(l \<mapsto> \<lparr>pl_alloc = p, pl_size = n, pl_next = p_large h\<rparr>),
      pm_head := (pm_head s)(pool \<mapsto> h\<lparr>p_large := l\<rparr>)\<rparr>"
  have "l \<notin> set ns"
  proof
    assume "l \<in> set ns"
    hence "(l, sizeof_pool_large_t) \<in> in_use s rs ns" using nd by (auto simp: in_use_def)
    hence "apart (l, sizeof_pool_large_t) (l, sizeof_pool_large_t)" using l(2) by blast
    thus False by (simp add: apart_def sizeof_pool_large_t_def)
  qed
  hence reg: "large_region s' l = (p, n)" "\<forall>x\<in>set ns. large_region s' x = large_region s x"
    and nx: "\<And>x. x \<in> set ns \<Longrightarrow> next_large s' x = next_large s x"
    by (auto simp: s'_def large_region_def next_large_def)
  have lg: "lseg (next_large s) (p_large h) ns" "pool_core pool psz s bs ((l, sizeof_pool_large_t) # rs) ns (add_mset (p, n) other)"
    and hd: "p_current h \<in> set bs" "p_max h + sizeof_pool_t \<le> psz"
    using ok h by (auto simp: pool_ok_def)
  have seg: "lseg (next_large s') (p_large h) ns" by (rule lseg_cong [OF lg(1) nx])
  have same: "pm_live s' = pm_live s" "blocks_ok pool psz s' bs rs' = blocks_ok pool psz s bs rs'" for rs'
    by (simp_all add: s'_def)
  have "mset (map (large_region s') ns) = mset (map (large_region s) ns)" using reg(2) by (simp cong: map_cong)
  hence "pool_core pool psz s' bs ((l, sizeof_pool_large_t) # rs) (l # ns) other"
    using lg reg(1) nd same by (auto simp: pool_core_def)
  moreover have "next_large s' l = Some (p_large h)" "pm_head s' pool = Some (h\<lparr>p_large := l\<rparr>)"
    by (simp_all add: s'_def next_large_def)
  ultimately have "pool_ok pool psz s' bs ((l, sizeof_pool_large_t) # rs) (l # ns) other"
    using hd seg l(1) by (simp add: pool_ok_def)
  moreover have "link_large pool l p n s = Some s'" using h by (simp add: link_large_def s'_def)
  moreover have "pm_head s' pool = Some (h\<lparr>p_large := l\<rparr>)" by (simp add: s'_def)
  ultimately show ?thesis using reg by blast
qed

text \<open>What an allocation of \<open>sz\<close> bytes with alignment \<open>al\<close> from state \<open>s\<close> to \<open>s'\<close> may do: fail, or hand out an aligned region that
  is apart from all in use.\<close>

definition allocated ::
  "addr \<Rightarrow> nat \<Rightarrow> pmem \<Rightarrow> region set \<Rightarrow> nat \<Rightarrow> region multiset \<Rightarrow> nat \<Rightarrow> nat \<Rightarrow> addr \<Rightarrow> pmem \<Rightarrow> bool" where
  "allocated pool psz s used mx other al sz m s' \<longleftrightarrow>
     (\<exists>bs rs ns h. pool_ok pool psz s' bs rs ns other \<and> pm_head s' pool = Some h \<and> p_max h = mx \<and>
        used \<subseteq> in_use s' rs ns \<and>
        (m \<noteq> nullptr \<longrightarrow> al dvd m \<and> (m, sz) \<in> in_use s' rs ns \<and> (\<forall>r\<in>used. apart (m, sz) r)))"

lemma in_use_cong: "large_region s' = large_region s \<Longrightarrow> in_use s' rs ns = in_use s rs ns"
  by (simp add: in_use_def)

text \<open>A large allocation: the region from the C library, then a node from the pool.\<close>

lemma large_node_ok:
  fixes t :: nat
  assumes os: "os_ok os" and ok: "pool_ok pool psz s bs rs ns other" and h: "pm_head s pool = Some h"
    and mx: "sizeof_pool_large_t \<le> p_max h"
    and p: "p \<noteq> nullptr" "al dvd p" "live_ok ((p, sz) # pm_live s)"
  defines "s1 \<equiv> s\<lparr>pm_time := t, pm_live := (p, sz) # pm_live s\<rparr>"
  shows "\<exists>l s2. pool_alloc os pool sizeof_pool_large_t s1 = Some (l, s2) \<and>
     (if l = nullptr
      then \<exists>s3. memory_free p s2 = Some s3 \<and> allocated pool psz s (in_use s rs ns) (p_max h) other al sz nullptr s3
      else \<exists>s3. link_large pool l p sz s2 = Some s3 \<and> allocated pool psz s (in_use s rs ns) (p_max h) other al sz p s3)"
proof -
  have core: "pool_core pool psz s bs rs ns other" using ok by (simp add: pool_ok_def)
  have nd: "\<forall>n\<in>set ns. (n, sizeof_pool_large_t) \<in> set rs" using core by (simp add: pool_core_def)
  have ok1: "pool_ok pool psz s1 bs rs ns (add_mset (p, sz) other)" and h1: "pm_head s1 pool = Some h"
    and u1: "in_use s1 rs ns = in_use s rs ns" and l1: "large_region s1 = large_region s"
    using ok h p(3) by (auto simp: s1_def pool_ok_def pool_core_def in_use_def)
  have pap: "\<forall>q\<in>in_use s rs ns. apart (p, sz) q"
    using large_live_apart [OF core] p(3) by (simp add: live_ok_Cons)
  obtain l s2 bs2 h2 where a: "pool_alloc os pool sizeof_pool_large_t s1 = Some (l, s2)" "pm_head s2 pool = Some h2"
    "p_max h2 = p_max h" "large_region s2 = large_region s1"
    "l = nullptr \<and> pool_ok pool psz s2 bs2 rs ns (add_mset (p, sz) other) \<or>
     l \<noteq> nullptr \<and> pool_ok pool psz s2 bs2 ((l, sizeof_pool_large_t) # rs) ns (add_mset (p, sz) other) \<and>
     (\<forall>r\<in>in_use s1 rs ns. apart (l, sizeof_pool_large_t) r)"
    using pool_alloc_small [OF os ok1 h1 _ mx] by (auto simp: sizeof_pool_large_t_def)
  have u2: "in_use s2 rs ns = in_use s rs ns" using a(4) u1 in_use_cong by metis
  show ?thesis
  proof (cases "l = nullptr")
    case True
    note r = release_ok [of pool psz s2 bs2 rs ns "(p, sz)" other]
    have f: "memory_free p s2 = Some (release (p, sz) s2)" "pool_ok pool psz (release (p, sz) s2) bs2 rs ns other"
      "in_use (release (p, sz) s2) rs ns = in_use s rs ns"
      using r a(5) True u2 by auto
    have "pm_head (release (p, sz) s2) pool = Some h2"
      using release_core(4) [of pool psz s2 bs2 rs ns "(p, sz)" other] a(2,5) True by (simp add: pool_ok_def)
    hence "allocated pool psz s (in_use s rs ns) (p_max h) other al sz nullptr (release (p, sz) s2)"
      using f a(3) unfolding allocated_def by blast
    thus ?thesis using a(1) f(1) True by auto
  next
    case False
    obtain s3 where s3: "link_large pool l p sz s2 = Some s3"
      "pool_ok pool psz s3 bs2 ((l, sizeof_pool_large_t) # rs) (l # ns) other"
      "pm_head s3 pool = Some (h2\<lparr>p_large := l\<rparr>)" "large_region s3 l = (p, sz)"
      "\<forall>x\<in>set ns. large_region s3 x = large_region s2 x"
      using link_large_ok [of pool psz s2 bs2 l rs ns p sz other h2] a u1 u2 nd False by auto
    have "in_use s rs ns \<subseteq> in_use s3 ((l, sizeof_pool_large_t) # rs) (l # ns)"
      "(p, sz) \<in> in_use s3 ((l, sizeof_pool_large_t) # rs) (l # ns)"
      using s3(4,5) a(4) l1 by (auto simp: in_use_def image_iff)
    hence "allocated pool psz s (in_use s rs ns) (p_max h) other al sz p s3"
      unfolding allocated_def using s3(2,3) a(3) p(2) pap
      by (intro exI [of _ bs2] exI [of _ "(l, sizeof_pool_large_t) # rs"] exI [of _ "l # ns"]
          exI [of _ "h2\<lparr>p_large := l\<rparr>"]) simp
    thus ?thesis using a(1) s3(1) False by auto
  qed
qed

lemma pool_alloc_ok:
  assumes os: "os_ok os" and ok: "pool_ok pool psz s bs rs ns other" and h: "pm_head s pool = Some h"
    and mx: "sizeof_pool_large_t \<le> p_max h" and sz: "0 < sz"
  shows "\<exists>m s'. pool_alloc os pool sz s = Some (m, s') \<and>
     allocated pool psz s (in_use s rs ns) (p_max h) other 8 sz m s'"
proof (cases "sz \<le> p_max h")
  case True
  obtain m s' bs' h' where a: "pool_alloc os pool sz s = Some (m, s')" "pm_head s' pool = Some h'"
    "p_max h' = p_max h" "large_region s' = large_region s"
    "m = nullptr \<and> pool_ok pool psz s' bs' rs ns other \<or>
     m \<noteq> nullptr \<and> 8 dvd m \<and> pool_ok pool psz s' bs' ((m, sz) # rs) ns other \<and>
     (\<forall>r\<in>in_use s rs ns. apart (m, sz) r)"
    using pool_alloc_small [OF os ok h sz True] by auto
  have "in_use s rs ns \<subseteq> in_use s' ((m, sz) # rs) ns" "(m, sz) \<in> in_use s' ((m, sz) # rs) ns"
    "in_use s' rs ns = in_use s rs ns"
    using a(4) by (auto simp: in_use_def)
  hence "allocated pool psz s (in_use s rs ns) (p_max h) other 8 sz m s'"
    using a(2,3,5) unfolding allocated_def by (elim disjE) (metis order_refl)+
  thus ?thesis using a(1) by blast
next
  case False
  have core: "pool_core pool psz s bs rs ns other" using ok by (simp add: pool_ok_def)
  have pn: "pool \<noteq> nullptr" using block_limit [OF core, of pool] core by (simp add: pool_core_def blocks_ok_def)
  have live: "live_ok (pm_live s)" using core by (simp add: pool_core_def)
  have eq: "pool_alloc os pool sz s = (case memory_alloc os sz s of (p, s) \<Rightarrow>
       if p = nullptr then Some (nullptr, s)
       else do { (large, s) \<leftarrow> pool_alloc os pool sizeof_pool_large_t s;
                 if large = nullptr then do { s \<leftarrow> memory_free p s; Some (nullptr, s) }
                 else do { s \<leftarrow> link_large pool large p sz s; Some (p, s) } })"
    using pn h sz False by (subst pool_alloc.simps) simp
  from os live show ?thesis
  proof (cases rule: memory_alloc_cases [of os s sz])
    case (1 t)
    have "in_use (s\<lparr>pm_time := t\<rparr>) rs ns = in_use s rs ns" by (simp add: in_use_def)
    hence "allocated pool psz s (in_use s rs ns) (p_max h) other 8 sz nullptr (s\<lparr>pm_time := t\<rparr>)"
      unfolding allocated_def using ok h
      by (intro exI [of _ bs] exI [of _ rs] exI [of _ ns] exI [of _ h]) simp
    thus ?thesis using 1 eq by simp
  next
    case (2 p t)
    thus ?thesis using large_node_ok [OF os ok h mx 2(2,4,3), of t] unfolding eq
      by (auto split: if_splits)
  qed
qed

section \<open>Creation and destruction\<close>

lemma pool_create_ok:
  assumes os: "os_ok os" and live: "live_ok (pm_live s)"
    and c: "pool_create os sz max_size s = (pool, s')" "pool \<noteq> nullptr"
  defines "psz \<equiv> if sz < sizeof_pool_t then sz + sizeof_pool_t else sz"
  shows "pool_ok pool psz s' [pool] [] [] (mset (pm_live s))"
    "pm_head s' pool = Some \<lparr>p_max = min (psz - sizeof_pool_t) max_size, p_current = pool, p_large = nullptr\<rparr>"
proof -
  have sz: "sz \<noteq> 0" using c by (cases "sz = 0") (simp_all add: pool_create_def)
  from os live show "pool_ok pool psz s' [pool] [] [] (mset (pm_live s))"
    "pm_head s' pool = Some \<lparr>p_max = min (psz - sizeof_pool_t) max_size, p_current = pool, p_large = nullptr\<rparr>"
    by (cases rule: memory_alloc_cases [of os s psz];
        use c sz in \<open>auto simp: pool_create_def psz_def [symmetric] Let_def pool_ok_def pool_core_def
          blocks_ok_def next_block_def header_def\<close>;
        simp add: psz_def split: if_splits)+
qed

lemma free_large_ok:
  "pool_core pool psz s bs rs ns other \<Longrightarrow> lseg (next_large s) l ns \<Longrightarrow>
   \<exists>s'. free_large False l s = Some s' \<and> pool_core pool psz s' bs rs [] other \<and>
        (\<forall>b\<in>set bs. pm_data s' b = pm_data s b)"
proof (induction ns arbitrary: l s)
  case Nil
  thus ?case by (subst free_large.simps) simp
next
  case (Cons n ns)
  let ?r = "large_region s n"
  have core: "pool_core pool psz s bs rs ns (add_mset ?r other)"
    and nd: "\<And>x. x \<in> set (n # ns) \<Longrightarrow> (x, sizeof_pool_large_t) \<in> set rs"
    and live: "live_ok (pm_live s)" using Cons.prems(1) by (auto simp: pool_core_def)
  obtain d where d: "l = n" "n \<noteq> nullptr" "pm_large s n = Some d" "lseg (next_large s) (pl_next d) ns"
    using Cons.prems(2) by (auto simp: next_large_Some)
  have r: "?r \<in> set (pm_live s)" "fst ?r = pl_alloc d"
    using large_live [OF Cons.prems(1), of n] d(3) by (auto simp: large_region_def)
  hence nz: "pl_alloc d \<noteq> nullptr" using live by (auto simp: live_ok_def)
  have fr: "memory_free (pl_alloc d) s = Some (release ?r s)" using memory_free_live [OF live r(1)] r(2) by simp
  note rel = release_core [OF core]
  have "lseg (next_large (release ?r s)) (pl_next d) ns"
    using d(4) by (rule lseg_cong) (use rel(3) nd in \<open>simp add: next_large_def\<close>)
  then obtain s' where s': "free_large False (pl_next d) (release ?r s) = Some s'" "pool_core pool psz s' bs rs [] other"
    "\<forall>b\<in>set bs. pm_data s' b = pm_data (release ?r s) b"
    using Cons.IH [OF rel(1)] by blast
  have "pm_large (release ?r s) n = Some d" using rel(3) [of n] nd d(3) by simp
  hence "free_large False l s = Some s'"
    using d nz fr s'(1) by (subst free_large.simps) (simp add: Let_def)
  thus ?case using s' rel(2) by auto
qed

lemma free_blocks_ok:
  "live_ok (pm_live s) \<Longrightarrow> 0 < psz \<Longrightarrow> mset (pm_live s) = other + mset (map (\<lambda>b. (b, psz)) (p # bs)) \<Longrightarrow>
   lseg (next_block s) n bs \<Longrightarrow> \<exists>s'. free_blocks p n s = Some s' \<and> mset (pm_live s') = other"
proof (induction bs arbitrary: p n s)
  case Nil
  have "(p, psz) \<in> set (pm_live s)" using Nil.prems(3) by (auto simp flip: set_mset_mset)
  hence "memory_free p s = Some (release (p, psz) s)" using memory_free_live [OF Nil.prems(1)] by fastforce
  thus ?case using Nil.prems(3,4) by (subst free_blocks.simps) (simp add: release_def)
next
  case (Cons b bs)
  let ?s = "release (p, psz) s"
  have m: "mset (pm_live s) = {#(p, psz)#} + (other + mset (map (\<lambda>b. (b, psz)) (b # bs)))"
    using Cons.prems(3) by simp
  have "(p, psz) \<in> set (pm_live s)" using m by (auto simp flip: set_mset_mset)
  hence fr: "memory_free p s = Some ?s" using memory_free_live [OF Cons.prems(1)] by fastforce
  have keep: "pm_data ?s x = pm_data s x" if "x \<in> set (b # bs)" for x
  proof -
    have "apart (p, psz) (x, psz)" by (rule live_apart [OF Cons.prems(1) m]) (use that in auto)
    hence "outside (p, psz) (pm_data s) x = pm_data s x"
      using Cons.prems(2) by (intro outside_apart [of x psz]) (auto simp: apart_sym)
    thus ?thesis by (simp add: release_def)
  qed
  obtain d where d: "n = b" "b \<noteq> nullptr" "pm_data s b = Some d" "lseg (next_block s) (pd_next d) bs"
    using Cons.prems(4) by (auto simp: next_block_Some)
  have "lseg (next_block ?s) (pd_next d) bs"
    using d(4) by (rule lseg_cong) (use keep in \<open>simp add: next_block_def\<close>)
  moreover have "live_ok (pm_live ?s)" using live_ok_remove1 [OF Cons.prems(1)] by (simp add: release_def)
  moreover have "mset (pm_live ?s) = other + mset (map (\<lambda>b. (b, psz)) (b # bs))" using m by (simp add: release_def)
  ultimately obtain s' where "free_blocks b (pd_next d) ?s = Some s'" "mset (pm_live s') = other"
    using Cons.IH [of ?s b "pd_next d"] Cons.prems(2) by blast
  thus ?case using fr d keep by (subst free_blocks.simps) simp
qed

lemma pool_destroy_ok:
  assumes "pool_ok pool psz s bs rs ns other"
  shows "\<exists>s'. pool_destroy pool s = Some s' \<and> mset (pm_live s') = other"
proof -
  obtain h where h: "pm_head s pool = Some h" "lseg (next_large s) (p_large h) ns"
    and core: "pool_core pool psz s bs rs ns other"
    using assms by (auto simp: pool_ok_def)
  obtain s1 where s1: "free_large False (p_large h) s = Some s1" "pool_core pool psz s1 bs rs [] other"
    using free_large_ok [OF core h(2)] by blast
  obtain bs' where bs: "bs = pool # bs'" "pool \<noteq> nullptr"
    using s1(2) by (cases bs) (auto simp: pool_core_def blocks_ok_def)
  then obtain d where d: "pm_data s1 pool = Some d" "lseg (next_block s1) (pd_next d) bs'"
    using s1(2) by (auto simp: pool_core_def blocks_ok_def next_block_Some)
  have "0 < psz" "live_ok (pm_live s1)" "mset (pm_live s1) = other + mset (map (\<lambda>b. (b, psz)) (pool # bs'))"
    using s1(2) bs by (auto simp: pool_core_def blocks_ok_def sizeof_pool_t_def)
  then obtain s' where "free_blocks pool (pd_next d) s1 = Some s'" "mset (pm_live s') = other"
    using free_blocks_ok [of s1 psz other pool bs' "pd_next d"] d(2) by blast
  thus ?thesis using h(1) s1(1) d(1) bs(2) by (simp add: pool_destroy_def)
qed

section \<open>Sequences of allocations\<close>

datatype pop = Alloc nat | Memalign nat nat

primrec pop_size :: "pop \<Rightarrow> nat" where
  "pop_size (Alloc n) = n"
| "pop_size (Memalign n al) = n"

text \<open>What the caller may rely on: pointers from the blocks are aligned to the word, others as asked.\<close>

primrec pop_align :: "pop \<Rightarrow> nat" where
  "pop_align (Alloc n) = 8"
| "pop_align (Memalign n al) = al"

primrec pool_op :: "os \<Rightarrow> addr \<Rightarrow> pop \<Rightarrow> pmem \<Rightarrow> (addr \<times> pmem) option" where
  "pool_op os pool (Alloc n) s = pool_alloc os pool n s"
| "pool_op os pool (Memalign n al) s = pool_memalign os pool n al s"

fun pool_run :: "os \<Rightarrow> addr \<Rightarrow> pop list \<Rightarrow> pmem \<Rightarrow> (addr list \<times> pmem) option" where
  "pool_run os pool [] s = Some ([], s)"
| "pool_run os pool (op # ops) s =
     do { (m, s) \<leftarrow> pool_op os pool op s; (ms, s) \<leftarrow> pool_run os pool ops s; Some (m # ms, s) }"

text \<open>The regions that were handed out: the results that are not null.\<close>

definition handed :: "pop list \<Rightarrow> addr list \<Rightarrow> region list" where
  "handed ops ms = filter (\<lambda>r. fst r \<noteq> nullptr) (zip ms (map pop_size ops))"

lemma pool_memalign_ok:
  assumes os: "os_ok os" and ok: "pool_ok pool psz s bs rs ns other" and h: "pm_head s pool = Some h"
    and mx: "sizeof_pool_large_t \<le> p_max h"
  shows "\<exists>m s'. pool_memalign os pool sz al s = Some (m, s') \<and>
     allocated pool psz s (in_use s rs ns) (p_max h) other al sz m s'"
proof -
  have live: "live_ok (pm_live s)" using ok by (simp add: pool_ok_def pool_core_def)
  from os live show ?thesis
  proof (cases rule: memory_memalign_cases [of os s al sz])
    case (1 t)
    have "in_use (s\<lparr>pm_time := t\<rparr>) rs ns = in_use s rs ns" by (simp add: in_use_def)
    hence "allocated pool psz s (in_use s rs ns) (p_max h) other al sz nullptr (s\<lparr>pm_time := t\<rparr>)"
      unfolding allocated_def using ok h
      by (intro exI [of _ bs] exI [of _ rs] exI [of _ ns] exI [of _ h]) simp
    thus ?thesis using 1 by (simp add: pool_memalign_def)
  next
    case (2 p t)
    thus ?thesis using large_node_ok [OF os ok h mx 2(2,4,3), of t]
      by (auto simp: pool_memalign_def split: if_splits)
  qed
qed

lemma pool_op_ok:
  assumes os: "os_ok os" and ok: "pool_ok pool psz s bs rs ns other" and h: "pm_head s pool = Some h"
    and mx: "sizeof_pool_large_t \<le> p_max h"
  shows "\<exists>m s'. pool_op os pool op s = Some (m, s') \<and>
     allocated pool psz s (in_use s rs ns) (p_max h) other (pop_align op) (pop_size op) m s'"
proof (cases op)
  case (Alloc n)
  show ?thesis
  proof (cases "n = 0")
    case True
    have "allocated pool psz s (in_use s rs ns) (p_max h) other 8 0 nullptr s"
      unfolding allocated_def using ok h by blast
    thus ?thesis using Alloc True by (simp add: pool_alloc.simps)
  next
    case False
    thus ?thesis using pool_alloc_ok [OF os ok h mx, of n] Alloc by simp
  qed
next
  case (Memalign n al)
  thus ?thesis using pool_memalign_ok [OF os ok h mx, of n al] by simp
qed

lemma pool_run_ok:
  assumes "os_ok os" "pool_ok pool psz s bs rs ns other" "pm_head s pool = Some h" "sizeof_pool_large_t \<le> p_max h"
  shows "\<exists>ms s' bs' rs' ns'. pool_run os pool ops s = Some (ms, s') \<and> pool_ok pool psz s' bs' rs' ns' other \<and>
     sorted_wrt apart (handed ops ms) \<and> in_use s rs ns \<union> set (handed ops ms) \<subseteq> in_use s' rs' ns' \<and>
     (\<forall>r\<in>set (handed ops ms). \<forall>q\<in>in_use s rs ns. apart r q) \<and> list_all2 (\<lambda>op m. pop_align op dvd m) ops ms"
  using assms(2-4)
proof (induction ops arbitrary: s bs rs ns h)
  case Nil
  thus ?case by (fastforce simp: handed_def)
next
  case (Cons op ops)
  obtain m s1 where m: "pool_op os pool op s = Some (m, s1)"
    "allocated pool psz s (in_use s rs ns) (p_max h) other (pop_align op) (pop_size op) m s1"
    using pool_op_ok [OF assms(1) Cons.prems(1-3), of op] by auto
  then obtain bs1 rs1 ns1 h1 where a: "pool_ok pool psz s1 bs1 rs1 ns1 other" "pm_head s1 pool = Some h1"
    "p_max h1 = p_max h" "in_use s rs ns \<subseteq> in_use s1 rs1 ns1"
    "m \<noteq> nullptr \<Longrightarrow> pop_align op dvd m \<and> (m, pop_size op) \<in> in_use s1 rs1 ns1 \<and> (\<forall>r\<in>in_use s rs ns. apart (m, pop_size op) r)"
    unfolding allocated_def by blast
  obtain ms s' bs' rs' ns' where r: "pool_run os pool ops s1 = Some (ms, s')" "pool_ok pool psz s' bs' rs' ns' other"
    "sorted_wrt apart (handed ops ms)" "in_use s1 rs1 ns1 \<union> set (handed ops ms) \<subseteq> in_use s' rs' ns'"
    "\<forall>r\<in>set (handed ops ms). \<forall>q\<in>in_use s1 rs1 ns1. apart r q" "list_all2 (\<lambda>op m. pop_align op dvd m) ops ms"
    using Cons.IH [OF a(1,2)] a(3) Cons.prems(3) by auto
  have H: "handed (op # ops) (m # ms) = (if m = nullptr then handed ops ms else (m, pop_size op) # handed ops ms)"
    by (simp add: handed_def)
  have "pool_run os pool (op # ops) s = Some (m # ms, s')" using m(1) r(1) by simp
  moreover have "sorted_wrt apart (handed (op # ops) (m # ms))"
    unfolding H using r(3,5) a(5) by (auto simp: apart_sym)
  moreover have "in_use s rs ns \<union> set (handed (op # ops) (m # ms)) \<subseteq> in_use s' rs' ns'"
    unfolding H using r(4) a(4,5) by auto
  moreover have "\<forall>r\<in>set (handed (op # ops) (m # ms)). \<forall>q\<in>in_use s rs ns. apart r q"
    unfolding H using r(5) a(4,5) by auto
  moreover have "list_all2 (\<lambda>op m. pop_align op dvd m) (op # ops) (m # ms)"
    using r(6) a(5) by (cases "m = nullptr") simp_all
  ultimately show ?case using r(2) by blast
qed

lemma in_use_other:
  assumes "pool_core pool psz s bs rs ns other" "r \<in> in_use s rs ns" "q \<in># other"
  shows "apart r q"
proof (cases "r \<in> set rs")
  case True
  obtain b where b: "b \<in> set bs" "b < fst r" "fst r + snd r \<le> b + psz"
    using region_in_block True assms(1) unfolding pool_core_def by metis
  have "apart (b, psz) q"
    by (rule live_apart [of "pm_live s" "mset (map (\<lambda>b. (b, psz)) bs) + mset (map (large_region s) ns)" other])
      (use assms b(1) in \<open>auto simp: pool_core_def\<close>)
  thus ?thesis using b by (auto simp: apart_def)
next
  case False
  then obtain n where "n \<in> set ns" "r = large_region s n" using assms(2) by (auto simp: in_use_def)
  thus ?thesis
    by (intro live_apart [of "pm_live s" "mset (map (\<lambda>b. (b, psz)) bs) + mset (map (large_region s) ns)" other])
      (use assms in \<open>auto simp: pool_core_def\<close>)
qed

section \<open>Properties\<close>

text \<open>C18: The life of a memory pool that was created with at least 80 bytes (its head of 56 and one node of 24) and a limit
  \<^verbatim>\<open>max_size\<close> of at least 24 bytes for what is cut from a block; with less, a large allocation recurses without end
  (\<open>pool_alloc_small_pool_diverges\<close>). Whatever the C library answers within its promise, failures included, every
  sequence of \<^verbatim>\<open>pool_alloc\<close> and \<^verbatim>\<open>pool_memalign\<close> calls returns. The pointers of \<^verbatim>\<open>pool_alloc\<close> are multiples of eight, those of
  \<^verbatim>\<open>pool_memalign\<close> multiples of the alignment asked for (null being one of both); the regions handed out do not overlap each
  other, nor any block that was live before the pool was created; and destroying the pool then gives back exactly what it took:
  no block is freed twice and none is left.\<close>

theorem pool_lifecycle:
  assumes "os_ok os" "live_ok (pm_live s0)"
    and "pool_create os sz max_size s0 = (pool, s1)" "pool \<noteq> nullptr"
    and "sizeof_pool_t + sizeof_pool_large_t \<le> sz" "sizeof_pool_large_t \<le> max_size"
  shows "\<exists>ms s2 s3. pool_run os pool ops s1 = Some (ms, s2) \<and> list_all2 (\<lambda>op m. pop_align op dvd m) ops ms \<and>
     sorted_wrt apart (handed ops ms) \<and> (\<forall>r\<in>set (handed ops ms). \<forall>q\<in>set (pm_live s0). apart r q) \<and>
     pool_destroy pool s2 = Some s3 \<and> mset (pm_live s3) = mset (pm_live s0)"
proof -
  let ?psz = "if sz < sizeof_pool_t then sz + sizeof_pool_t else sz"
  note c = pool_create_ok [OF assms(1-4)]
  have "sizeof_pool_large_t \<le> min (?psz - sizeof_pool_t) max_size" using assms(5,6) by simp
  then obtain ms s2 bs rs ns where r: "pool_run os pool ops s1 = Some (ms, s2)"
    "pool_ok pool ?psz s2 bs rs ns (mset (pm_live s0))" "sorted_wrt apart (handed ops ms)"
    "set (handed ops ms) \<subseteq> in_use s2 rs ns" "list_all2 (\<lambda>op m. pop_align op dvd m) ops ms"
    using pool_run_ok [OF assms(1) c, of ops] by auto
  obtain s3 where "pool_destroy pool s2 = Some s3" "mset (pm_live s3) = mset (pm_live s0)"
    using pool_destroy_ok [OF r(2)] by blast
  moreover have "apart r q" if "r \<in> set (handed ops ms)" "q \<in> set (pm_live s0)" for r q
    using in_use_other [of pool ?psz s2 bs rs ns "mset (pm_live s0)" r q] r(2,4) that by (auto simp: pool_ok_def)
  ultimately show ?thesis using r by blast
qed

text \<open>An allocator that never reuses addresses.\<close>

definition bump :: os where
  "bump t live al n =
     (let a = al * Suc (foldr max (map (\<lambda>r. fst r + snd r) live) 0) in if a + n < 2 ^ 63 then a else 0)"

lemma foldr_max_ge: "x \<in> set xs \<Longrightarrow> x \<le> foldr max xs (0 :: nat)"
  by (induction xs) (auto simp: max_def)

lemma bump_ok: "os_ok bump"
proof -
  have "apart (al * Suc (foldr max (map (\<lambda>r. fst r + snd r) live) 0), n) r"
    if "r \<in> set live" "0 < al" for al n r and live :: "region list"
  proof -
    have "fst r + snd r \<le> foldr max (map (\<lambda>r. fst r + snd r) live) 0" using that(1) by (intro foldr_max_ge) auto
    also have "\<dots> \<le> al * Suc (foldr max (map (\<lambda>r. fst r + snd r) live) 0)" using that(2) by (cases al) auto
    finally show ?thesis by (simp add: apart_def)
  qed
  thus ?thesis by (auto simp: os_ok_def bump_def Let_def)
qed

definition ex_pmem :: pmem where
  "ex_pmem = \<lparr>pm_time = 0, pm_live = [(8, 100)], pm_data = Map.empty, pm_head = Map.empty, pm_large = Map.empty\<rparr>"

theorem pool_lifecycle_witness:
  "\<exists>pool s1 ms s2 s3. pool_create bump 256 4096 ex_pmem = (pool, s1) \<and> pool \<noteq> nullptr \<and>
     pool_run bump pool [Alloc 100, Alloc 120, Alloc 1000, Memalign 64 64, Alloc 8] s1 = Some (ms, s2) \<and>
     pool_destroy pool s2 = Some s3 \<and> pm_live s3 = [(8, 100)]"
proof -
  obtain s1 where s1: "pool_create bump 256 4096 ex_pmem = (1744, s1)"
    by (simp add: pool_create_def memory_alloc_def os_alloc_def bump_def ex_pmem_def sizeof_pool_t_def Let_def)
  have "live_ok (pm_live ex_pmem)" by (simp add: live_ok_def ex_pmem_def)
  thus ?thesis
    using pool_lifecycle [OF bump_ok _ s1, of "[Alloc 100, Alloc 120, Alloc 1000, Memalign 64 64, Alloc 8]"] s1
    by (fastforce simp: sizeof_pool_t_def sizeof_pool_large_t_def ex_pmem_def)
qed

text \<open>A pool with less room than a node: a large allocation asks the pool for a node, which is a large
  allocation again, and so on, as long as the C library has memory.\<close>

lemma pool_alloc_small_pool_diverges:
  assumes "\<And>t live al n. os t live al n \<noteq> nullptr"
    and "pm_head s pool = Some h" "p_max h < sizeof_pool_large_t" "p_max h < sz" "pool \<noteq> nullptr"
  shows "pool_alloc os pool sz s = None"
proof (rule ccontr)
  assume "pool_alloc os pool sz s \<noteq> None"
  then obtain y where y: "pool_alloc os pool sz s = Some y" by blast
  let ?P = "\<lambda>os pool sz s y. (\<forall>t live al n. os t live al n \<noteq> nullptr) \<longrightarrow> pool \<noteq> nullptr \<longrightarrow>
      (\<forall>h. pm_head s pool = Some h \<longrightarrow> p_max h < sizeof_pool_large_t \<longrightarrow> \<not> p_max h < sz)"
  have "?P os pool sz s y"
  proof (rule pool_alloc.raw_induct [where P = ?P, OF _ y], intro allI impI notI)
    fix alloc os pool sz s y h
    assume ih: "\<And>os pool sz s y. alloc os pool sz s = Some y \<Longrightarrow> ?P os pool sz s y"
      and os: "\<forall>t live al n. os t live al n \<noteq> nullptr"
      and h: "pool \<noteq> nullptr" "pm_head s pool = Some h" "p_max h < sizeof_pool_large_t" "p_max h < sz"
      and body: "(if pool = nullptr \<or> sz = 0 then Some (nullptr, s)
        else do { hd \<leftarrow> pm_head s pool;
                if sz \<le> p_max hd
                then do { (m, s) \<leftarrow> alloc_scan (p_current hd) sz s;
                          case m of Some m \<Rightarrow> Some (m, s) | None \<Rightarrow> pool_alloc_block os pool sz s }
                else case memory_alloc os sz s of (p, s) \<Rightarrow>
                       if p = nullptr then Some (nullptr, s)
                       else do { (large, s) \<leftarrow> alloc os pool sizeof_pool_large_t s;
                                 if large = nullptr
                                 then do { s \<leftarrow> memory_free p s; Some (nullptr, s) }
                                 else do { s \<leftarrow> link_large pool large p sz s; Some (p, s) } } }) = Some y"
    obtain p s1 where p: "memory_alloc os sz s = (p, s1)" "p \<noteq> nullptr" "pm_head s1 = pm_head s"
      using h(4) os by (auto simp: memory_alloc_def os_alloc_def Let_def)
    obtain z where "alloc os pool sizeof_pool_large_t s1 = Some z"
      using body h p(1,2) by (cases "alloc os pool sizeof_pool_large_t s1") auto
    from ih [OF this] show False using os h p(3) by auto
  qed
  thus False using assms by auto
qed

end
