(* ===== verification/Spec2Isabelle.thy ===== *)
theory Spec2Isabelle
  imports Nn_Conn Nn_Server Dfs_Des Dfs_Math Dfs_Codec Dfs_Printf Dfs_ConnPool Dfs_Event Dfs_Hashtable Dfs_Pool
begin

text \<open>
  Verification of the epoll server in \<^verbatim>\<open>src/src\<close>: an event-driven TCP server that reads length-prefixed tasks from its
  clients, hands them through queues to worker threads, and writes the answers back.

  \<^bold>\<open>The program.\<close> A client thread runs an event loop over \<^verbatim>\<open>epoll\<close> (\<^verbatim>\<open>dn_thread.cpp\<close>, \<^verbatim>\<open>core/dfs_epoll.cpp\<close>,
  \<^verbatim>\<open>core/dfs_event.cpp\<close>, \<^verbatim>\<open>core/dfs_event_timer.cpp\<close>). It accepts connections into the structures of a pool
  (\<^verbatim>\<open>core/dfs_conn_pool.cpp\<close>, \<^verbatim>\<open>core/dfs_conn.cpp\<close>); the handlers of \<^verbatim>\<open>nn_request.cpp\<close> read bytes into a buffer
  (\<^verbatim>\<open>core/dfs_buffer.cpp\<close>), decode tasks (\<^verbatim>\<open>common/\<close>) and dispatch them to the task threads
  (\<^verbatim>\<open>nn_task_queue.cpp\<close>, \<^verbatim>\<open>dn_worker_process.cpp\<close>, \<^verbatim>\<open>nn_task_handler.cpp\<close>); the answers come back through write-back queues and
  a pipe that wakes the client thread (\<^verbatim>\<open>nn_net_response_handler.cpp\<close>, \<^verbatim>\<open>core/dfs_notice.cpp\<close>). Everything stands on the
  containers and routines of \<^verbatim>\<open>core/\<close>.

  \<^bold>\<open>The model.\<close> Definitions translate the functions of the source one by one, under their names. Undefined behaviour
  (null dereference, access outside of an object, use of freed memory, signed overflow) and non-termination are
  the value \<^term>\<open>None\<close>, so a theorem that a call returns \<^term>\<open>Some r\<close> also says that it is safe and terminates; the
  program's own error codes are ordinary values. Machine integers have their width. The answers of the kernel
  (received bytes, accepted bytes, failures, the clock) are lists or arguments, over which the theorems quantify.

  \<^bold>\<open>Theories.\<close>
  \<^item> \<open>Dfs_Prelude\<close>: integer types, return codes, checked reads and writes of arrays.
  \<^item> \<open>Dfs_Queue\<close> (\<^verbatim>\<open>core/dfs_queue.h\<close>, \<^verbatim>\<open>core/dfs_queue.cpp\<close>): the intrusive ring at pointer level, the abstraction to lists, the
    interface \<open>queue_ops\<close> with its interpretation, stable sorting.
  \<^item> \<open>Dfs_Task\<close> (\<^verbatim>\<open>common/\<close>, \<^verbatim>\<open>core/dfs_buffer.cpp\<close>): buffers, the byte representation of tasks, the round trip of the wire
    format, incomplete and malformed frames.
  \<^item> \<open>Nn_TaskQueue\<close> (\<^verbatim>\<open>nn_task_queue.cpp\<close>): spin-locked queues on rings; they refine the channel interface \<open>task_channel\<close>.
  \<^item> \<open>Dfs_Conn\<close> (\<^verbatim>\<open>core/dfs_conn.cpp\<close>, registration in \<^verbatim>\<open>core/dfs_epoll.cpp\<close> and \<^verbatim>\<open>core/dfs_event.cpp\<close>, \<^verbatim>\<open>core/dfs_sysio.cpp\<close>):
    connections, socket input and output; the \<open>active\<close> flags agree with the kernel as long as no active event is added directly and no
    registered descriptor is overwritten.
  \<^item> \<open>Nn_Conn\<close> (\<^verbatim>\<open>nn_request.cpp\<close>): the state of a client connection and all its handlers: delivery of exactly the frames of
    the stream (when no length word is cut and there are nodes for all of them), the invariant of the output stream, back-pressure, teardown.
  \<^item> \<open>Nn_Server\<close> (\<^verbatim>\<open>dn_worker_process.cpp\<close>, \<^verbatim>\<open>core/dfs_notice.cpp\<close>, \<^verbatim>\<open>nn_task_handler.cpp\<close>, \<^verbatim>\<open>nn_net_response_handler.cpp\<close>): the path of a
    task through dispatch, execution and write-back. \<^verbatim>\<open>dispatch_task\<close> and the handler of the notice pipe are lists of atomic
    actions; the sequential definitions execute them in one go, and the step relation \<open>wake_step\<close> interleaves the same lists.
  \<^item> \<open>Dfs_Rbtree\<close>, \<open>Dfs_Rbtree_Inv\<close>, \<open>Dfs_Rbtree_Insert\<close>, \<open>Dfs_Rbtree_Delete\<close>, \<open>Dfs_Rbtree_Store\<close>
    (\<^verbatim>\<open>core/dfs_rbtree.cpp\<close>): the red-black tree at pointer level with parent pointers and sentinel. Zippers
    (\<open>zip_at\<close>) relate the heap around a node to a tree; the loops of insertion and deletion are shown to restore order,
    colours and black heights; the interface \<open>ordered_store\<close> is interpreted on the operations.
  \<^item> \<open>Dfs_Timer\<close> (\<^verbatim>\<open>core/dfs_event_timer.cpp\<close>): timers as a client of \<open>ordered_store\<close>, refined to a map of deadlines; expiry runs the due
    handlers as the relation \<open>expiry\<close> says.
  \<^item> \<open>Dfs_ConnPool\<close> (\<^verbatim>\<open>core/dfs_conn_pool.cpp\<close>): free lists of the threads and the common pool; conservation of connections in
    every interleaving.
  \<^item> \<open>Dfs_Time\<close> (\<^verbatim>\<open>core/dfs_time.cpp\<close>, \<^verbatim>\<open>dn_time.cpp\<close>): the calendar against a day-counting definition, HTTP dates, the cached
    time and its readers.
  \<^item> \<open>Dfs_Event\<close> (\<^verbatim>\<open>core/dfs_epoll.cpp\<close>, \<^verbatim>\<open>core/dfs_event.cpp\<close>, \<^verbatim>\<open>dn_thread.cpp\<close>): a turn of the event loop over connections, posted
    queues, timers and clock. Its handlers are a parameter, of which nothing is assumed but that they do not free connections; a turn
    is shown to be equal to the calls of the live handlers in their order, followed by the expiry of the timers.
  \<^item> \<open>Dfs_Pool\<close> (\<^verbatim>\<open>core/dfs_memory_pool.cpp\<close>, \<^verbatim>\<open>core/dfs_memory.cpp\<close>): memory pools over the live blocks of the C library, whose
    answers are a parameter; alignment, no two regions overlap, and destroying a pool frees exactly what it took, for pools with room for their own
    nodes (smaller ones recurse for ever).
  \<^item> \<open>Dfs_Hashtable\<close> (\<^verbatim>\<open>core/dfs_hashtable.cpp\<close>): the chained hash table; any sequence of its operations behaves as the list of the
    joined links. The contract \<open>hash_functions\<close> is interpreted on the three hash functions of the file.
  \<^item> \<open>Dfs_Des\<close>, \<open>Dfs_Math\<close> (\<^verbatim>\<open>core/dfs_math.cpp\<close>): DES and triple DES with their round trips, logarithm and primes.
  \<^item> \<open>Dfs_String\<close>, \<open>Dfs_Codec\<close>, \<open>Dfs_Printf\<close> (\<^verbatim>\<open>core/dfs_string.cpp\<close>): comparison, search and number parsing; Base64, UTF-8, URI and
    HTML escaping; formatted output. The address of the output buffer is an argument of the formatter, whose tests for the end of the
    buffer wrap around; the escaping loops have the 32-bit counter of the source, which never reaches a size of \<open>2 ^ 32\<close> or more.

  \<^bold>\<open>Loops and fuel.\<close> No definition uses fuel. Loops over data are structural recursion or recursion with a measure; loops
  over pointers are \<open>partial_function (option)\<close>, and the theorems show that they return.

  \<^bold>\<open>Abstractions.\<close> A handler pointer is a flag where only its presence matters and a function parameter where it is called.
  Log output is left out, the \<^verbatim>\<open>printf\<close> calls too (the one in \<^verbatim>\<open>nn_conn_decode\<close> reads the input buffer as a C string). Allocation is an argument:
  the address returned, or null; \<open>Dfs_Pool\<close> has the allocator itself. The answers of the kernel are finite lists, so that a
  \<^verbatim>\<open>send\<close> that returns 0 for ever, on which the loop of \<^verbatim>\<open>nn_conn_out_buffer\<close> would not end, is outside of the model. The
  cached times of \<^verbatim>\<open>dn_time.cpp\<close> are one array of all rows, not one object per row: the texts are longer than their rows, and what the
  program makes of that is part of the theorem about \<^verbatim>\<open>time_update\<close>.

  \<^bold>\<open>Not modelled.\<close> Thin wrappers of system calls (\<^verbatim>\<open>core/dfs_pipe.cpp\<close>, \<^verbatim>\<open>core/dfs_ipc.cpp\<close>, \<^verbatim>\<open>core/dfs_channel.cpp\<close>,
  \<^verbatim>\<open>core/dfs_sys.cpp\<close>, the socket options of \<^verbatim>\<open>core/dfs_conn.cpp\<close>), process and signal management (\<^verbatim>\<open>dn_process.cpp\<close>,
  \<^verbatim>\<open>dn_cycle.cpp\<close>, \<^verbatim>\<open>dn_module.cpp\<close>, \<^verbatim>\<open>main.cpp\<close>, most of \<^verbatim>\<open>dn_worker_process.cpp\<close>), the log files, the configuration parser, the
  slab, block and shared-memory allocators of \<^verbatim>\<open>core/\<close> and the semaphore and shared-memory locks. They either only call the kernel, where a model
  would be a restatement of the call, or are not on the path of a task.
\<close>

end
